(* ===== verification/Zt_Prelude.thy ===== *)
theory Zt_Prelude
  imports Main "HOL-Library.AList" "HOL-Library.Multiset" "HOL-Library.Word"
    "HOL-Library.Signed_Division" "HOL-Library.Char_ord" "HOL-Library.List_Lexorder"
begin

text \<open>
  Shared vocabulary of the development.

  \<^item> Go's signed machine integers are read as \<^typ>\<open>int\<close> with the two's complement
    wrap-around written out (\<open>i64\<close>, \<open>i32\<close>); its unsigned integers are words.
  \<^item> A Go map, or a \<open>cmap.ConcurrentMap\<close>, whose keys are enumerated somewhere in the code is
    an association list with distinct keys; one that is only looked up and stored into is a
    map \<open>'k \<rightharpoonup> 'v\<close>.
  \<^item> The order in which Go's \<open>range\<close> visits a map is unspecified. \<open>go_range ord xs\<close> is the
    enumeration of a map whose keys are \<open>xs\<close>: \<open>ord\<close> is an arbitrary order oracle, and
    whatever it answers, the result is a permutation of \<open>xs\<close>. Every theorem that mentions
    \<open>ord\<close> holds for every order.
\<close>

section \<open>Collections of rewrite rules\<close>

named_theorems go_int \<open>wrap-around of machine integers that stay in range\<close>
named_theorems alist_simps \<open>look-ups in updated association lists\<close>

section \<open>Machine integers\<close>

definition i64 :: "int \<Rightarrow> int" where
  "i64 x = (x + 2 ^ 63) mod 2 ^ 64 - 2 ^ 63"

definition i32 :: "int \<Rightarrow> int" where
  "i32 x = (x + 2 ^ 31) mod 2 ^ 32 - 2 ^ 31"

abbreviation MaxInt32 :: int where
  "MaxInt32 \<equiv> 2147483647"

abbreviation MaxInt64 :: int where
  "MaxInt64 \<equiv> 9223372036854775807"

lemma i64_id [go_int]: "- (2 ^ 63) \<le> x \<Longrightarrow> x < 2 ^ 63 \<Longrightarrow> i64 x = x"
  by (simp add: i64_def)

lemma i64_range: "- (2 ^ 63) \<le> i64 x \<and> i64 x \<le> MaxInt64"
  by (simp add: i64_def)

lemma i64_le_max [simp]: "i64 x \<le> MaxInt64"
  using i64_range by blast

lemma i32_id [go_int]: "- (2 ^ 31) \<le> x \<Longrightarrow> x < 2 ^ 31 \<Longrightarrow> i32 x = x"
  by (simp add: i32_def)

section \<open>Enumerating a map\<close>

definition go_range :: "('a list \<Rightarrow> 'a list) \<Rightarrow> 'a list \<Rightarrow> 'a list" where
  "go_range ord xs = (if mset (ord xs) = mset xs then ord xs else xs)"

lemma mset_go_range [simp]: "mset (go_range ord xs) = mset xs"
  by (simp add: go_range_def)

lemma set_go_range [simp]: "set (go_range ord xs) = set xs"
  using mset_eq_setD [OF mset_go_range] .

lemma distinct_go_range [simp]: "distinct (go_range ord xs) = distinct xs"
  using mset_eq_imp_distinct_iff [OF mset_go_range] .

lemma length_go_range [simp]: "length (go_range ord xs) = length xs"
  using mset_eq_length [OF mset_go_range] .

lemma go_range_empty [simp]: "go_range ord [] = []"
  by (metis length_0_conv length_go_range)

text \<open>
  \<open>sort.Slice\<close> gives a sorted permutation and leaves the order of equal elements open;
  \<open>ord\<close> is again an arbitrary oracle.
\<close>

definition go_sort :: "('a list \<Rightarrow> 'a list) \<Rightarrow> ('a \<Rightarrow> 'k::linorder) \<Rightarrow> 'a list \<Rightarrow> 'a list" where
  "go_sort ord key xs =
     (if mset (ord xs) = mset xs \<and> sorted (map key (ord xs)) then ord xs else sort_key key xs)"

lemma mset_go_sort [simp]: "mset (go_sort ord key xs) = mset xs"
  by (simp add: go_sort_def)

lemma set_go_sort [simp]: "set (go_sort ord key xs) = set xs"
  using mset_eq_setD [OF mset_go_sort] .

lemma sorted_go_sort [simp]: "sorted (map key (go_sort ord key xs))"
  by (simp add: go_sort_def)

lemma go_sort_empty [simp]: "go_sort ord key xs = [] \<longleftrightarrow> xs = []"
  by (metis mset_go_sort mset_zero_iff)

section \<open>Loops over a list\<close>

lemma fold_keeps:
  assumes "\<And>x s. x \<in> set xs \<Longrightarrow> P s \<Longrightarrow> P (f x s)" and "P s"
  shows "P (fold f xs s)"
  using assms by (induction xs arbitrary: s) auto

lemma fold_frame:
  assumes "\<And>x s. x \<in> set xs \<Longrightarrow> g (f x s) = g s"
  shows "g (fold f xs s) = g s"
  using assms by (induction xs arbitrary: s) auto

text \<open>A loop whose body may fail (panic or not return) stops there.\<close>

fun ofold :: "('a \<Rightarrow> 's \<Rightarrow> 's option) \<Rightarrow> 'a list \<Rightarrow> 's \<Rightarrow> 's option" where
  "ofold f [] s = Some s"
| "ofold f (x # xs) s = (case f x s of None \<Rightarrow> None | Some s' \<Rightarrow> ofold f xs s')"

lemma ofold_total:
  assumes "\<And>x s. x \<in> set xs \<Longrightarrow> P s \<Longrightarrow> \<exists>s'. f x s = Some s' \<and> P s'" and "P s"
  shows "\<exists>s'. ofold f xs s = Some s' \<and> P s'"
  using assms
proof (induction xs arbitrary: s)
  case (Cons x xs)
  from Cons.prems(1) [of x s] Cons.prems(2) obtain s1 where s1: "f x s = Some s1" "P s1" by auto
  from Cons.IH [OF Cons.prems(1) s1(2)] s1(1) show ?case by auto
qed simp

lemma ofold_keeps:
  assumes "ofold f xs s = Some s'" "P s"
    and "\<And>x s s1. x \<in> set xs \<Longrightarrow> f x s = Some s1 \<Longrightarrow> P s \<Longrightarrow> P s1"
  shows "P s'"
  using assms
proof (induction xs arbitrary: s)
  case (Cons x xs)
  from Cons.prems(1) obtain s1 where s1: "f x s = Some s1" "ofold f xs s1 = Some s'" by (auto split: option.splits)
  from Cons.prems(3) [OF _ s1(1) Cons.prems(2)] have "P s1" by simp
  then show ?case by (rule Cons.IH [OF s1(2)]) (rule Cons.prems(3), auto)
qed simp

section \<open>Association lists with distinct keys\<close>

abbreviation keys_distinct :: "('k \<times> 'v) list \<Rightarrow> bool" where
  "keys_distinct m \<equiv> distinct (map fst m)"

lemma map_of_update [alist_simps, simp]:
  "map_of (AList.update k v m) = (map_of m)(k \<mapsto> v)"
  by (rule update_conv')

lemma map_of_delete [alist_simps, simp]:
  "map_of (AList.delete k m) = (map_of m)(k := None)"
  by (rule delete_conv')

lemma alist_update_nonempty [simp]: "AList.update k v m \<noteq> []" "[] \<noteq> AList.update k v m"
  by (cases m; auto)+

lemma set_alist_update: "x \<in> set (AList.update k v m) \<Longrightarrow> x = (k, v) \<or> x \<in> set m"
  by (induction m) (auto split: if_splits)

lemma keys_distinct_update: "keys_distinct m \<Longrightarrow> keys_distinct (AList.update k v m)"
  by (rule distinct_update)

lemma keys_distinct_delete: "keys_distinct m \<Longrightarrow> keys_distinct (AList.delete k m)"
  by (rule distinct_delete)

lemma mem_iff_map_of: "keys_distinct m \<Longrightarrow> (k, v) \<in> set m \<longleftrightarrow> map_of m k = Some v"
  by (simp add: map_of_eq_Some_iff)

section \<open>Look-ups with Go's zero value\<close>

definition lookup0 :: "('k \<rightharpoonup> int) \<Rightarrow> 'k \<Rightarrow> int" where
  "lookup0 m k = (case m k of Some v \<Rightarrow> v | None \<Rightarrow> 0)"

lemma lookup0_upd [simp]: "lookup0 (m(k \<mapsto> v)) k' = (if k' = k then v else lookup0 m k')"
  by (simp add: lookup0_def)

lemma lookup0_Some: "m k = Some v \<Longrightarrow> lookup0 m k = v"
  by (simp add: lookup0_def)

section \<open>Selecting a minimum in one pass\<close>

text \<open>
  The loops \<open>if d <= best { selected = r; best = d }\<close> and \<open>if d < best { ... }\<close> of the
  controller are left folds over the candidates. Both select an element of least key.
\<close>

fun scan_le :: "('a \<Rightarrow> int) \<Rightarrow> 'a option \<Rightarrow> int \<Rightarrow> 'a list \<Rightarrow> 'a option" where
  "scan_le key sel best [] = sel"
| "scan_le key sel best (x # xs) =
     (if key x \<le> best then scan_le key (Some x) (key x) xs else scan_le key sel best xs)"

fun scan_less :: "('a \<Rightarrow> int) \<Rightarrow> 'a option \<Rightarrow> int \<Rightarrow> 'a list \<Rightarrow> 'a option" where
  "scan_less key sel best [] = sel"
| "scan_less key sel best (x # xs) =
     (if key x < best then scan_less key (Some x) (key x) xs else scan_less key sel best xs)"

lemma scan_le_cases:
  "scan_le key sel best xs = Some y \<Longrightarrow>
     (y \<in> set xs \<and> key y \<le> best \<and> (\<forall>x \<in> set xs. key y \<le> key x)) \<or>
     (sel = Some y \<and> (\<forall>x \<in> set xs. best < key x))"
  by (induction key sel best xs rule: scan_le.induct) (fastforce split: if_splits)+

lemma scan_le_None: "scan_le key sel best xs = None \<longleftrightarrow> sel = None \<and> (\<forall>x \<in> set xs. best < key x)"
  by (induction key sel best xs rule: scan_le.induct) auto

lemma scan_less_cases:
  "scan_less key sel best xs = Some y \<Longrightarrow>
     (y \<in> set xs \<and> key y < best \<and> (\<forall>x \<in> set xs. key y \<le> key x)) \<or>
     (sel = Some y \<and> (\<forall>x \<in> set xs. best \<le> key x))"
  by (induction key sel best xs rule: scan_less.induct) (fastforce split: if_splits)+

lemma scan_less_None:
  "scan_less key sel best xs = None \<longleftrightarrow> sel = None \<and> (\<forall>x \<in> set xs. best \<le> key x)"
  by (induction key sel best xs rule: scan_less.induct) auto

end
