(* ===== verification/Links.thy ===== *)
theory Links
  imports Zt_Prelude
begin

text \<open>
  The controller's view of routers and links: the link object
  (\<open>controller/model/link_model.go\<close>), the per-router link index \<open>RouterLinks\<close> and the
  connected-router table (\<open>controller/model/router_manager.go\<close>), the link manager
  (\<open>controller/model/link_manager.go\<close>) and the handlers of \<open>controller/network\<close> that
  change them.

  Routers and links are shared, mutable Go objects compared by pointer, so the state \<open>net\<close>
  holds two heaps, indexed by \<open>router_ref\<close> and \<open>link_ref\<close>. The current time is an argument
  of the operations that read the clock. What a handler does outside this state (closing a
  control channel, sending a fault, starting a reroute) is a list of \<open>effect\<close> values.
\<close>

section \<open>State\<close>

type_synonym router_ref = nat
type_synonym link_ref = nat

datatype LinkMode = Connected | Failed | Duplicate

record LinkConnState =
  stateIteration :: "32 word"
  conns :: "(string \<times> string \<times> string) list"

record link =
  l_id :: string
  l_srcLatency :: int
  l_dstLatency :: int
  l_cost :: int
  l_iteration :: "32 word"
  l_src :: router_ref
  l_dstId :: string
  l_dst :: "router_ref option"
  l_protocol :: string
  l_dialAddress :: string
  l_mode :: LinkMode
  l_timestamp :: int
  l_down :: bool
  l_staticCost :: int
  l_connState :: "LinkConnState option"
  l_usable :: bool

record RouterLinks =
  allLinks :: "link_ref list"
  linkByRouter :: "string \<rightharpoonup> link_ref list"

record router =
  r_id :: string
  r_fingerprint :: "string option"
  r_hasControl :: bool
  r_connected :: bool
  r_routerLinks :: RouterLinks
  r_cost :: "16 word"
  r_noTraversal :: bool

record net =
  routers :: "router_ref \<Rightarrow> router"
  links :: "link_ref \<Rightarrow> link"
  nextLink :: link_ref
  linkTable :: "(string \<times> link_ref) list"
  connected :: "(string \<times> router_ref) list"
  initialLatency :: int

datatype LinkEventType = LinkFromRouterNew | LinkFromRouterKnown | LinkFromRouterDisconnectedDest
  | LinkFault | LinkDuplicate

datatype effect =
    CloseControl router_ref
  | RouterConnectedNotify router_ref
  | RouterDisconnectedNotify router_ref
  | ValidateTerminators router_ref
  | RerouteLink link_ref
  | SendLinkFault router_ref string "32 word"
  | NotifyLinkEvent link_ref LinkEventType
  | NotifyLinkIdEvent string LinkEventType

text \<open>What a router says about one of its links (\<open>ctrl_pb.RouterLinks_RouterLink\<close>).\<close>

record RouterLink =
  rl_id :: string
  rl_destRouterId :: string
  rl_protocol :: string
  rl_dialAddress :: string
  rl_iteration :: "32 word"
  rl_connState :: "LinkConnState option"

section \<open>The link object\<close>

definition Link_RecalculateCost :: "link \<Rightarrow> link" where
  "Link_RecalculateCost l =
     l\<lparr>l_cost := i64 (l_staticCost l + l_srcLatency l sdiv 1000000 + l_dstLatency l sdiv 1000000)\<rparr>"

definition Link_recalculateUsable :: "link \<Rightarrow> link" where
  "Link_recalculateUsable l =
     (if l_down l then l\<lparr>l_usable := False\<rparr>
      else if l_mode l \<noteq> Connected then l\<lparr>l_usable := False\<rparr>
      else l\<lparr>l_usable := True\<rparr>)"

definition newLink :: "string \<Rightarrow> string \<Rightarrow> string \<Rightarrow> int \<Rightarrow> int \<Rightarrow> link" where
  "newLink lid proto addr latency now =
     Link_recalculateUsable (Link_RecalculateCost
       \<lparr>l_id = lid, l_srcLatency = latency, l_dstLatency = latency, l_cost = 0, l_iteration = 0,
        l_src = 0, l_dstId = '''', l_dst = None, l_protocol = proto, l_dialAddress = addr,
        l_mode = Connected, l_timestamp = now, l_down = False, l_staticCost = 1,
        l_connState = None, l_usable = False\<rparr>)"

definition Link_SetState :: "LinkMode \<Rightarrow> int \<Rightarrow> link \<Rightarrow> link" where
  "Link_SetState m now l = Link_recalculateUsable (l\<lparr>l_mode := m, l_timestamp := now\<rparr>)"

definition GetStateIteration :: "LinkConnState option \<Rightarrow> 32 word" where
  "GetStateIteration s = (case s of None \<Rightarrow> 0 | Some c \<Rightarrow> stateIteration c)"

definition Link_SetConnsState :: "LinkConnState option \<Rightarrow> link \<Rightarrow> link" where
  "Link_SetConnsState s l =
     (case l_connState l of
        None \<Rightarrow> l\<lparr>l_connState := s\<rparr>
      | Some cur \<Rightarrow> if stateIteration cur < GetStateIteration s then l\<lparr>l_connState := s\<rparr> else l)"

definition Link_SetDown :: "bool \<Rightarrow> link \<Rightarrow> link" where
  "Link_SetDown d l = Link_recalculateUsable (l\<lparr>l_down := d\<rparr>)"

definition Link_SetStaticCost :: "int \<Rightarrow> link \<Rightarrow> link" where
  "Link_SetStaticCost c l = Link_RecalculateCost (l\<lparr>l_staticCost := c\<rparr>)"

definition Link_SetSrcLatency :: "int \<Rightarrow> link \<Rightarrow> link" where
  "Link_SetSrcLatency n l = Link_RecalculateCost (l\<lparr>l_srcLatency := n\<rparr>)"

definition Link_SetDstLatency :: "int \<Rightarrow> link \<Rightarrow> link" where
  "Link_SetDstLatency n l = Link_RecalculateCost (l\<lparr>l_dstLatency := n\<rparr>)"

section \<open>The per-router link index\<close>

definition RouterLinks_Add :: "link_ref \<Rightarrow> string \<Rightarrow> RouterLinks \<Rightarrow> RouterLinks" where
  "RouterLinks_Add l other rl =
     rl\<lparr>allLinks := allLinks rl @ [l],
        linkByRouter := (linkByRouter rl)(other \<mapsto>
          l # (case linkByRouter rl other of None \<Rightarrow> [] | Some ls \<Rightarrow> ls))\<rparr>"

definition RouterLinks_Remove :: "link_ref \<Rightarrow> string \<Rightarrow> RouterLinks \<Rightarrow> RouterLinks" where
  "RouterLinks_Remove l other rl =
     (let forRouter = filter (\<lambda>x. x \<noteq> l) (case linkByRouter rl other of None \<Rightarrow> [] | Some ls \<Rightarrow> ls)
      in rl\<lparr>allLinks := filter (\<lambda>x. x \<noteq> l) (allLinks rl),
            linkByRouter := (if forRouter = [] then (linkByRouter rl)(other := None)
                             else (linkByRouter rl)(other \<mapsto> forRouter))\<rparr>)"

definition RouterLinks_Clear :: "RouterLinks \<Rightarrow> RouterLinks" where
  "RouterLinks_Clear rl = rl\<lparr>allLinks := [], linkByRouter := Map.empty\<rparr>"

definition GetLinksByRouter :: "RouterLinks \<Rightarrow> string \<Rightarrow> link_ref list" where
  "GetLinksByRouter rl other = (case linkByRouter rl other of None \<Rightarrow> [] | Some ls \<Rightarrow> ls)"

definition upd_router :: "router_ref \<Rightarrow> (router \<Rightarrow> router) \<Rightarrow> net \<Rightarrow> net" where
  "upd_router r f n = n\<lparr>routers := (routers n)(r := f (routers n r))\<rparr>"

definition upd_link :: "link_ref \<Rightarrow> (link \<Rightarrow> link) \<Rightarrow> net \<Rightarrow> net" where
  "upd_link l f n = n\<lparr>links := (links n)(l := f (links n l))\<rparr>"

definition add_router_link :: "router_ref \<Rightarrow> link_ref \<Rightarrow> string \<Rightarrow> net \<Rightarrow> net" where
  "add_router_link r l other =
     upd_router r (\<lambda>x. x\<lparr>r_routerLinks := RouterLinks_Add l other (r_routerLinks x)\<rparr>)"

definition remove_router_link :: "router_ref \<Rightarrow> link_ref \<Rightarrow> string \<Rightarrow> net \<Rightarrow> net" where
  "remove_router_link r l other =
     upd_router r (\<lambda>x. x\<lparr>r_routerLinks := RouterLinks_Remove l other (r_routerLinks x)\<rparr>)"

section \<open>The link table and the link manager\<close>

definition linkTable_add :: "link_ref \<Rightarrow> net \<Rightarrow> net" where
  "linkTable_add l n = n\<lparr>linkTable := AList.update (l_id (links n l)) l (linkTable n)\<rparr>"

definition LinkManager_Get :: "net \<Rightarrow> string \<Rightarrow> link_ref option" where
  "LinkManager_Get n i = map_of (linkTable n) i"

definition LinkManager_has :: "net \<Rightarrow> link_ref \<Rightarrow> bool" where
  "LinkManager_has n l = (LinkManager_Get n (l_id (links n l)) \<noteq> None)"

definition LinkManager_All :: "net \<Rightarrow> link_ref list" where
  "LinkManager_All n = map snd (linkTable n)"

definition LinksInMode :: "LinkMode \<Rightarrow> net \<Rightarrow> link_ref list" where
  "LinksInMode m n = filter (\<lambda>l. l_mode (links n l) = m) (LinkManager_All n)"

text \<open>\<open>linkTable.remove\<close>: the entry goes when it has the iteration of the link given.\<close>

definition linkTable_remove :: "link_ref \<Rightarrow> net \<Rightarrow> net \<times> bool" where
  "linkTable_remove l n =
     (case map_of (linkTable n) (l_id (links n l)) of
        None \<Rightarrow> (n, False)
      | Some v \<Rightarrow>
          if l_iteration (links n v) = l_iteration (links n l)
          then (n\<lparr>linkTable := AList.delete (l_id (links n l)) (linkTable n)\<rparr>, True)
          else (n, False))"

definition LinkManager_Add :: "link_ref \<Rightarrow> net \<Rightarrow> net" where
  "LinkManager_Add l n =
     (let lk = links n l;
          n1 = add_router_link (l_src lk) l (l_dstId lk) (linkTable_add l n)
      in case l_dst lk of
           None \<Rightarrow> n1
         | Some d \<Rightarrow> add_router_link d l (r_id (routers n1 (l_src lk))) n1)"

definition LinkManager_Remove :: "link_ref \<Rightarrow> net \<Rightarrow> net" where
  "LinkManager_Remove l n =
     (let lk = links n l; (n1, removed) = linkTable_remove l n
      in if removed then
           let n2 = remove_router_link (l_src lk) l (l_dstId lk) n1
           in (case l_dst lk of
                 None \<Rightarrow> n2
               | Some d \<Rightarrow> remove_router_link d l (r_id (routers n2 (l_src lk))) n2)
         else n1)"

definition attach_dst :: "router_ref \<Rightarrow> link_ref \<Rightarrow> net \<Rightarrow> net" where
  "attach_dst r l n =
     (if l_dstId (links n l) = r_id (routers n r)
      then upd_link l (\<lambda>x. x\<lparr>l_dst := Some r\<rparr>)
             (add_router_link r l (r_id (routers n (l_src (links n l)))) n)
      else n)"

definition BuildRouterLinks :: "router_ref \<Rightarrow> net \<Rightarrow> net" where
  "BuildRouterLinks r n = fold (attach_dst r) (LinkManager_All n) n"

definition ScanForDeadLinks :: "net \<Rightarrow> net" where
  "ScanForDeadLinks n =
     fold LinkManager_Remove
       (filter (\<lambda>l. \<not> r_connected (routers n (l_src (links n l)))) (LinkManager_All n)) n"

definition RouterReportedLink ::
  "RouterLink \<Rightarrow> router_ref \<Rightarrow> router_ref option \<Rightarrow> int \<Rightarrow> net \<Rightarrow> net \<times> link_ref \<times> bool" where
  "RouterReportedLink rep src dst now n =
     (let found = LinkManager_Get n (rl_id rep) in
      if (case found of Some l \<Rightarrow> rl_iteration rep \<le> l_iteration (links n l) | None \<Rightarrow> False)
      then (n, the found, False)
      else
        let n1 = (case found of Some l \<Rightarrow> LinkManager_Remove l n | None \<Rightarrow> n);
            l = nextLink n1;
            lk = (newLink (rl_id rep) (rl_protocol rep) (rl_dialAddress rep) (initialLatency n1) now)
                   \<lparr>l_iteration := rl_iteration rep, l_src := src, l_dst := dst,
                    l_dstId := rl_destRouterId rep\<rparr>;
            lk2 = Link_SetConnsState (rl_connState rep) (Link_SetState Connected now lk)
        in (LinkManager_Add l (n1\<lparr>links := (links n1)(l := lk2), nextLink := Suc l\<rparr>), l, True))"

text \<open>
  \<open>ConnectedNeighborsOfRouter\<close> gathers the neighbours in a map keyed by router id; the
  result is its values, in the map's order.
\<close>

definition neighbor_step :: "net \<Rightarrow> router_ref \<Rightarrow> link_ref \<Rightarrow> (string \<times> router_ref) list \<Rightarrow>
    (string \<times> router_ref) list" where
  "neighbor_step n r l m =
     (let lk = links n l in
      case l_dst lk of
        None \<Rightarrow> m
      | Some d \<Rightarrow>
          if r_connected (routers n d) \<and> l_usable lk then
            let srcId = r_id (routers n (l_src lk)); me = r_id (routers n r);
                m1 = (if srcId \<noteq> me then AList.update srcId (l_src lk) m else m)
            in (if l_dstId lk \<noteq> me then AList.update (l_dstId lk) d m1 else m1)
          else m)"

definition neighbor_map :: "net \<Rightarrow> router_ref \<Rightarrow> (string \<times> router_ref) list" where
  "neighbor_map n r = fold (neighbor_step n r) (allLinks (r_routerLinks (routers n r))) []"

definition ConnectedNeighborsOfRouter ::
  "(router_ref list \<Rightarrow> router_ref list) \<Rightarrow> net \<Rightarrow> router_ref \<Rightarrow> router_ref list" where
  "ConnectedNeighborsOfRouter ord n r = go_range ord (map snd (neighbor_map n r))"

definition joins_router :: "net \<Rightarrow> string \<Rightarrow> link_ref \<Rightarrow> bool" where
  "joins_router n b l =
     (l_usable (links n l) \<and>
      (l_dstId (links n l) = b \<or> r_id (routers n (l_src (links n l))) = b))"

definition LeastExpensiveLink :: "net \<Rightarrow> router_ref \<Rightarrow> router_ref \<Rightarrow> link_ref option" where
  "LeastExpensiveLink n a b =
     scan_less (\<lambda>l. l_cost (links n l)) None MaxInt64
       (filter (joins_router n (r_id (routers n b)))
          (GetLinksByRouter (r_routerLinks (routers n a)) (r_id (routers n b))))"

section \<open>The connected-router table\<close>

definition GetConnected :: "net \<Rightarrow> string \<Rightarrow> router_ref option" where
  "GetConnected n i = map_of (connected n) i"

definition AllConnected :: "net \<Rightarrow> router_ref list" where
  "AllConnected n = map snd (connected n)"

definition MarkConnected :: "router_ref \<Rightarrow> net \<Rightarrow> net \<times> effect list" where
  "MarkConnected r n =
     (let rid = r_id (routers n r);
          closes = (case GetConnected n rid of
                      Some old \<Rightarrow> if r_hasControl (routers n old) then [CloseControl old] else []
                    | None \<Rightarrow> []);
          n1 = upd_router r (\<lambda>x. x\<lparr>r_connected := True\<rparr>) n
      in (n1\<lparr>connected := AList.update rid r (connected n1)\<rparr>, closes))"

definition MarkDisconnected :: "router_ref \<Rightarrow> net \<Rightarrow> net" where
  "MarkDisconnected r n =
     (let rid = r_id (routers n r);
          n1 = upd_router r (\<lambda>x. x\<lparr>r_connected := False\<rparr>) n;
          n2 = (if map_of (connected n1) rid = Some r
                then n1\<lparr>connected := AList.delete rid (connected n1)\<rparr> else n1)
      in upd_router r (\<lambda>x. x\<lparr>r_routerLinks := RouterLinks_Clear (r_routerLinks x)\<rparr>) n2)"

section \<open>The network's handlers\<close>

definition ConnectRouter :: "router_ref \<Rightarrow> net \<Rightarrow> net \<times> effect list" where
  "ConnectRouter r n =
     (let (n1, closes) = MarkConnected r (BuildRouterLinks r n)
      in (n1, closes @ [RouterConnectedNotify r, ValidateTerminators r]))"

definition disconnect_link :: "router_ref \<Rightarrow> link_ref \<Rightarrow> net \<times> effect list \<Rightarrow> net \<times> effect list" where
  "disconnect_link r l s =
     (let (n, es) = s;
          wasConnected = (l_mode (links n l) = Connected);
          n1 = (if r_id (routers n (l_src (links n l))) = r_id (routers n r)
                then LinkManager_Remove l n else n)
      in (n1, if wasConnected then es @ [RerouteLink l] else es))"

definition DisconnectRouter :: "router_ref \<Rightarrow> net \<Rightarrow> net \<times> effect list" where
  "DisconnectRouter r n =
     (let (n1, es) = fold (disconnect_link r) (allLinks (r_routerLinks (routers n r))) (n, [])
      in (MarkDisconnected r n1, es @ [RouterDisconnectedNotify r]))"

definition NotifyExistingLink ::
  "router_ref \<Rightarrow> RouterLink \<Rightarrow> int \<Rightarrow> net \<Rightarrow> net \<times> effect list" where
  "NotifyExistingLink srcRouter rep now n =
     (case GetConnected n (r_id (routers n srcRouter)) of
        None \<Rightarrow> (n, [])
      | Some src \<Rightarrow>
          if src \<noteq> srcRouter \<or> \<not> r_connected (routers n srcRouter) then (n, [])
          else
            let dst = GetConnected n (rl_destRouterId rep);
                es = (if dst = None then [NotifyLinkIdEvent (rl_id rep) LinkFromRouterDisconnectedDest]
                      else []);
                (n1, l, created) = RouterReportedLink rep src dst now n
            in (n1, es @ [NotifyLinkEvent l (if created then LinkFromRouterNew else LinkFromRouterKnown)]))"

definition LinkFaulted :: "link_ref \<Rightarrow> bool \<Rightarrow> int \<Rightarrow> net \<Rightarrow> net \<times> effect list" where
  "LinkFaulted l dupe now n =
     (let wasUsable = l_usable (links n l);
          n1 = LinkManager_Remove l (upd_link l (Link_SetState Failed now) n)
      in (n1, NotifyLinkEvent l (if dupe then LinkDuplicate else LinkFault) #
              (if wasUsable then [RerouteLink l] else [])))"

definition RemoveLink :: "string \<Rightarrow> net \<Rightarrow> net \<times> effect list" where
  "RemoveLink i n =
     (case LinkManager_Get n i of
        Some l \<Rightarrow>
          let lk = links n l;
              targets = l_src lk # (case l_dst lk of None \<Rightarrow> [] | Some d \<Rightarrow> [d]);
              faults = map (\<lambda>r. SendLinkFault r i (l_iteration lk))
                         (filter (\<lambda>r. r_hasControl (routers n r)) targets)
          in (LinkManager_Remove l n, faults @ [RerouteLink l])
      | None \<Rightarrow>
          (n, map (\<lambda>r. SendLinkFault r i 0)
                (filter (\<lambda>r. r_hasControl (routers n r)) (AllConnected n))))"

definition network_clean :: "int \<Rightarrow> net \<Rightarrow> net" where
  "network_clean now n =
     fold LinkManager_Remove
       (filter (\<lambda>l. i64 (now - l_timestamp (links n l)) \<ge> 30000)
          (LinksInMode Failed n @ LinksInMode Duplicate n)) n"

text \<open>
  \<open>AcceptMetricsMsg\<close>: \<open>lat\<close> and \<open>que\<close> give the truncated means of the
  \<open>link.<id>.latency\<close> and \<open>link.<id>.queue_time\<close> histograms, where present; \<open>known\<close> says
  which router ids the router store can read.
\<close>

definition metrics_link ::
  "(string \<rightharpoonup> int) \<Rightarrow> (string \<rightharpoonup> int) \<Rightarrow> string \<Rightarrow> link_ref \<Rightarrow> net \<Rightarrow> net" where
  "metrics_link lat que rid l n =
     (case lat (l_id (links n l)) of
        None \<Rightarrow> n
      | Some m \<Rightarrow>
          let c = (case que (l_id (links n l)) of None \<Rightarrow> m | Some q \<Rightarrow> i64 (m + q))
          in if r_id (routers n (l_src (links n l))) = rid then upd_link l (Link_SetSrcLatency c) n
             else if l_dstId (links n l) = rid then upd_link l (Link_SetDstLatency c) n
             else n)"

definition AcceptMetricsMsg ::
  "string \<Rightarrow> (string \<Rightarrow> bool) \<Rightarrow> (string \<rightharpoonup> int) \<Rightarrow> (string \<rightharpoonup> int) \<Rightarrow> string \<Rightarrow> net \<Rightarrow> net" where
  "AcceptMetricsMsg nodeId known lat que sourceId n =
     (if sourceId = nodeId then n
      else if \<not> known sourceId then n
      else case GetConnected n sourceId of
             None \<Rightarrow> n
           | Some r \<Rightarrow>
               fold (metrics_link lat que sourceId) (allLinks (r_routerLinks (routers n r))) n)"

datatype 'e verify_error = RouterReadFailed 'e | NotEnrolled | FingerprintMismatch

text \<open>\<open>VerifyRouter\<close>: \<open>getRouter\<close> is the router store's read.\<close>

definition VerifyRouter ::
  "(string \<Rightarrow> 'e + router) \<Rightarrow> string \<Rightarrow> string list \<Rightarrow> 'e verify_error + unit" where
  "VerifyRouter getRouter routerId fps =
     (case getRouter routerId of
        Inl e \<Rightarrow> Inl (RouterReadFailed e)
      | Inr r \<Rightarrow>
          case r_fingerprint r of
            None \<Rightarrow> Inl NotEnrolled
          | Some fp \<Rightarrow> if fp \<in> set fps then Inr () else Inl FingerprintMismatch)"

section \<open>Well-formedness\<close>

definition link_inv :: "link \<Rightarrow> bool" where
  "link_inv l \<longleftrightarrow>
     l_usable l = (\<not> l_down l \<and> l_mode l = Connected) \<and>
     l_cost l = i64 (l_staticCost l + l_srcLatency l sdiv 1000000 + l_dstLatency l sdiv 1000000)"

text \<open>A link is indexed at its source router, under the id of its destination.\<close>

definition indexed :: "net \<Rightarrow> link_ref \<Rightarrow> bool" where
  "indexed n l \<longleftrightarrow>
     l \<in> set (allLinks (r_routerLinks (routers n (l_src (links n l))))) \<and>
     l \<in> set (GetLinksByRouter (r_routerLinks (routers n (l_src (links n l)))) (l_dstId (links n l)))"

definition table_inv :: "net \<Rightarrow> bool" where
  "table_inv n \<longleftrightarrow>
     keys_distinct (linkTable n) \<and>
     (\<forall>(i, l) \<in> set (linkTable n).
        l_id (links n l) = i \<and> l < nextLink n \<and> link_inv (links n l) \<and> indexed n l)"

definition connected_inv :: "net \<Rightarrow> bool" where
  "connected_inv n \<longleftrightarrow>
     keys_distinct (connected n) \<and>
     (\<forall>(i, r) \<in> set (connected n). r_id (routers n r) = i \<and> r_connected (routers n r))"

definition net_inv :: "net \<Rightarrow> bool" where
  "net_inv n \<longleftrightarrow> table_inv n \<and> connected_inv n"

section \<open>The link object keeps its derived fields\<close>

lemma link_inv_recalculateUsable [intro]:
  "l_cost l = i64 (l_staticCost l + l_srcLatency l sdiv 1000000 + l_dstLatency l sdiv 1000000) \<Longrightarrow>
   link_inv (Link_recalculateUsable l)"
  by (simp add: link_inv_def Link_recalculateUsable_def)

lemma link_inv_RecalculateCost [intro]:
  "l_usable l = (\<not> l_down l \<and> l_mode l = Connected) \<Longrightarrow> link_inv (Link_RecalculateCost l)"
  by (simp add: link_inv_def Link_RecalculateCost_def)

lemma link_inv_newLink: "link_inv (newLink i p a lat now)"
  unfolding newLink_def by (intro link_inv_recalculateUsable) (simp add: Link_RecalculateCost_def)

lemma link_inv_SetState: "link_inv l \<Longrightarrow> link_inv (Link_SetState m now l)"
  unfolding Link_SetState_def by (intro link_inv_recalculateUsable) (simp add: link_inv_def)

lemma link_inv_SetDown: "link_inv l \<Longrightarrow> link_inv (Link_SetDown d l)"
  unfolding Link_SetDown_def by (intro link_inv_recalculateUsable) (simp add: link_inv_def)

lemma link_inv_SetConnsState: "link_inv l \<Longrightarrow> link_inv (Link_SetConnsState s l)"
  by (auto simp: Link_SetConnsState_def link_inv_def split: option.splits)

lemma link_inv_SetStaticCost: "link_inv l \<Longrightarrow> link_inv (Link_SetStaticCost c l)"
  unfolding Link_SetStaticCost_def by (intro link_inv_RecalculateCost) (simp add: link_inv_def)

lemma link_inv_SetSrcLatency: "link_inv l \<Longrightarrow> link_inv (Link_SetSrcLatency c l)"
  unfolding Link_SetSrcLatency_def by (intro link_inv_RecalculateCost) (simp add: link_inv_def)

lemma link_inv_SetDstLatency: "link_inv l \<Longrightarrow> link_inv (Link_SetDstLatency c l)"
  unfolding Link_SetDstLatency_def by (intro link_inv_RecalculateCost) (simp add: link_inv_def)

lemmas link_inv_ops = link_inv_SetState link_inv_SetDown link_inv_SetConnsState
  link_inv_SetStaticCost link_inv_SetSrcLatency link_inv_SetDstLatency

section \<open>What the index operations change\<close>

named_theorems net_frame \<open>fields of \<open>net\<close> an operation leaves alone\<close>

lemma upd_router_frame [simp, net_frame]:
  "links (upd_router r f n) = links n" "nextLink (upd_router r f n) = nextLink n"
  "linkTable (upd_router r f n) = linkTable n" "connected (upd_router r f n) = connected n"
  "initialLatency (upd_router r f n) = initialLatency n"
  by (simp_all add: upd_router_def)

lemma upd_link_frame [simp, net_frame]:
  "routers (upd_link l g n) = routers n" "nextLink (upd_link l g n) = nextLink n"
  "linkTable (upd_link l g n) = linkTable n" "connected (upd_link l g n) = connected n"
  "initialLatency (upd_link l g n) = initialLatency n"
  by (simp_all add: upd_link_def)

lemma index_frame [simp, net_frame]:
  "links (add_router_link r l i n) = links n" "links (remove_router_link r l i n) = links n"
  "nextLink (add_router_link r l i n) = nextLink n"
  "nextLink (remove_router_link r l i n) = nextLink n"
  "linkTable (add_router_link r l i n) = linkTable n"
  "linkTable (remove_router_link r l i n) = linkTable n"
  "connected (add_router_link r l i n) = connected n"
  "connected (remove_router_link r l i n) = connected n"
  by (simp_all add: add_router_link_def remove_router_link_def)

lemma index_router_frame [simp, net_frame]:
  "r_id (routers (add_router_link r l i n) r') = r_id (routers n r')"
  "r_id (routers (remove_router_link r l i n) r') = r_id (routers n r')"
  "r_connected (routers (add_router_link r l i n) r') = r_connected (routers n r')"
  "r_connected (routers (remove_router_link r l i n) r') = r_connected (routers n r')"
  by (simp_all add: add_router_link_def remove_router_link_def upd_router_def)

lemma allLinks_add [simp]:
  "allLinks (r_routerLinks (routers (add_router_link r l i n) r')) =
     (if r' = r then allLinks (r_routerLinks (routers n r')) @ [l]
      else allLinks (r_routerLinks (routers n r')))"
  by (simp add: add_router_link_def upd_router_def RouterLinks_Add_def)

lemma allLinks_remove [simp]:
  "allLinks (r_routerLinks (routers (remove_router_link r l i n) r')) =
     (if r' = r then filter (\<lambda>x. x \<noteq> l) (allLinks (r_routerLinks (routers n r')))
      else allLinks (r_routerLinks (routers n r')))"
  by (simp add: remove_router_link_def upd_router_def RouterLinks_Remove_def Let_def)

lemma byRouter_add [simp]:
  "GetLinksByRouter (r_routerLinks (routers (add_router_link r l i n) r')) j =
     (if r' = r \<and> j = i then l # GetLinksByRouter (r_routerLinks (routers n r')) j
      else GetLinksByRouter (r_routerLinks (routers n r')) j)"
  by (simp add: add_router_link_def upd_router_def RouterLinks_Add_def GetLinksByRouter_def)

lemma byRouter_remove [simp]:
  "GetLinksByRouter (r_routerLinks (routers (remove_router_link r l i n) r')) j =
     (if r' = r \<and> j = i
      then filter (\<lambda>x. x \<noteq> l) (GetLinksByRouter (r_routerLinks (routers n r')) j)
      else GetLinksByRouter (r_routerLinks (routers n r')) j)"
  by (auto simp: remove_router_link_def upd_router_def RouterLinks_Remove_def GetLinksByRouter_def
      Let_def split: option.splits)

lemma linkTable_remove_frame [simp, net_frame]:
  "routers (fst (linkTable_remove l n)) = routers n" "links (fst (linkTable_remove l n)) = links n"
  "nextLink (fst (linkTable_remove l n)) = nextLink n"
  "connected (fst (linkTable_remove l n)) = connected n"
  by (auto simp: linkTable_remove_def split: option.splits)

lemma LinkManager_Remove_frame [simp, net_frame]:
  "links (LinkManager_Remove l n) = links n" "nextLink (LinkManager_Remove l n) = nextLink n"
  "connected (LinkManager_Remove l n) = connected n"
  "r_id (routers (LinkManager_Remove l n) r) = r_id (routers n r)"
  "r_connected (routers (LinkManager_Remove l n) r) = r_connected (routers n r)"
  by (auto simp: LinkManager_Remove_def linkTable_remove_def Let_def split: option.splits)

lemma LinkManager_Add_frame [simp, net_frame]:
  "links (LinkManager_Add l n) = links n" "nextLink (LinkManager_Add l n) = nextLink n"
  "connected (LinkManager_Add l n) = connected n"
  "linkTable (LinkManager_Add l n) = AList.update (l_id (links n l)) l (linkTable n)"
  "r_id (routers (LinkManager_Add l n) r) = r_id (routers n r)"
  "r_connected (routers (LinkManager_Add l n) r) = r_connected (routers n r)"
  by (auto simp: LinkManager_Add_def linkTable_add_def Let_def split: option.splits)

section \<open>The link table stays consistent with the routers' indexes\<close>

lemma table_invI:
  assumes "keys_distinct (linkTable n)"
    and "\<And>i l. map_of (linkTable n) i = Some l \<Longrightarrow>
           l_id (links n l) = i \<and> l < nextLink n \<and> link_inv (links n l) \<and> indexed n l"
  shows "table_inv n"
  using assms by (auto simp: table_inv_def)

lemma table_invD:
  assumes "table_inv n" "map_of (linkTable n) i = Some l"
  shows "l_id (links n l) = i" "l < nextLink n" "link_inv (links n l)" "indexed n l"
  using assms map_of_SomeD [OF assms(2)] by (auto simp: table_inv_def)

lemma table_inv_distinct: "table_inv n \<Longrightarrow> keys_distinct (linkTable n)"
  by (simp add: table_inv_def)

lemma linkTable_Remove:
  "linkTable (LinkManager_Remove l n) =
     (case map_of (linkTable n) (l_id (links n l)) of
        None \<Rightarrow> linkTable n
      | Some v \<Rightarrow> if l_iteration (links n v) = l_iteration (links n l)
                  then AList.delete (l_id (links n l)) (linkTable n) else linkTable n)"
  by (auto simp: LinkManager_Remove_def linkTable_remove_def Let_def split: option.splits)

lemma indexed_Remove: "indexed n k \<Longrightarrow> k \<noteq> l \<Longrightarrow> indexed (LinkManager_Remove l n) k"
  by (auto simp: indexed_def LinkManager_Remove_def linkTable_remove_def Let_def
      split: option.splits)

lemma table_inv_Remove: "table_inv n \<Longrightarrow> table_inv (LinkManager_Remove l n)"
proof (rule table_invI)
  assume inv: "table_inv n"
  then show "keys_distinct (linkTable (LinkManager_Remove l n))"
    by (auto simp: linkTable_Remove keys_distinct_delete table_inv_distinct split: option.splits)
  fix i k
  assume k: "map_of (linkTable (LinkManager_Remove l n)) i = Some k"
  then have k': "map_of (linkTable n) i = Some k"
    by (auto simp: linkTable_Remove split: option.splits if_splits)
  note D = table_invD [OF inv k']
  have "k \<noteq> l \<or> LinkManager_Remove l n = n"
  proof (cases "k = l")
    case True
    with D(1) k k' show ?thesis
      by (auto simp: linkTable_Remove split: if_splits)
  qed simp
  with D show "l_id (links (LinkManager_Remove l n) k) = i \<and> k < nextLink (LinkManager_Remove l n) \<and>
      link_inv (links (LinkManager_Remove l n) k) \<and> indexed (LinkManager_Remove l n) k"
    by (auto intro: indexed_Remove)
qed

lemma removed_not_in_table:
  assumes "map_of (linkTable n) (l_id (links n l)) = Some l"
  shows "map_of (linkTable (LinkManager_Remove l n)) (l_id (links n l)) = None"
  using assms by (simp add: linkTable_Remove)

lemma table_inv_fold_Remove: "table_inv n \<Longrightarrow> table_inv (fold LinkManager_Remove ls n)"
  by (rule fold_keeps) (auto intro: table_inv_Remove)

lemma indexed_Add:
  assumes "l = k \<or> indexed n k"
  shows "indexed (LinkManager_Add l n) k"
  using assms
  by (auto simp: indexed_def LinkManager_Add_def linkTable_add_def Let_def split: option.splits)

lemma table_inv_Add:
  assumes inv: "table_inv n" and new: "l < nextLink n" "link_inv (links n l)"
  shows "table_inv (LinkManager_Add l n)"
proof (rule table_invI)
  show "keys_distinct (linkTable (LinkManager_Add l n))"
    using inv by (simp add: keys_distinct_update table_inv_distinct)
  fix i k
  assume "map_of (linkTable (LinkManager_Add l n)) i = Some k"
  then have "(i = l_id (links n l) \<and> k = l) \<or> map_of (linkTable n) i = Some k"
    by (auto split: if_splits)
  then show "l_id (links (LinkManager_Add l n) k) = i \<and> k < nextLink (LinkManager_Add l n) \<and>
      link_inv (links (LinkManager_Add l n) k) \<and> indexed (LinkManager_Add l n) k"
    using new by (auto dest: table_invD [OF inv] intro: indexed_Add)
qed

text \<open>Updating a link in place keeps the table consistent, if identity and ends stay.\<close>

definition keeps_ends :: "(link \<Rightarrow> link) \<Rightarrow> bool" where
  "keeps_ends f \<longleftrightarrow>
     (\<forall>l. l_id (f l) = l_id l \<and> l_src (f l) = l_src l \<and> l_dstId (f l) = l_dstId l \<and>
          (link_inv l \<longrightarrow> link_inv (f l)))"

lemma keeps_ends_ops [intro]:
  "keeps_ends (Link_SetState m now)" "keeps_ends (Link_SetSrcLatency c)"
  "keeps_ends (Link_SetDstLatency c)" "keeps_ends (\<lambda>x. x\<lparr>l_dst := d\<rparr>)"
  by (auto simp: keeps_ends_def link_inv_ops Link_SetState_def Link_recalculateUsable_def
      Link_SetSrcLatency_def Link_SetDstLatency_def Link_RecalculateCost_def link_inv_def)

lemma table_inv_upd_link:
  assumes inv: "table_inv n" and f: "keeps_ends f"
  shows "table_inv (upd_link l f n)"
proof (rule table_invI)
  show "keys_distinct (linkTable (upd_link l f n))"
    using inv by (simp add: table_inv_distinct)
  fix i k
  assume "map_of (linkTable (upd_link l f n)) i = Some k"
  then have "map_of (linkTable n) i = Some k" by simp
  note D = table_invD [OF inv this]
  show "l_id (links (upd_link l f n) k) = i \<and> k < nextLink (upd_link l f n) \<and>
      link_inv (links (upd_link l f n) k) \<and> indexed (upd_link l f n) k"
    using D f by (auto simp: upd_link_def indexed_def keeps_ends_def)
qed

lemma indexed_add_router_link: "indexed n k \<Longrightarrow> indexed (add_router_link r l i n) k"
  by (auto simp: indexed_def)

lemma table_inv_add_router_link: "table_inv n \<Longrightarrow> table_inv (add_router_link r l i n)"
  by (auto simp: table_inv_def indexed_add_router_link)

lemma table_inv_attach_dst: "table_inv n \<Longrightarrow> table_inv (attach_dst r l n)"
  by (auto simp: attach_dst_def intro: table_inv_upd_link table_inv_add_router_link)

lemma table_inv_BuildRouterLinks: "table_inv n \<Longrightarrow> table_inv (BuildRouterLinks r n)"
  unfolding BuildRouterLinks_def by (rule fold_keeps) (auto intro: table_inv_attach_dst)

lemma attach_dst_frame [simp, net_frame]:
  "connected (attach_dst r l n) = connected n" "linkTable (attach_dst r l n) = linkTable n"
  "r_id (routers (attach_dst r l n) q) = r_id (routers n q)"
  "r_connected (routers (attach_dst r l n) q) = r_connected (routers n q)"
  by (simp_all add: attach_dst_def)

lemma BuildRouterLinks_frame [simp, net_frame]:
  "connected (BuildRouterLinks r n) = connected n"
  "linkTable (BuildRouterLinks r n) = linkTable n"
  "r_id (routers (BuildRouterLinks r n) q) = r_id (routers n q)"
  "r_connected (routers (BuildRouterLinks r n) q) = r_connected (routers n q)"
  unfolding BuildRouterLinks_def
  by (rule fold_frame, simp)+

lemma table_inv_alloc:
  assumes inv: "table_inv n" and lk: "link_inv lk"
  shows "table_inv (n\<lparr>links := (links n)(nextLink n := lk), nextLink := Suc (nextLink n)\<rparr>)"
proof (rule table_invI)
  show "keys_distinct (linkTable (n\<lparr>links := (links n)(nextLink n := lk),
      nextLink := Suc (nextLink n)\<rparr>))"
    using inv by (simp add: table_inv_distinct)
  fix i k
  assume "map_of (linkTable (n\<lparr>links := (links n)(nextLink n := lk),
      nextLink := Suc (nextLink n)\<rparr>)) i = Some k"
  then have "map_of (linkTable n) i = Some k" by simp
  note D = table_invD [OF inv this]
  from D(2) have "k \<noteq> nextLink n" by simp
  with D show "l_id (links (n\<lparr>links := (links n)(nextLink n := lk),
        nextLink := Suc (nextLink n)\<rparr>) k) = i \<and>
      k < nextLink (n\<lparr>links := (links n)(nextLink n := lk), nextLink := Suc (nextLink n)\<rparr>) \<and>
      link_inv (links (n\<lparr>links := (links n)(nextLink n := lk), nextLink := Suc (nextLink n)\<rparr>) k) \<and>
      indexed (n\<lparr>links := (links n)(nextLink n := lk), nextLink := Suc (nextLink n)\<rparr>) k"
    by (simp add: indexed_def)
qed

lemma reported_link_inv:
  "link_inv (Link_SetConnsState c (Link_SetState Connected now
     ((newLink i p a lat now)\<lparr>l_iteration := it, l_src := src, l_dst := dst, l_dstId := di\<rparr>)))"
  using link_inv_newLink [of i p a lat now]
  by (intro link_inv_SetConnsState link_inv_SetState) (simp add: link_inv_def)

lemma table_inv_register:
  assumes "table_inv n" "link_inv lk"
  shows "table_inv (LinkManager_Add (nextLink n)
           (n\<lparr>links := (links n)(nextLink n := lk), nextLink := Suc (nextLink n)\<rparr>))"
  by (rule table_inv_Add [OF table_inv_alloc [OF assms]]) (simp_all add: assms)

lemma RouterReportedLink_stale:
  assumes "LinkManager_Get n (rl_id rep) = Some l" "rl_iteration rep \<le> l_iteration (links n l)"
  shows "RouterReportedLink rep src dst now n = (n, l, False)"
  using assms by (simp add: RouterReportedLink_def)

definition reported :: "RouterLink \<Rightarrow> router_ref \<Rightarrow> router_ref option \<Rightarrow> int \<Rightarrow> int \<Rightarrow> link" where
  "reported rep src dst lat now =
     Link_SetConnsState (rl_connState rep) (Link_SetState Connected now
       ((newLink (rl_id rep) (rl_protocol rep) (rl_dialAddress rep) lat now)
          \<lparr>l_iteration := rl_iteration rep, l_src := src, l_dst := dst,
           l_dstId := rl_destRouterId rep\<rparr>))"

lemma RouterReportedLink_fresh:
  assumes "\<And>l. LinkManager_Get n (rl_id rep) = Some l \<Longrightarrow> l_iteration (links n l) < rl_iteration rep"
  defines "m \<equiv> (case LinkManager_Get n (rl_id rep) of Some l \<Rightarrow> LinkManager_Remove l n | None \<Rightarrow> n)"
  shows "RouterReportedLink rep src dst now n =
    (LinkManager_Add (nextLink m) (m\<lparr>links := (links m)(nextLink m :=
       reported rep src dst (initialLatency m) now), nextLink := Suc (nextLink m)\<rparr>),
     nextLink m, True)"
  using assms(1)
  by (cases "LinkManager_Get n (rl_id rep)")
     (auto simp: RouterReportedLink_def reported_def m_def Let_def not_le)

lemma RouterReportedLink_cases:
  obtains (stale) l where "LinkManager_Get n (rl_id rep) = Some l"
      "rl_iteration rep \<le> l_iteration (links n l)"
    | (fresh) "\<And>l. LinkManager_Get n (rl_id rep) = Some l \<Longrightarrow> l_iteration (links n l) < rl_iteration rep"
  by (metis not_le)

lemma table_inv_RouterReportedLink:
  assumes "table_inv n"
  shows "table_inv (fst (RouterReportedLink rep src dst now n))"
proof (cases rule: RouterReportedLink_cases [of n rep])
  case (stale l)
  then show ?thesis using assms by (simp add: RouterReportedLink_stale)
next
  case fresh
  have "link_inv (reported rep src dst lat now)" for lat
    by (simp add: reported_def reported_link_inv)
  moreover have "table_inv (case LinkManager_Get n (rl_id rep) of
      Some l \<Rightarrow> LinkManager_Remove l n | None \<Rightarrow> n)"
    using assms by (auto intro: table_inv_Remove split: option.splits)
  ultimately show ?thesis
    by (simp only: RouterReportedLink_fresh [OF fresh] fst_conv table_inv_register)
qed

lemma connected_RouterReportedLink [simp, net_frame]:
  "connected (fst (RouterReportedLink rep src dst now n)) = connected n"
  "r_id (routers (fst (RouterReportedLink rep src dst now n)) r) = r_id (routers n r)"
  "r_connected (routers (fst (RouterReportedLink rep src dst now n)) r) = r_connected (routers n r)"
  by (cases rule: RouterReportedLink_cases [of n rep];
      force simp: RouterReportedLink_stale RouterReportedLink_fresh split: option.splits)+

section \<open>Connecting and disconnecting routers\<close>

lemma connected_invI:
  assumes "keys_distinct (connected n)"
    and "\<And>i r. map_of (connected n) i = Some r \<Longrightarrow> r_id (routers n r) = i \<and> r_connected (routers n r)"
  shows "connected_inv n"
  using assms by (auto simp: connected_inv_def)

lemma connected_invD:
  assumes "connected_inv n" "map_of (connected n) i = Some r"
  shows "r_id (routers n r) = i" "r_connected (routers n r)"
  using assms map_of_SomeD [OF assms(2)] by (auto simp: connected_inv_def)

lemma connected_inv_frame:
  assumes "connected_inv n" "connected m = connected n"
    and "\<And>r. r_id (routers m r) = r_id (routers n r)"
    and "\<And>r. r_connected (routers m r) = r_connected (routers n r)"
  shows "connected_inv m"
  using assms by (simp add: connected_inv_def)

lemma connected_inv_MarkConnected:
  "connected_inv n \<Longrightarrow> connected_inv (fst (MarkConnected r n))"
  by (rule connected_invI)
     (auto simp: MarkConnected_def Let_def upd_router_def keys_distinct_update connected_inv_def
       split: if_splits dest: map_of_SomeD)

lemma table_inv_router_frame:
  assumes "table_inv n" "links m = links n" "linkTable m = linkTable n" "nextLink m = nextLink n"
    and "\<And>r. r_routerLinks (routers m r) = r_routerLinks (routers n r)"
  shows "table_inv m"
  using assms by (simp add: table_inv_def indexed_def)

lemma table_inv_MarkConnected: "table_inv n \<Longrightarrow> table_inv (fst (MarkConnected r n))"
  by (erule table_inv_router_frame) (auto simp: MarkConnected_def Let_def upd_router_def)

lemma connected_inv_MarkDisconnected:
  assumes "connected_inv n"
  shows "connected_inv (MarkDisconnected r n)"
proof (rule connected_invI)
  show "keys_distinct (connected (MarkDisconnected r n))"
    using assms
    by (auto simp: MarkDisconnected_def Let_def upd_router_def connected_inv_def keys_distinct_delete)
  fix i q
  assume q: "map_of (connected (MarkDisconnected r n)) i = Some q"
  then have q': "map_of (connected n) i = Some q"
    by (auto simp: MarkDisconnected_def Let_def upd_router_def split: if_splits)
  note D = connected_invD [OF assms q']
  have "q \<noteq> r"
    using q q' D by (auto simp: MarkDisconnected_def Let_def upd_router_def split: if_splits)
  with D show "r_id (routers (MarkDisconnected r n) q) = i \<and>
      r_connected (routers (MarkDisconnected r n) q)"
    by (simp add: MarkDisconnected_def Let_def upd_router_def)
qed

text \<open>
  Disconnecting a router first removes every link it is the source of, so that clearing its
  index leaves no link of the table unindexed.
\<close>

lemma disconnect_link_simp:
  "disconnect_link r l (n, es) =
     (if r_id (routers n (l_src (links n l))) = r_id (routers n r) then LinkManager_Remove l n else n,
      if l_mode (links n l) = Connected then es @ [RerouteLink l] else es)"
  by (simp add: disconnect_link_def Let_def)

lemma disconnect_links_frame:
  "links (fst (fold (disconnect_link r) ls (n, es))) = links n \<and>
   nextLink (fst (fold (disconnect_link r) ls (n, es))) = nextLink n \<and>
   connected (fst (fold (disconnect_link r) ls (n, es))) = connected n \<and>
   r_id (routers (fst (fold (disconnect_link r) ls (n, es))) q) = r_id (routers n q) \<and>
   r_connected (routers (fst (fold (disconnect_link r) ls (n, es))) q) = r_connected (routers n q)"
  by (induction ls arbitrary: n es) (simp_all add: disconnect_link_simp)

lemma table_inv_disconnect_links:
  "table_inv n \<Longrightarrow> table_inv (fst (fold (disconnect_link r) ls (n, es)))"
  by (induction ls arbitrary: n es) (simp_all add: disconnect_link_simp table_inv_Remove)

lemma Remove_shrinks:
  "map_of (linkTable (LinkManager_Remove l n)) i = Some k \<Longrightarrow> map_of (linkTable n) i = Some k"
  by (auto simp: linkTable_Remove split: option.splits if_splits)

lemma disconnect_links_shrinks:
  "map_of (linkTable (fst (fold (disconnect_link r) ls (n, es)))) i = Some k \<Longrightarrow>
   map_of (linkTable n) i = Some k"
proof (induction ls arbitrary: n es)
  case (Cons l ls)
  then have "map_of (linkTable (fst (disconnect_link r l (n, es)))) i = Some k"
    by (cases "disconnect_link r l (n, es)") simp
  then show ?case
    by (auto simp: disconnect_link_simp split: if_splits intro: Remove_shrinks)
qed simp

lemma disconnect_links_removed:
  assumes "table_inv n" "k \<in> set ls" "r_id (routers n (l_src (links n k))) = r_id (routers n r)"
  shows "map_of (linkTable (fst (fold (disconnect_link r) ls (n, es)))) i \<noteq> Some k"
  using assms
proof (induction ls arbitrary: n es)
  case (Cons l ls)
  show ?case
  proof (cases "k = l")
    case True
    have "map_of (linkTable (LinkManager_Remove k n)) i \<noteq> Some k"
    proof
      assume k: "map_of (linkTable (LinkManager_Remove k n)) i = Some k"
      from table_invD(1) [OF Cons.prems(1) Remove_shrinks [OF k]] Remove_shrinks [OF k] k
      show False by (auto simp: removed_not_in_table)
    qed
    with True Cons.prems(3) show ?thesis
      by (auto simp: disconnect_link_simp dest: disconnect_links_shrinks)
  next
    case False
    with Cons.prems have "k \<in> set ls" by simp
    then have "map_of (linkTable (fst (fold (disconnect_link r) ls (m, es')))) i \<noteq> Some k"
      if "m = n \<or> m = LinkManager_Remove l n" for m es'
      using that Cons.prems by (intro Cons.IH) (auto intro: table_inv_Remove)
    then show ?thesis by (simp add: disconnect_link_simp)
  qed
qed simp

lemma no_source_links_after_disconnect:
  assumes inv: "table_inv n"
    and k: "map_of (linkTable (fst (fold (disconnect_link r)
              (allLinks (r_routerLinks (routers n r))) (n, [])))) i = Some k"
  shows "l_src (links n k) \<noteq> r"
proof
  assume src: "l_src (links n k) = r"
  have "map_of (linkTable n) i = Some k"
    using k by (rule disconnect_links_shrinks)
  then have "indexed n k" by (rule table_invD(4) [OF inv])
  with src have "k \<in> set (allLinks (r_routerLinks (routers n r)))"
    by (simp add: indexed_def)
  from disconnect_links_removed [OF inv this] src k show False by simp
qed

lemma table_inv_MarkDisconnected:
  assumes "table_inv n" and "\<And>i k. map_of (linkTable n) i = Some k \<Longrightarrow> l_src (links n k) \<noteq> r"
  shows "table_inv (MarkDisconnected r n)"
proof (rule table_invI)
  show "keys_distinct (linkTable (MarkDisconnected r n))"
    using assms(1) by (simp add: MarkDisconnected_def Let_def upd_router_def table_inv_distinct)
  fix i k
  assume "map_of (linkTable (MarkDisconnected r n)) i = Some k"
  then have k: "map_of (linkTable n) i = Some k"
    by (simp add: MarkDisconnected_def Let_def upd_router_def split: if_splits)
  note D = table_invD [OF assms(1) k] and ne = assms(2) [OF k]
  from D ne show "l_id (links (MarkDisconnected r n) k) = i \<and> k < nextLink (MarkDisconnected r n) \<and>
      link_inv (links (MarkDisconnected r n) k) \<and> indexed (MarkDisconnected r n) k"
    by (simp add: MarkDisconnected_def Let_def upd_router_def indexed_def)
qed

lemma DisconnectRouter_fst:
  "fst (DisconnectRouter r n) =
     MarkDisconnected r (fst (fold (disconnect_link r) (allLinks (r_routerLinks (routers n r))) (n, [])))"
  by (simp add: DisconnectRouter_def Let_def split: prod.splits)

lemma net_inv_DisconnectRouter:
  assumes "net_inv n"
  shows "net_inv (fst (DisconnectRouter r n))"
proof -
  let ?m = "fst (fold (disconnect_link r) (allLinks (r_routerLinks (routers n r))) (n, []))"
  have t: "table_inv n" and c: "connected_inv n"
    using assms by (simp_all add: net_inv_def)
  have "table_inv (MarkDisconnected r ?m)"
    using table_inv_disconnect_links [OF t] no_source_links_after_disconnect [OF t]
    by (intro table_inv_MarkDisconnected) (simp_all add: disconnect_links_frame)
  moreover have "connected_inv ?m"
    by (rule connected_inv_frame [OF c]) (simp_all add: disconnect_links_frame)
  ultimately show ?thesis
    by (simp add: net_inv_def DisconnectRouter_fst connected_inv_MarkDisconnected)
qed

text \<open>The other handlers.\<close>

lemma net_invI: "table_inv n \<Longrightarrow> connected_inv n \<Longrightarrow> net_inv n"
  by (simp add: net_inv_def)

lemma net_inv_Remove: "net_inv n \<Longrightarrow> net_inv (LinkManager_Remove l n)"
  by (auto simp: net_inv_def intro: table_inv_Remove connected_inv_frame)

lemma net_inv_fold_Remove: "net_inv n \<Longrightarrow> net_inv (fold LinkManager_Remove ls n)"
  by (rule fold_keeps) (auto intro: net_inv_Remove)

lemma net_inv_upd_link: "net_inv n \<Longrightarrow> keeps_ends f \<Longrightarrow> net_inv (upd_link l f n)"
  by (auto simp: net_inv_def intro: table_inv_upd_link connected_inv_frame)

lemma ConnectRouter_fst: "fst (ConnectRouter r n) = fst (MarkConnected r (BuildRouterLinks r n))"
  by (simp add: ConnectRouter_def split: prod.splits)

lemma net_inv_ConnectRouter:
  assumes "net_inv n"
  shows "net_inv (fst (ConnectRouter r n))"
proof -
  have "table_inv (BuildRouterLinks r n)"
    using assms by (simp add: net_inv_def table_inv_BuildRouterLinks)
  moreover have "connected_inv (BuildRouterLinks r n)"
    using assms by (auto simp: net_inv_def intro: connected_inv_frame)
  ultimately show ?thesis
    by (simp add: ConnectRouter_fst net_inv_def table_inv_MarkConnected connected_inv_MarkConnected)
qed

lemma net_inv_RouterReportedLink:
  "net_inv n \<Longrightarrow> net_inv (fst (RouterReportedLink rep src dst now n))"
  by (auto simp: net_inv_def table_inv_RouterReportedLink intro: connected_inv_frame)

lemma NotifyExistingLink_fst:
  "fst (NotifyExistingLink q rep now n) =
     (if GetConnected n (r_id (routers n q)) = Some q \<and> r_connected (routers n q)
      then fst (RouterReportedLink rep q (GetConnected n (rl_destRouterId rep)) now n) else n)"
  by (auto simp: NotifyExistingLink_def Let_def split: option.splits prod.splits)

lemma net_inv_NotifyExistingLink: "net_inv n \<Longrightarrow> net_inv (fst (NotifyExistingLink q rep now n))"
  by (simp add: NotifyExistingLink_fst net_inv_RouterReportedLink)

lemma net_inv_LinkFaulted: "net_inv n \<Longrightarrow> net_inv (fst (LinkFaulted l dupe now n))"
  by (simp add: LinkFaulted_def Let_def net_inv_Remove net_inv_upd_link keeps_ends_ops)

lemma net_inv_RemoveLink: "net_inv n \<Longrightarrow> net_inv (fst (RemoveLink i n))"
  by (simp add: RemoveLink_def Let_def net_inv_Remove split: option.splits)

lemma net_inv_ScanForDeadLinks: "net_inv n \<Longrightarrow> net_inv (ScanForDeadLinks n)"
  by (simp add: ScanForDeadLinks_def net_inv_fold_Remove)

lemma net_inv_network_clean: "net_inv n \<Longrightarrow> net_inv (network_clean now n)"
  by (simp add: network_clean_def net_inv_fold_Remove)

lemma net_inv_metrics_link: "net_inv n \<Longrightarrow> net_inv (metrics_link lat que rid l n)"
  by (simp add: metrics_link_def Let_def net_inv_upd_link keeps_ends_ops split: option.splits)

lemma net_inv_AcceptMetricsMsg: "net_inv n \<Longrightarrow> net_inv (AcceptMetricsMsg me known lat que i n)"
  by (auto simp: AcceptMetricsMsg_def split: option.splits
      intro!: fold_keeps [where P = net_inv] net_inv_metrics_link)

lemmas net_inv_handlers = net_inv_ConnectRouter net_inv_DisconnectRouter
  net_inv_NotifyExistingLink net_inv_LinkFaulted net_inv_RemoveLink net_inv_ScanForDeadLinks
  net_inv_network_clean net_inv_AcceptMetricsMsg

section \<open>Look-ups\<close>

lemma LeastExpensiveLink_Some:
  assumes "LeastExpensiveLink n a b = Some l"
  shows "l \<in> set (GetLinksByRouter (r_routerLinks (routers n a)) (r_id (routers n b)))"
    and "joins_router n (r_id (routers n b)) l" and "l_cost (links n l) < MaxInt64"
  using scan_less_cases [OF assms [unfolded LeastExpensiveLink_def]] by auto

lemma LeastExpensiveLink_least:
  assumes "LeastExpensiveLink n a b = Some l"
    and "k \<in> set (GetLinksByRouter (r_routerLinks (routers n a)) (r_id (routers n b)))"
    and "joins_router n (r_id (routers n b)) k"
  shows "l_cost (links n l) \<le> l_cost (links n k)"
  using scan_less_cases [OF assms(1) [unfolded LeastExpensiveLink_def]] assms(2,3) by auto

lemma LeastExpensiveLink_None:
  "LeastExpensiveLink n a b = None \<longleftrightarrow>
     (\<forall>k \<in> set (GetLinksByRouter (r_routerLinks (routers n a)) (r_id (routers n b))).
        joins_router n (r_id (routers n b)) k \<longrightarrow> MaxInt64 \<le> l_cost (links n k))"
  by (auto simp: LeastExpensiveLink_def scan_less_None)

text \<open>The neighbours a router's usable links lead to, and the link each of them comes from.\<close>

definition leads_to :: "net \<Rightarrow> router_ref \<Rightarrow> link_ref \<Rightarrow> router_ref \<Rightarrow> bool" where
  "leads_to n r l q \<longleftrightarrow>
     l_usable (links n l) \<and>
     (case l_dst (links n l) of
        None \<Rightarrow> False
      | Some d \<Rightarrow> r_connected (routers n d) \<and>
          (q = l_src (links n l) \<and> r_id (routers n q) \<noteq> r_id (routers n r) \<or>
           q = d \<and> l_dstId (links n l) \<noteq> r_id (routers n r)))"

lemma neighbor_step_sound:
  assumes "(i, q) \<in> set (neighbor_step n r l m)"
  shows "(i, q) \<in> set m \<or> leads_to n r l q"
  using assms
  by (auto simp: neighbor_step_def leads_to_def Let_def split: option.splits if_splits
      dest!: set_alist_update)

lemma neighbor_fold_sound:
  "(i, q) \<in> set (fold (neighbor_step n r) ls m) \<Longrightarrow>
   (i, q) \<in> set m \<or> (\<exists>l \<in> set ls. leads_to n r l q)"
  by (induction ls arbitrary: m) (auto dest: neighbor_step_sound)

lemma neighbors_sound:
  assumes "q \<in> set (ConnectedNeighborsOfRouter ord n r)"
  obtains l where "l \<in> set (allLinks (r_routerLinks (routers n r)))" "leads_to n r l q"
  using assms
  by (auto simp: ConnectedNeighborsOfRouter_def neighbor_map_def dest!: neighbor_fold_sound)

end
