(* ===== verification/Link_Index.thy ===== *)
theory Link_Index
  imports Links
begin

text \<open>
  The invariant of the controller's link state over every sequence of handler calls: besides
  the consistency of the link table (theory Links) the two indexes each router object keeps,
  \<open>allLinks\<close> and \<open>linkByRouter\<close>, agree with each other, with the ends of the links they hold,
  and, for the routers that are connected, with the link table. This is what the path
  calculation relies on: a neighbour it is told about is one it finds a link to.
\<close>

section \<open>The invariant\<close>

abbreviation allOf :: "net \<Rightarrow> router_ref \<Rightarrow> link_ref set" where
  "allOf n r \<equiv> set (allLinks (r_routerLinks (routers n r)))"

abbreviation byOf :: "net \<Rightarrow> router_ref \<Rightarrow> string \<Rightarrow> link_ref set" where
  "byOf n r i \<equiv> set (GetLinksByRouter (r_routerLinks (routers n r)) i)"

abbreviation srcId :: "net \<Rightarrow> link_ref \<Rightarrow> string" where
  "srcId n l \<equiv> r_id (routers n (l_src (links n l)))"

text \<open>The key a router's index has for a link: the id of the router at the other end.\<close>

definition key_ok :: "net \<Rightarrow> router_ref \<Rightarrow> string \<Rightarrow> link_ref \<Rightarrow> bool" where
  "key_ok n r i l \<longleftrightarrow>
     (r = l_src (links n l) \<and> i = l_dstId (links n l)) \<or>
     (r_id (routers n r) = l_dstId (links n l) \<and> i = srcId n l)"

definition ends_inv :: "net \<Rightarrow> bool" where
  "ends_inv n \<longleftrightarrow>
     (\<forall>l < nextLink n. srcId n l \<noteq> l_dstId (links n l) \<and>
        (\<forall>d. l_dst (links n l) = Some d \<longrightarrow> r_id (routers n d) = l_dstId (links n l)))"

definition key_inv :: "net \<Rightarrow> bool" where
  "key_inv n \<longleftrightarrow>
     (\<forall>r l. l \<in> allOf n r \<longleftrightarrow> (\<exists>i. l \<in> byOf n r i)) \<and>
     (\<forall>r i l. l \<in> byOf n r i \<longrightarrow> l < nextLink n \<and> key_ok n r i l)"

text \<open>A link of the table whose destination is connected is indexed there.\<close>

definition dst_inv :: "net \<Rightarrow> bool" where
  "dst_inv n \<longleftrightarrow>
     (\<forall>i l d. map_of (linkTable n) i = Some l \<longrightarrow> l_dst (links n l) = Some d \<longrightarrow>
        r_connected (routers n d) \<longrightarrow> l \<in> byOf n d (srcId n l))"

text \<open>Nothing stale is indexed, at the source of a link and at the connected routers.\<close>

definition live_inv :: "net \<Rightarrow> bool" where
  "live_inv n \<longleftrightarrow>
     (\<forall>r l. l \<in> allOf n r \<longrightarrow> r = l_src (links n l) \<or> r \<in> ran (map_of (connected n)) \<longrightarrow>
        map_of (linkTable n) (l_id (links n l)) = Some l \<and>
        (r = l_src (links n l) \<or> l_dst (links n l) = Some r))"

text \<open>A link of the table that leads to a connected router points at its current object.\<close>

definition target_inv :: "net \<Rightarrow> bool" where
  "target_inv n \<longleftrightarrow>
     (\<forall>i l u. map_of (linkTable n) i = Some l \<longrightarrow> map_of (connected n) (l_dstId (links n l)) = Some u \<longrightarrow>
        l_dst (links n l) = Some u)"

text \<open>What every history of handler calls keeps, and what more holds unless a replaced link is removed.\<close>

definition base_inv :: "net \<Rightarrow> bool" where
  "base_inv n \<longleftrightarrow> net_inv n \<and> ends_inv n \<and> key_inv n \<and> dst_inv n \<and> target_inv n"

definition index_inv :: "net \<Rightarrow> bool" where
  "index_inv n \<longleftrightarrow>
     net_inv n \<and> ends_inv n \<and> key_inv n \<and> dst_inv n \<and> live_inv n \<and> target_inv n"

lemma index_inv_base: "index_inv n \<longleftrightarrow> base_inv n \<and> live_inv n"
  by (auto simp: index_inv_def base_inv_def)

section \<open>Removing a link\<close>

definition removes :: "net \<Rightarrow> link_ref \<Rightarrow> bool" where
  "removes n l \<longleftrightarrow>
     (\<exists>v. map_of (linkTable n) (l_id (links n l)) = Some v \<and>
          l_iteration (links n v) = l_iteration (links n l))"

lemma not_removes: "\<not> removes n l \<Longrightarrow> LinkManager_Remove l n = n"
  by (auto simp: removes_def LinkManager_Remove_def linkTable_remove_def Let_def
      split: option.splits if_splits)

lemma table_Remove:
  "map_of (linkTable (LinkManager_Remove l n)) =
     (if removes n l then (map_of (linkTable n))(l_id (links n l) := None) else map_of (linkTable n))"
  by (auto simp: linkTable_Remove removes_def split: option.splits)

lemma allOf_Remove:
  "allOf (LinkManager_Remove l n) r =
     (if removes n l \<and> (r = l_src (links n l) \<or> l_dst (links n l) = Some r)
      then allOf n r - {l} else allOf n r)"
  by (auto simp: removes_def LinkManager_Remove_def linkTable_remove_def Let_def
      split: option.splits if_splits)

lemma byOf_Remove:
  "byOf (LinkManager_Remove l n) r i =
     (if removes n l \<and> (r = l_src (links n l) \<and> i = l_dstId (links n l) \<or>
         l_dst (links n l) = Some r \<and> i = srcId n l)
      then byOf n r i - {l} else byOf n r i)"
  by (auto simp: removes_def LinkManager_Remove_def linkTable_remove_def Let_def
      split: option.splits if_splits)

lemma other_Remove:
  assumes "k \<noteq> l"
  shows "k \<in> allOf (LinkManager_Remove l n) r \<longleftrightarrow> k \<in> allOf n r"
    and "k \<in> byOf (LinkManager_Remove l n) r i \<longleftrightarrow> k \<in> byOf n r i"
  using assms by (simp_all add: allOf_Remove byOf_Remove)

text \<open>The links the handlers remove are the table's, or have no entry left.\<close>

definition current :: "net \<Rightarrow> link_ref \<Rightarrow> bool" where
  "current n l \<longleftrightarrow> l < nextLink n \<and> map_of (linkTable n) (l_id (links n l)) \<in> {None, Some l}"

lemma current_Remove: "current n k \<Longrightarrow> current (LinkManager_Remove l n) k"
  by (auto simp: current_def table_Remove)

lemma current_table: "net_inv n \<Longrightarrow> map_of (linkTable n) i = Some l \<Longrightarrow> current n l"
  by (auto simp: current_def net_inv_def dest: table_invD(1,2))

lemma ends_inv_Remove: "ends_inv n \<Longrightarrow> ends_inv (LinkManager_Remove l n)"
  by (simp add: ends_inv_def)

lemma key_inv_Remove:
  assumes "ends_inv n" "key_inv n" "l < nextLink n"
  shows "key_inv (LinkManager_Remove l n)"
proof (cases "removes n l")
  case True
  have ends: "srcId n l \<noteq> l_dstId (links n l)"
    "\<And>d. l_dst (links n l) = Some d \<Longrightarrow> r_id (routers n d) = l_dstId (links n l)"
    using assms(1,3) by (auto simp: ends_inv_def)
  have keys: "l \<in> byOf n r i \<Longrightarrow> key_ok n r i l" and all: "k \<in> allOf n r \<longleftrightarrow> (\<exists>i. k \<in> byOf n r i)"
    for r i k
    using assms(2) by (auto simp: key_inv_def)
  have "l \<in> allOf (LinkManager_Remove l n) r \<longleftrightarrow> (\<exists>i. l \<in> byOf (LinkManager_Remove l n) r i)" for r
    using True all keys [of r] ends by (auto simp: allOf_Remove byOf_Remove key_ok_def)
  then have "k \<in> allOf (LinkManager_Remove l n) r \<longleftrightarrow> (\<exists>i. k \<in> byOf (LinkManager_Remove l n) r i)"
    for k r
    by (cases "k = l") (simp_all add: other_Remove all)
  moreover have "k \<in> byOf (LinkManager_Remove l n) r i \<Longrightarrow> k < nextLink n \<and> key_ok n r i k" for k r i
    using assms(2) by (auto simp: key_inv_def byOf_Remove split: if_splits)
  ultimately show ?thesis
    by (simp add: key_inv_def key_ok_def)
qed (use assms in \<open>simp add: not_removes\<close>)

lemma dst_inv_Remove:
  assumes "net_inv n" "dst_inv n"
  shows "dst_inv (LinkManager_Remove l n)"
proof -
  have "k \<noteq> l \<or> \<not> removes n l" if "map_of (linkTable (LinkManager_Remove l n)) i = Some k" for i k
    using that assms(1) by (auto simp: table_Remove net_inv_def dest: table_invD(1) split: if_splits)
  then show ?thesis
    using assms(2) unfolding dst_inv_def
    by (metis LinkManager_Remove_frame(1,4,5) Remove_shrinks not_removes other_Remove(2))
qed

lemma live_inv_Remove:
  assumes "live_inv n" "key_inv n" "current n l"
  shows "live_inv (LinkManager_Remove l n)"
proof (cases "removes n l")
  case True
  with assms(3) have l: "map_of (linkTable n) (l_id (links n l)) = Some l"
    by (auto simp: current_def removes_def)
  have "map_of (linkTable (LinkManager_Remove l n)) (l_id (links n k)) = Some k \<and>
      (r = l_src (links n k) \<or> l_dst (links n k) = Some r)"
    if k: "k \<in> allOf (LinkManager_Remove l n) r"
      and r: "r = l_src (links n k) \<or> r \<in> ran (map_of (connected n))" for r k
  proof -
    from k have "k \<in> allOf n r" by (auto simp: allOf_Remove split: if_splits)
    with r assms(1) have live: "map_of (linkTable n) (l_id (links n k)) = Some k"
      "r = l_src (links n k) \<or> l_dst (links n k) = Some r"
      by (auto simp: live_inv_def)
    with k True have "k \<noteq> l" by (auto simp: allOf_Remove)
    with live l show ?thesis by (auto simp: table_Remove)
  qed
  then show ?thesis by (simp add: live_inv_def)
qed (use assms in \<open>simp add: not_removes\<close>)

lemma target_inv_Remove: "target_inv n \<Longrightarrow> target_inv (LinkManager_Remove l n)"
  unfolding target_inv_def by (metis LinkManager_Remove_frame(1,3) Remove_shrinks)

lemma base_inv_Remove: "base_inv n \<Longrightarrow> l < nextLink n \<Longrightarrow> base_inv (LinkManager_Remove l n)"
  by (simp add: base_inv_def net_inv_Remove ends_inv_Remove key_inv_Remove dst_inv_Remove target_inv_Remove)

lemma base_inv_fold_Remove:
  "base_inv n \<Longrightarrow> (\<And>l. l \<in> set ls \<Longrightarrow> l < nextLink n) \<Longrightarrow> base_inv (fold LinkManager_Remove ls n)"
  by (induction ls arbitrary: n) (simp_all add: base_inv_Remove)

lemma index_inv_Remove: "index_inv n \<Longrightarrow> current n l \<Longrightarrow> index_inv (LinkManager_Remove l n)"
  by (simp add: index_inv_def net_inv_Remove ends_inv_Remove key_inv_Remove dst_inv_Remove
      live_inv_Remove target_inv_Remove current_def [of n l])

lemma index_inv_fold_Remove:
  "index_inv n \<Longrightarrow> (\<And>l. l \<in> set ls \<Longrightarrow> current n l) \<Longrightarrow> index_inv (fold LinkManager_Remove ls n)"
  by (induction ls arbitrary: n) (auto intro: index_inv_Remove current_Remove)

section \<open>Updating a link in place\<close>

lemma inv_upd_link:
  assumes "keeps_ends f" "\<And>x. l_dst (f x) = l_dst x"
  shows "base_inv n \<Longrightarrow> base_inv (upd_link l f n)" "live_inv n \<Longrightarrow> live_inv (upd_link l f n)"
proof -
  have same: "l_id (links (upd_link l f n) k) = l_id (links n k)"
    "l_src (links (upd_link l f n) k) = l_src (links n k)"
    "l_dstId (links (upd_link l f n) k) = l_dstId (links n k)"
    "l_dst (links (upd_link l f n) k) = l_dst (links n k)" for k
    using assms by (auto simp: keeps_ends_def upd_link_def)
  then show "base_inv n \<Longrightarrow> base_inv (upd_link l f n)" "live_inv n \<Longrightarrow> live_inv (upd_link l f n)"
    using assms(1)
    by (simp_all add: base_inv_def net_inv_upd_link ends_inv_def key_inv_def key_ok_def dst_inv_def
        live_inv_def target_inv_def)
qed

lemma index_inv_upd_link:
  "index_inv n \<Longrightarrow> keeps_ends f \<Longrightarrow> (\<And>x. l_dst (f x) = l_dst x) \<Longrightarrow> index_inv (upd_link l f n)"
  by (simp add: index_inv_base inv_upd_link)

section \<open>Registering a link\<close>

definition register :: "link \<Rightarrow> net \<Rightarrow> net" where
  "register lk n = LinkManager_Add (nextLink n)
     (n\<lparr>links := (links n)(nextLink n := lk), nextLink := Suc (nextLink n)\<rparr>)"

lemma register_frame [simp]:
  "links (register lk n) = (links n)(nextLink n := lk)" "nextLink (register lk n) = Suc (nextLink n)"
  "connected (register lk n) = connected n" "r_id (routers (register lk n) r) = r_id (routers n r)"
  "r_connected (routers (register lk n) r) = r_connected (routers n r)"
  "map_of (linkTable (register lk n)) = (map_of (linkTable n))(l_id lk \<mapsto> nextLink n)"
  by (simp_all add: register_def)

lemma allOf_register:
  "allOf (register lk n) r =
     allOf n r \<union> (if r = l_src lk \<or> l_dst lk = Some r then {nextLink n} else {})"
  by (auto simp: register_def LinkManager_Add_def linkTable_add_def Let_def split: option.splits)

lemma byOf_register:
  "byOf (register lk n) r i =
     byOf n r i \<union> (if r = l_src lk \<and> i = l_dstId lk \<or>
                      l_dst lk = Some r \<and> i = r_id (routers n (l_src lk)) then {nextLink n} else {})"
  by (auto simp: register_def LinkManager_Add_def linkTable_add_def Let_def split: option.splits)

lemma net_inv_register: "net_inv n \<Longrightarrow> link_inv lk \<Longrightarrow> net_inv (register lk n)"
  unfolding net_inv_def register_def
  by (auto intro: table_inv_register connected_inv_frame)

lemma table_range: "net_inv n \<Longrightarrow> map_of (linkTable n) i = Some l \<Longrightarrow> l < nextLink n \<and> l_id (links n l) = i"
  by (auto simp: net_inv_def dest: table_invD(1,2))

lemma other_register:
  assumes "k \<noteq> nextLink n"
  shows "k \<in> allOf (register lk n) r \<longleftrightarrow> k \<in> allOf n r"
    and "k \<in> byOf (register lk n) r i \<longleftrightarrow> k \<in> byOf n r i"
  using assms by (simp_all add: allOf_register byOf_register)

lemma key_inv_register:
  assumes inv: "key_inv n" and dst: "\<And>d. l_dst lk = Some d \<Longrightarrow> r_id (routers n d) = l_dstId lk"
  shows "key_inv (register lk n)"
proof -
  have known: "l \<in> byOf n r i \<Longrightarrow> l < nextLink n" and old: "l \<in> byOf n r i \<Longrightarrow> key_ok n r i l"
    and all: "l \<in> allOf n r \<longleftrightarrow> (\<exists>i. l \<in> byOf n r i)" for l r i
    using inv by (auto simp: key_inv_def)
  then have fresh: "nextLink n \<notin> byOf n r i" for r i
    by (meson less_irrefl)
  have "l \<in> allOf (register lk n) r \<longleftrightarrow> (\<exists>i. l \<in> byOf (register lk n) r i)" for l r
  proof (cases "l = nextLink n")
    case True
    then show ?thesis using fresh all by (auto simp: byOf_register allOf_register)
  qed (simp add: other_register all)
  moreover have "l < Suc (nextLink n) \<and> key_ok (register lk n) r i l"
    if "l \<in> byOf (register lk n) r i" for l r i
  proof (cases "l = nextLink n")
    case True
    then show ?thesis
      using that fresh dst by (auto simp: byOf_register key_ok_def split: if_splits)
  next
    case False
    then show ?thesis
      using that known [of l r i] old [of l r i] by (simp add: other_register key_ok_def)
  qed
  ultimately show ?thesis
    by (simp add: key_inv_def)
qed

lemma base_inv_register:
  assumes inv: "base_inv n" and lk: "link_inv lk" "map_of (linkTable n) (l_id lk) = None"
    "r_id (routers n (l_src lk)) \<noteq> l_dstId lk" "l_dst lk = GetConnected n (l_dstId lk)"
  shows "base_inv (register lk n)"
  unfolding base_inv_def
proof (intro conjI)
  have dst: "r_id (routers n d) = l_dstId lk" if "l_dst lk = Some d" for d
    using that lk(4) inv
    by (auto simp: base_inv_def net_inv_def GetConnected_def dest: connected_invD(1))
  note range = table_range [of n]
  show "net_inv (register lk n)"
    using inv lk by (simp add: base_inv_def net_inv_register)
  show "ends_inv (register lk n)"
    using inv lk(3) dst by (auto simp: base_inv_def ends_inv_def less_Suc_eq)
  have "key_inv n" using inv by (simp add: base_inv_def)
  then show "key_inv (register lk n)" by (rule key_inv_register) (rule dst)
  have "dst_inv n" using inv by (simp add: base_inv_def)
  then show "dst_inv (register lk n)"
    using range inv by (fastforce simp: dst_inv_def byOf_register base_inv_def)
  have "target_inv n" using inv by (simp add: base_inv_def)
  then show "target_inv (register lk n)"
    using range inv lk(4) by (fastforce simp: target_inv_def GetConnected_def base_inv_def)
qed

lemma live_inv_register:
  assumes inv: "key_inv n" "live_inv n" and lk: "map_of (linkTable n) (l_id lk) = None"
  shows "live_inv (register lk n)"
proof -
  have "l \<in> allOf n r \<Longrightarrow> l < nextLink n" for l r
    using inv(1) by (auto simp: key_inv_def)
  then have "nextLink n \<notin> allOf n r" for r by (meson less_irrefl)
  with inv(2) lk show ?thesis by (fastforce simp: live_inv_def allOf_register)
qed

lemma RouterReportedLink_register:
  assumes "\<And>l. LinkManager_Get n (rl_id rep) = Some l \<Longrightarrow> l_iteration (links n l) < rl_iteration rep"
  shows "\<exists>lat. fst (RouterReportedLink rep src dst now n) =
    register (reported rep src dst lat now)
      (case LinkManager_Get n (rl_id rep) of Some l \<Rightarrow> LinkManager_Remove l n | None \<Rightarrow> n)"
  by (simp only: RouterReportedLink_fresh [OF assms] register_def fst_conv) blast

lemma reported_fields [simp]:
  "l_id (reported rep src dst lat now) = rl_id rep" "l_src (reported rep src dst lat now) = src"
  "l_dst (reported rep src dst lat now) = dst" "l_dstId (reported rep src dst lat now) = rl_destRouterId rep"
  "l_iteration (reported rep src dst lat now) = rl_iteration rep"
  by (auto simp: reported_def Link_SetConnsState_def Link_SetState_def Link_recalculateUsable_def
      newLink_def Link_RecalculateCost_def split: option.splits)

lemma inv_RouterReportedLink:
  assumes inv: "base_inv n" and ends: "r_id (routers n src) \<noteq> rl_destRouterId rep"
    "dst = GetConnected n (rl_destRouterId rep)"
  shows "base_inv (fst (RouterReportedLink rep src dst now n)) \<and>
    (live_inv n \<longrightarrow> live_inv (fst (RouterReportedLink rep src dst now n)))"
proof (cases rule: RouterReportedLink_cases [of n rep])
  case (stale l)
  then show ?thesis using inv by (simp add: RouterReportedLink_stale)
next
  case fresh
  let ?m = "case LinkManager_Get n (rl_id rep) of Some l \<Rightarrow> LinkManager_Remove l n | None \<Rightarrow> n"
  from RouterReportedLink_register [OF fresh] obtain lat where
    eq: "fst (RouterReportedLink rep src dst now n) = register (reported rep src dst lat now) ?m"
    by blast
  have net: "net_inv n" using inv by (simp add: base_inv_def)
  have base: "base_inv ?m"
    using inv table_range [OF net] by (auto simp: LinkManager_Get_def intro: base_inv_Remove split: option.split)
  have live: "live_inv ?m" if "live_inv n"
    using inv net that by (auto simp: LinkManager_Get_def current_table base_inv_def intro: live_inv_Remove split: option.split)
  have gone: "map_of (linkTable ?m) (rl_id rep) = None"
    using table_range [OF net]
    by (auto simp: LinkManager_Get_def table_Remove removes_def split: option.splits)
  moreover have "r_id (routers ?m r) = r_id (routers n r)" "connected ?m = connected n" for r
    by (simp_all split: option.split)
  moreover have "link_inv (reported rep src dst lat now)"
    by (simp add: reported_def reported_link_inv)
  ultimately have "base_inv (register (reported rep src dst lat now) ?m)"
    using ends base by (intro base_inv_register) (auto simp: GetConnected_def)
  moreover have "live_inv (register (reported rep src dst lat now) ?m)" if "live_inv n"
    using base live [OF that] gone by (intro live_inv_register) (auto simp: base_inv_def)
  ultimately show ?thesis unfolding eq by blast
qed

lemma base_inv_NotifyExistingLink:
  "base_inv n \<Longrightarrow> r_id (routers n q) \<noteq> rl_destRouterId rep \<Longrightarrow> base_inv (fst (NotifyExistingLink q rep now n))"
  by (simp add: NotifyExistingLink_fst inv_RouterReportedLink)

lemma index_inv_NotifyExistingLink:
  "index_inv n \<Longrightarrow> r_id (routers n q) \<noteq> rl_destRouterId rep \<Longrightarrow> index_inv (fst (NotifyExistingLink q rep now n))"
  by (simp add: NotifyExistingLink_fst index_inv_base inv_RouterReportedLink)

section \<open>Connecting a router\<close>

text \<open>
  A router connects with an object of its own (\<open>GetReloadedRouter\<close> reads a new one for each
  control channel), so that its link index is empty.
\<close>

definition fresh_router :: "net \<Rightarrow> router_ref \<Rightarrow> bool" where
  "fresh_router n r \<longleftrightarrow>
     \<not> r_connected (routers n r) \<and> allLinks (r_routerLinks (routers n r)) = [] \<and>
     (\<forall>i. GetLinksByRouter (r_routerLinks (routers n r)) i = [])"

lemma attach_dst_links:
  "links (attach_dst r k n) l =
     (if l = k \<and> l_dstId (links n l) = r_id (routers n r) then (links n l)\<lparr>l_dst := Some r\<rparr>
      else links n l)"
  "nextLink (attach_dst r k n) = nextLink n"
  by (auto simp: attach_dst_def upd_link_def)

lemma attach_fold_ends:
  "l_src (links (fold (attach_dst r) ls n) l) = l_src (links n l) \<and>
   l_dstId (links (fold (attach_dst r) ls n) l) = l_dstId (links n l) \<and>
   l_id (links (fold (attach_dst r) ls n) l) = l_id (links n l) \<and>
   nextLink (fold (attach_dst r) ls n) = nextLink n \<and>
   r_id (routers (fold (attach_dst r) ls n) q) = r_id (routers n q)"
  by (induction ls arbitrary: n) (simp_all add: attach_dst_links)

lemma attach_fold_dst:
  "l_dst (links (fold (attach_dst r) ls n) l) =
     (if l \<in> set ls \<and> l_dstId (links n l) = r_id (routers n r) then Some r else l_dst (links n l))"
  by (induction ls arbitrary: n) (auto simp: attach_dst_links)

lemma attach_dst_index:
  "allOf (attach_dst r k n) q =
     allOf n q \<union> (if q = r \<and> l_dstId (links n k) = r_id (routers n r) then {k} else {})"
  "byOf (attach_dst r k n) q i =
     byOf n q i \<union> (if q = r \<and> l_dstId (links n k) = r_id (routers n r) \<and> srcId n k = i then {k} else {})"
  by (auto simp: attach_dst_def)

lemma attach_dst_ends:
  "l_src (links (attach_dst r k n) l) = l_src (links n l)"
  "l_dstId (links (attach_dst r k n) l) = l_dstId (links n l)"
  by (simp_all add: attach_dst_links)

lemma attach_fold_allOf:
  "allOf (fold (attach_dst r) ls n) q =
     allOf n q \<union> (if q = r then {l \<in> set ls. l_dstId (links n l) = r_id (routers n r)} else {})"
  by (induction ls arbitrary: n) (auto simp: attach_dst_index attach_dst_ends)

lemma attach_fold_byOf:
  "byOf (fold (attach_dst r) ls n) q i =
     byOf n q i \<union> (if q = r then {l \<in> set ls. l_dstId (links n l) = r_id (routers n r) \<and> srcId n l = i}
                  else {})"
  by (induction ls arbitrary: n) (auto simp: attach_dst_index attach_dst_ends)

lemma All_table:
  assumes "net_inv n"
  shows "l \<in> set (LinkManager_All n) \<longleftrightarrow> map_of (linkTable n) (l_id (links n l)) = Some l"
proof
  assume "l \<in> set (LinkManager_All n)"
  then obtain i where "(i, l) \<in> set (linkTable n)" by (auto simp: LinkManager_All_def)
  then have "map_of (linkTable n) i = Some l"
    using assms by (simp add: net_inv_def table_inv_distinct)
  then show "map_of (linkTable n) (l_id (links n l)) = Some l"
    using table_range [OF assms] by blast
next
  assume "map_of (linkTable n) (l_id (links n l)) = Some l"
  then show "l \<in> set (LinkManager_All n)"
    by (auto simp: LinkManager_All_def dest!: map_of_SomeD intro: rev_image_eqI)
qed

lemma ConnectRouter_state:
  "links (fst (ConnectRouter r n)) = links (BuildRouterLinks r n)"
  "nextLink (fst (ConnectRouter r n)) = nextLink n"
  "linkTable (fst (ConnectRouter r n)) = linkTable n"
  "map_of (connected (fst (ConnectRouter r n))) = (map_of (connected n))(r_id (routers n r) \<mapsto> r)"
  "r_id (routers (fst (ConnectRouter r n)) q) = r_id (routers n q)"
  "r_connected (routers (fst (ConnectRouter r n)) q) = (q = r \<or> r_connected (routers n q))"
  "r_routerLinks (routers (fst (ConnectRouter r n)) q) = r_routerLinks (routers (BuildRouterLinks r n) q)"
  by (auto simp: ConnectRouter_fst MarkConnected_def Let_def upd_router_def)
     (simp add: BuildRouterLinks_def attach_fold_ends)

lemma inv_ConnectRouter:
  assumes inv: "base_inv n" and fresh: "fresh_router n r"
  shows "base_inv (fst (ConnectRouter r n)) \<and> (live_inv n \<longrightarrow> live_inv (fst (ConnectRouter r n)))"
  unfolding base_inv_def
proof (intro conjI impI)
  note state = ConnectRouter_state BuildRouterLinks_def attach_fold_ends attach_fold_dst
    attach_fold_allOf attach_fold_byOf
  have net: "net_inv n" using inv by (simp add: base_inv_def)
  note all = All_table [OF net] and range = table_range [OF net]
  show "net_inv (fst (ConnectRouter r n))"
    by (rule net_inv_ConnectRouter [OF net])
  show "ends_inv (fst (ConnectRouter r n))"
    using inv by (simp add: base_inv_def ends_inv_def state)
  show "key_inv (fst (ConnectRouter r n))"
    using inv fresh range
    by (auto simp: base_inv_def key_inv_def key_ok_def state fresh_router_def all)
  have dst: "r_id (routers n d) = l_dstId (links n l)"
    if "map_of (linkTable n) i = Some l" "l_dst (links n l) = Some d" for i l d
    using inv that range [OF that(1)] by (auto simp: base_inv_def ends_inv_def)
  have "dst_inv n" using inv by (simp add: base_inv_def)
  then show "dst_inv (fst (ConnectRouter r n))"
    using dst range by (fastforce simp: dst_inv_def state all)
  show "live_inv (fst (ConnectRouter r n))" if live: "live_inv n"
  proof -
    have "map_of (linkTable n) (l_id (links n l)) = Some l \<and>
        (q = l_src (links n l) \<or> l_dst (links (BuildRouterLinks r n) l) = Some q)"
      if l: "l \<in> allOf (BuildRouterLinks r n) q"
        and q: "q = l_src (links n l) \<or> q \<in> ran ((map_of (connected n))(r_id (routers n r) \<mapsto> r))" for q l
    proof (cases "q = r")
      case True
      then show ?thesis using l fresh by (simp add: state all fresh_router_def)
    next
      case False
      with q net have id: "q = l_src (links n l) \<or>
          q \<in> ran (map_of (connected n)) \<and> r_id (routers n q) \<noteq> r_id (routers n r)"
        by (auto simp: ran_def net_inv_def dest: connected_invD(1) split: if_splits)
      with False l live have "map_of (linkTable n) (l_id (links n l)) = Some l"
        "q = l_src (links n l) \<or> l_dst (links n l) = Some q"
        by (auto simp: state live_inv_def)
      then show ?thesis using id dst by (auto simp: state)
    qed
    then show ?thesis
      by (simp add: live_inv_def ConnectRouter_state BuildRouterLinks_def attach_fold_ends)
  qed
  show "target_inv (fst (ConnectRouter r n))"
    using inv range by (auto simp: base_inv_def target_inv_def state all split: if_splits)
qed

lemma base_inv_ConnectRouter: "base_inv n \<Longrightarrow> fresh_router n r \<Longrightarrow> base_inv (fst (ConnectRouter r n))"
  by (simp add: inv_ConnectRouter)

lemma index_inv_ConnectRouter: "index_inv n \<Longrightarrow> fresh_router n r \<Longrightarrow> index_inv (fst (ConnectRouter r n))"
  by (simp add: index_inv_base inv_ConnectRouter)

section \<open>Disconnecting a router\<close>

lemma index_inv_disconnect_link:
  assumes "index_inv n" and "r_id (routers n (l_src (links n l))) = r_id (routers n r) \<Longrightarrow> current n l"
  shows "index_inv (fst (disconnect_link r l (n, es)))"
  using assms by (simp add: disconnect_link_simp index_inv_Remove)

lemma index_inv_disconnect_links:
  assumes "index_inv n"
    and "\<And>l. l \<in> set ls \<Longrightarrow> r_id (routers n (l_src (links n l))) = r_id (routers n r) \<Longrightarrow> current n l"
  shows "index_inv (fst (fold (disconnect_link r) ls (n, es)))"
  using assms
proof (induction ls arbitrary: n es)
  case (Cons l ls)
  have "index_inv (fst (fold (disconnect_link r) ls (m, es')))"
    if "m = n \<or> m = LinkManager_Remove l n \<and> current n l" for m es'
    using that Cons.prems by (intro Cons.IH) (auto intro: index_inv_Remove current_Remove)
  then show ?case
    using Cons.prems(2) by (auto simp: disconnect_link_simp)
qed simp

lemma source_current:
  assumes "index_inv n" "l \<in> allOf n r" "r_id (routers n (l_src (links n l))) = r_id (routers n r)"
  shows "current n l"
proof -
  have "key_inv n" using assms(1) by (simp add: index_inv_def)
  with assms(2) obtain i where "l < nextLink n" "key_ok n r i l"
    unfolding key_inv_def by blast
  with assms have "r = l_src (links n l)"
    by (auto simp: key_ok_def index_inv_def ends_inv_def)
  with assms show ?thesis
    by (auto simp: current_def index_inv_def live_inv_def \<open>l < nextLink n\<close>)
qed

lemma disconnect_links_keep:
  assumes "net_inv n" "srcId n k \<noteq> r_id (routers n r)" "map_of (linkTable n) i = Some k"
    and "\<And>l. l \<in> set ls \<Longrightarrow> srcId n l = r_id (routers n r) \<Longrightarrow> current n l"
  shows "map_of (linkTable (fst (fold (disconnect_link r) ls (n, es)))) i = Some k"
  using assms
proof (induction ls arbitrary: n es)
  case (Cons l ls)
  have ne: "i \<noteq> l_id (links n l)" if "srcId n l = r_id (routers n r)"
    using Cons.prems(2,3) Cons.prems(4) [of l] that by (auto simp: current_def)
  have "map_of (linkTable (fst (fold (disconnect_link r) ls (m, es')))) i = Some k"
    if "m = n \<or> m = LinkManager_Remove l n \<and> i \<noteq> l_id (links n l)" for m es'
    using that Cons.prems
    by (intro Cons.IH) (auto simp: table_Remove intro: net_inv_Remove current_Remove)
  then show ?case
    using ne by (auto simp: disconnect_link_simp)
qed simp

lemma MarkDisconnected_state:
  "links (MarkDisconnected r n) = links n" "nextLink (MarkDisconnected r n) = nextLink n"
  "linkTable (MarkDisconnected r n) = linkTable n"
  "r_id (routers (MarkDisconnected r n) q) = r_id (routers n q)"
  "r_connected (routers (MarkDisconnected r n) q) = (q \<noteq> r \<and> r_connected (routers n q))"
  "allOf (MarkDisconnected r n) q = (if q = r then {} else allOf n q)"
  "byOf (MarkDisconnected r n) q i = (if q = r then {} else byOf n q i)"
  "ran (map_of (connected (MarkDisconnected r n))) \<subseteq> ran (map_of (connected n))"
  by (auto simp: MarkDisconnected_def Let_def upd_router_def RouterLinks_Clear_def
      GetLinksByRouter_def ran_def)

lemma connected_MarkDisconnected:
  "map_of (connected (MarkDisconnected r n)) i = Some u \<Longrightarrow> map_of (connected n) i = Some u"
  by (auto simp: MarkDisconnected_def Let_def upd_router_def split: if_splits)

lemma live_inv_MarkDisconnected: "live_inv n \<Longrightarrow> live_inv (MarkDisconnected r n)"
  unfolding live_inv_def MarkDisconnected_state
  using subsetD [OF MarkDisconnected_state(8) [of r n]] by (metis empty_iff)

lemma inv_MarkDisconnected:
  "ends_inv n \<Longrightarrow> ends_inv (MarkDisconnected r n)" "key_inv n \<Longrightarrow> key_inv (MarkDisconnected r n)"
  "dst_inv n \<Longrightarrow> dst_inv (MarkDisconnected r n)"
  by (auto simp: ends_inv_def key_inv_def key_ok_def dst_inv_def MarkDisconnected_state)

lemma target_inv_MarkDisconnected: "target_inv n \<Longrightarrow> target_inv (MarkDisconnected r n)"
  unfolding target_inv_def MarkDisconnected_state by (blast dest: connected_MarkDisconnected)

lemma index_inv_DisconnectRouter:
  assumes "index_inv n"
  shows "index_inv (fst (DisconnectRouter r n))"
proof -
  let ?m = "fst (fold (disconnect_link r) (allLinks (r_routerLinks (routers n r))) (n, []))"
  have "index_inv ?m"
    by (rule index_inv_disconnect_links [OF assms]) (rule source_current [OF assms])
  moreover have "net_inv (MarkDisconnected r ?m)"
    using net_inv_DisconnectRouter [of n r] assms by (simp add: index_inv_def DisconnectRouter_fst)
  ultimately show ?thesis
    by (simp add: index_inv_def DisconnectRouter_fst live_inv_MarkDisconnected inv_MarkDisconnected
        target_inv_MarkDisconnected)
qed

lemma base_inv_disconnect_links:
  "base_inv n \<Longrightarrow> (\<And>l. l \<in> set ls \<Longrightarrow> l < nextLink n) \<Longrightarrow> base_inv (fst (fold (disconnect_link r) ls (n, es)))"
  by (induction ls arbitrary: n es) (simp_all add: disconnect_link_simp base_inv_Remove)

lemma base_inv_DisconnectRouter:
  assumes "base_inv n"
  shows "base_inv (fst (DisconnectRouter r n))"
proof -
  let ?m = "fst (fold (disconnect_link r) (allLinks (r_routerLinks (routers n r))) (n, []))"
  have "base_inv ?m"
    using assms by (intro base_inv_disconnect_links) (auto simp: base_inv_def key_inv_def)
  moreover have "net_inv (MarkDisconnected r ?m)"
    using net_inv_DisconnectRouter [of n r] assms by (simp add: base_inv_def DisconnectRouter_fst)
  ultimately show ?thesis
    by (simp add: base_inv_def DisconnectRouter_fst inv_MarkDisconnected target_inv_MarkDisconnected)
qed

section \<open>The other handlers\<close>

lemma table_All: "net_inv n \<Longrightarrow> l \<in> set (LinkManager_All n) \<Longrightarrow> current n l"
  by (auto simp: All_table intro: current_table)

text \<open>
  \<open>linkTable.remove\<close> compares iterations, not objects: it takes out the entry of another object with
  the id and iteration of the link it is given.
\<close>

definition superseded :: "net \<Rightarrow> link_ref \<Rightarrow> bool" where
  "superseded n l \<longleftrightarrow>
     (\<exists>v. map_of (linkTable n) (l_id (links n l)) = Some v \<and> v \<noteq> l \<and>
          l_iteration (links n v) = l_iteration (links n l))"

lemma index_inv_late_Remove:
  assumes "index_inv n" "l < nextLink n" "\<not> superseded n l"
  shows "index_inv (LinkManager_Remove l n)"
proof (cases "removes n l")
  case True
  with assms(2,3) have "current n l" by (auto simp: current_def superseded_def removes_def)
  with assms(1) show ?thesis by (rule index_inv_Remove)
qed (use assms(1) in \<open>simp add: not_removes\<close>)

lemma SetState_fields [simp]:
  "l_id (Link_SetState m now x) = l_id x" "l_iteration (Link_SetState m now x) = l_iteration x"
  "l_dst (Link_SetState m now x) = l_dst x"
  by (auto simp: Link_SetState_def Link_recalculateUsable_def)

lemma superseded_SetState: "superseded (upd_link l (Link_SetState m now) n) l = superseded n l"
  by (auto simp: superseded_def upd_link_def)

lemma base_inv_LinkFaulted: "base_inv n \<Longrightarrow> l < nextLink n \<Longrightarrow> base_inv (fst (LinkFaulted l dupe now n))"
  by (simp add: LinkFaulted_def Let_def base_inv_Remove inv_upd_link keeps_ends_ops)

lemma index_inv_LinkFaulted:
  assumes "index_inv n" "l < nextLink n" "\<not> superseded n l"
  shows "index_inv (fst (LinkFaulted l dupe now n))"
  using assms by (simp add: LinkFaulted_def Let_def index_inv_late_Remove index_inv_upd_link keeps_ends_ops superseded_SetState)

lemma index_inv_RemoveLink: "index_inv n \<Longrightarrow> index_inv (fst (RemoveLink i n))"
  by (auto simp: RemoveLink_def Let_def LinkManager_Get_def index_inv_def [of n]
      intro: index_inv_Remove current_table split: option.splits)

lemma index_inv_ScanForDeadLinks: "index_inv n \<Longrightarrow> index_inv (ScanForDeadLinks n)"
  unfolding ScanForDeadLinks_def
  by (rule index_inv_fold_Remove) (auto simp: index_inv_def intro: table_All)

lemma index_inv_network_clean: "index_inv n \<Longrightarrow> index_inv (network_clean now n)"
  unfolding network_clean_def
  by (rule index_inv_fold_Remove) (auto simp: index_inv_def LinksInMode_def intro: table_All)

lemma index_inv_metrics_link: "index_inv n \<Longrightarrow> index_inv (metrics_link lat que rid l n)"
  by (auto simp: metrics_link_def Let_def Link_SetSrcLatency_def Link_SetDstLatency_def
      Link_RecalculateCost_def intro!: index_inv_upd_link keeps_ends_ops split: option.splits)

lemma index_inv_AcceptMetricsMsg:
  "index_inv n \<Longrightarrow> index_inv (AcceptMetricsMsg me known lat que i n)"
  by (auto simp: AcceptMetricsMsg_def split: option.splits
      intro!: fold_keeps [where P = index_inv] index_inv_metrics_link)

lemma table_All_range: "net_inv n \<Longrightarrow> l \<in> set (LinkManager_All n) \<Longrightarrow> l < nextLink n"
  by (auto dest: table_All simp: current_def)

lemma base_inv_RemoveLink: "base_inv n \<Longrightarrow> base_inv (fst (RemoveLink i n))"
  by (auto simp: RemoveLink_def Let_def LinkManager_Get_def base_inv_def [of n] dest: table_range
      intro: base_inv_Remove split: option.splits)

lemma base_inv_scans: "base_inv n \<Longrightarrow> base_inv (ScanForDeadLinks n)" "base_inv n \<Longrightarrow> base_inv (network_clean now n)"
  unfolding ScanForDeadLinks_def network_clean_def
  by (rule base_inv_fold_Remove; auto simp: base_inv_def LinksInMode_def intro: table_All_range)+

lemma base_inv_metrics_link: "base_inv n \<Longrightarrow> base_inv (metrics_link lat que rid l n)"
  by (auto simp: metrics_link_def Let_def Link_SetSrcLatency_def Link_SetDstLatency_def
      Link_RecalculateCost_def intro!: inv_upd_link keeps_ends_ops split: option.splits)

lemma base_inv_AcceptMetricsMsg:
  "base_inv n \<Longrightarrow> base_inv (AcceptMetricsMsg me known lat que i n)"
  by (auto simp: AcceptMetricsMsg_def split: option.splits
      intro!: fold_keeps [where P = base_inv] base_inv_metrics_link)

lemmas base_inv_handlers = base_inv_ConnectRouter base_inv_DisconnectRouter base_inv_NotifyExistingLink
  base_inv_LinkFaulted base_inv_RemoveLink base_inv_scans base_inv_AcceptMetricsMsg base_inv_Remove

lemmas index_inv_handlers = index_inv_ConnectRouter index_inv_DisconnectRouter
  index_inv_NotifyExistingLink index_inv_LinkFaulted index_inv_RemoveLink
  index_inv_ScanForDeadLinks index_inv_network_clean index_inv_AcceptMetricsMsg index_inv_late_Remove

section \<open>What the controller's state can be\<close>

text \<open>
  The controller starts with no router connected and no link, and changes this state only by
  its handlers, in any order. A router object's id is set before it connects and never changes;
  a router does not report a link to itself. The handlers hold no common lock. Where one looks a
  link up first and faults or removes it later (\<open>handleFaultedLink\<close>, \<open>RemoveLink\<close>, the scans), the
  second half is a step of its own, on any link object there has been: \<open>faulted\<close> and \<open>removed\<close>.
  The rest of a handler is one step.

  \<open>net_step\<close> leaves out one case, the fault or removal of an object when the table holds another
  one with its id and iteration (\<open>superseded\<close>). \<open>any_step\<close> has that too.
\<close>

definition net_init :: "net \<Rightarrow> bool" where
  "net_init n \<longleftrightarrow>
     nextLink n = 0 \<and> linkTable n = [] \<and> connected n = [] \<and> (\<forall>r. fresh_router n r)"

inductive net_step :: "net \<Rightarrow> net \<Rightarrow> bool" where
  connect: "fresh_router n r \<Longrightarrow> net_step n (fst (ConnectRouter r n))"
| disconnect: "net_step n (fst (DisconnectRouter r n))"
| report: "r_id (routers n q) \<noteq> rl_destRouterId rep \<Longrightarrow>
    net_step n (fst (NotifyExistingLink q rep now n))"
| faulted: "l < nextLink n \<Longrightarrow> \<not> superseded n l \<Longrightarrow> net_step n (fst (LinkFaulted l dupe now n))"
| removed: "l < nextLink n \<Longrightarrow> \<not> superseded n l \<Longrightarrow> net_step n (LinkManager_Remove l n)"
| remove: "net_step n (fst (RemoveLink i n))"
| scan: "net_step n (ScanForDeadLinks n)"
| clean: "net_step n (network_clean now n)"
| metrics: "net_step n (AcceptMetricsMsg me known lat que i n)"

inductive_cases net_stepE: "net_step n m"

inductive net_reachable :: "net \<Rightarrow> bool" where
  init: "net_init n \<Longrightarrow> net_reachable n"
| step: "net_reachable n \<Longrightarrow> net_step n m \<Longrightarrow> net_reachable m"

inductive any_step :: "net \<Rightarrow> net \<Rightarrow> bool" where
  handler: "net_step n m \<Longrightarrow> any_step n m"
| late_fault: "l < nextLink n \<Longrightarrow> any_step n (fst (LinkFaulted l dupe now n))"
| late_removal: "l < nextLink n \<Longrightarrow> any_step n (LinkManager_Remove l n)"

inductive any_reachable :: "net \<Rightarrow> bool" where
  any_init: "net_init n \<Longrightarrow> any_reachable n"
| any_next: "any_reachable n \<Longrightarrow> any_step n m \<Longrightarrow> any_reachable m"

lemma any_reachable_net: "net_reachable n \<Longrightarrow> any_reachable n"
  by (induction rule: net_reachable.induct) (auto intro: any_reachable.intros any_step.handler)

lemma index_inv_init: "net_init n \<Longrightarrow> index_inv n"
  by (auto simp: net_init_def index_inv_def net_inv_def table_inv_def connected_inv_def ends_inv_def
      key_inv_def dst_inv_def live_inv_def target_inv_def fresh_router_def)

lemma index_inv_step: "net_step n m \<Longrightarrow> index_inv n \<Longrightarrow> index_inv m"
  by (erule net_stepE) (simp_all add: index_inv_handlers)

lemma index_inv_reachable: "net_reachable n \<Longrightarrow> index_inv n"
  by (induction rule: net_reachable.induct) (auto intro: index_inv_init index_inv_step)

lemma base_inv_step: "net_step n m \<Longrightarrow> base_inv n \<Longrightarrow> base_inv m"
  by (erule net_stepE) (simp_all add: base_inv_handlers)

lemma base_inv_any: "any_reachable n \<Longrightarrow> base_inv n"
proof (induction rule: any_reachable.induct)
  case (any_init n)
  then show ?case using index_inv_init by (simp add: index_inv_base)
next
  case (any_next n m)
  from any_next.hyps(2) any_next.IH show ?case
    by cases (auto intro: base_inv_step base_inv_handlers)
qed

section \<open>What the path calculation relies on\<close>

lemma AllConnected_ran: "net_inv n \<Longrightarrow> u \<in> set (AllConnected n) \<Longrightarrow> u \<in> ran (map_of (connected n))"
  by (auto simp: AllConnected_def net_inv_def connected_inv_def ran_def intro: map_of_is_SomeI)

lemma neighbor_link:
  assumes inv: "index_inv n" and u: "u \<in> set (AllConnected n)"
    and r: "r \<in> set (ConnectedNeighborsOfRouter ord n u)"
  obtains l where "map_of (linkTable n) (l_id (links n l)) = Some l"
    "l \<in> byOf n r (r_id (routers n u))" "joins_router n (r_id (routers n u)) l"
proof -
  from r obtain l where l: "l \<in> allOf n u" "leads_to n u l r" by (rule neighbors_sound)
  have net: "net_inv n" and "key_inv n" using inv by (simp_all add: index_inv_def)
  with l(1) obtain i where key: "key_ok n u i l" "l < nextLink n" unfolding key_inv_def by blast
  have "u \<in> ran (map_of (connected n))" using net u by (rule AllConnected_ran)
  with l(1) inv have tab: "map_of (linkTable n) (l_id (links n l)) = Some l"
    by (auto simp: index_inv_def live_inv_def)
  from l(2) obtain d where d: "l_dst (links n l) = Some d" "r_connected (routers n d)"
    "l_usable (links n l)" "r = l_src (links n l) \<and> r_id (routers n r) \<noteq> r_id (routers n u) \<or>
       r = d \<and> l_dstId (links n l) \<noteq> r_id (routers n u)"
    by (auto simp: leads_to_def split: option.splits)
  have "l \<in> byOf n d (srcId n l)" using inv tab d by (auto simp: index_inv_def dst_inv_def)
  moreover have "l \<in> byOf n (l_src (links n l)) (l_dstId (links n l))"
    using table_invD(4) [of n, OF _ tab] net by (simp add: net_inv_def indexed_def)
  ultimately have "l \<in> byOf n r (r_id (routers n u)) \<and> joins_router n (r_id (routers n u)) l"
    using d(3,4) key by (auto simp: key_ok_def joins_router_def)
  with tab show ?thesis using that by blast
qed

section \<open>A network of two routers\<close>

definition demo_router :: "string \<Rightarrow> router" where
  "demo_router i = \<lparr>r_id = i, r_fingerprint = None, r_hasControl = True, r_connected = False,
     r_routerLinks = \<lparr>allLinks = [], linkByRouter = Map.empty\<rparr>, r_cost = 0, r_noTraversal = False\<rparr>"

definition demo_net :: net where
  "demo_net = \<lparr>routers = (\<lambda>r. demo_router (if r = 0 then ''a'' else if r = 1 then ''b'' else ''c'')),
     links = (\<lambda>_. newLink '''' '''' '''' 0 0), nextLink = 0, linkTable = [], connected = [],
     initialLatency = 65000000\<rparr>"

definition demo_report :: "string \<Rightarrow> string \<Rightarrow> 32 word \<Rightarrow> RouterLink" where
  "demo_report i dest it = \<lparr>rl_id = i, rl_destRouterId = dest, rl_protocol = ''tls'',
     rl_dialAddress = ''tls:b:80'', rl_iteration = it, rl_connState = None\<rparr>"

definition demo_connected :: net where
  "demo_connected = fst (ConnectRouter 1 (fst (ConnectRouter 0 demo_net)))"

definition demo_linked :: net where
  "demo_linked = fst (NotifyExistingLink 0 (demo_report ''l1'' ''b'' 1) 0 demo_connected)"

lemmas demo_defs = demo_net_def demo_router_def demo_report_def ConnectRouter_state
  BuildRouterLinks_def LinkManager_All_def fresh_router_def GetLinksByRouter_def

lemma demo_connected_reachable: "net_reachable demo_connected"
proof -
  have "net_reachable demo_net"
    by (rule net_reachable.init) (simp add: net_init_def demo_defs)
  moreover have "net_step demo_net (fst (ConnectRouter 0 demo_net))"
    by (rule net_step.connect) (simp add: demo_defs)
  moreover have "net_step (fst (ConnectRouter 0 demo_net)) demo_connected"
    unfolding demo_connected_def by (rule net_step.connect) (simp add: demo_defs)
  ultimately show ?thesis
    by (meson net_reachable.step)
qed

lemma demo_linked_reachable: "net_reachable demo_linked"
  unfolding demo_linked_def
  by (rule net_reachable.step [OF demo_connected_reachable], rule net_step.report)
     (simp add: demo_connected_def ConnectRouter_state demo_net_def demo_router_def demo_report_def)

section \<open>Properties\<close>

text \<open>
  C1. Whatever sequence of handlers runs, a fault or removal that comes late for a link object
  included, the controller's link state stays consistent: the link table maps each id to a link with
  that id, whose cost and usability are those its fields determine, and which its source router's
  index holds; the connected table holds connected routers under their own ids; the two indexes of
  every router agree and use the other end's id as key; and a link whose destination is connected is
  indexed there too. As long as no late fault or removal hits an object that another one with
  the same id and iteration has replaced, the index of a connected router also holds no link that
  has left the table.
\<close>

theorem reachable_consistent:
  assumes "any_reachable n"
  shows "base_inv n \<and> (net_reachable n \<longrightarrow> live_inv n)"
  using assms base_inv_any index_inv_reachable by (auto simp: index_inv_base)

theorem reachable_consistent_witness:
  "base_inv demo_linked \<and> live_inv demo_linked \<and> LinkManager_Get demo_linked ''l1'' = Some 0"
proof -
  have "LinkManager_Get demo_linked ''l1'' = Some 0" by code_simp
  then show ?thesis
    using reachable_consistent [OF any_reachable_net [OF demo_linked_reachable]] demo_linked_reachable by simp
qed

definition demo_ghost :: net where
  "demo_ghost =
     fst (LinkFaulted 0 False 0 (fst (NotifyExistingLink 0 (demo_report ''l1'' ''b'' 1) 0 (fst (RemoveLink ''l1'' demo_linked)))))"




text \<open>
  C14. After \<open>DisconnectRouter\<close> the router object is out of the topology: it is not connected,
  the connected table does not hold it, its index is empty, no link of the table has it
  as its source, and a link is gone from the table only if its source was a router with that id.
\<close>

theorem disconnected_router_is_gone:
  fixes n :: net and r :: router_ref
  assumes "net_reachable n"
  defines "m \<equiv> fst (DisconnectRouter r n)"
  shows "\<not> r_connected (routers m r) \<and> r \<notin> set (AllConnected m) \<and>
    allLinks (r_routerLinks (routers m r)) = [] \<and>
    (\<forall>l \<in> set (LinkManager_All m). l_src (links m l) \<noteq> r) \<and>
    (\<forall>l \<in> set (LinkManager_All n). srcId n l \<noteq> r_id (routers n r) \<longrightarrow> l \<in> set (LinkManager_All m))"
proof -
  let ?f = "fst (fold (disconnect_link r) (allLinks (r_routerLinks (routers n r))) (n, []))"
  have n: "index_inv n" using assms(1) by (rule index_inv_reachable)
  then have m: "index_inv m" unfolding m_def by (rule index_inv_DisconnectRouter)
  have gone: "\<not> r_connected (routers m r)" "allLinks (r_routerLinks (routers m r)) = []"
    using MarkDisconnected_state(5,6) [of r ?f r] by (simp_all add: m_def DisconnectRouter_fst)
  moreover have "r \<notin> set (AllConnected m)"
    using m gone by (auto simp: index_inv_def net_inv_def connected_inv_def AllConnected_def)
  moreover have "l_src (links m l) \<noteq> r" if "l \<in> set (LinkManager_All m)" for l
    using table_invD(4) [of m _ l] m that gone
    by (auto simp: index_inv_def net_inv_def All_table indexed_def)
  moreover have "l \<in> set (LinkManager_All m)"
    if "l \<in> set (LinkManager_All n)" "srcId n l \<noteq> r_id (routers n r)" for l
    using disconnect_links_keep [OF _ that(2) _ source_current [OF n]] that m n
    by (simp add: All_table index_inv_def m_def DisconnectRouter_fst MarkDisconnected_state
        disconnect_links_frame)
  ultimately show ?thesis by blast
qed

theorem disconnected_router_is_gone_witness:
  "\<not> r_connected (routers (fst (DisconnectRouter 0 demo_linked)) 0) \<and>
   LinkManager_All demo_linked \<noteq> [] \<and> LinkManager_All (fst (DisconnectRouter 0 demo_linked)) = []"
proof -
  have "LinkManager_All demo_linked \<noteq> [] \<and> LinkManager_All (fst (DisconnectRouter 0 demo_linked)) = []"
    by code_simp
  then show ?thesis
    using disconnected_router_is_gone [OF demo_linked_reachable, of 0] by simp
qed

text \<open>
  C15. When a router reports a link, the newest iteration wins: the table ends up with the link
  the call returns under the reported id, whose iteration is at least the reported one; a new
  link is made exactly when the table has none with that id or an older one, and it carries
  what was reported; otherwise nothing changes; the entries of other ids are untouched.
\<close>

theorem reported_link_newest_iteration:
  assumes "net_inv n" and "RouterReportedLink rep src dst now n = (m, l, created)"
  shows "LinkManager_Get m (rl_id rep) = Some l \<and> rl_iteration rep \<le> l_iteration (links m l) \<and>
    created = (\<forall>k. LinkManager_Get n (rl_id rep) = Some k \<longrightarrow> l_iteration (links n k) < rl_iteration rep) \<and>
    (created \<longrightarrow> (\<exists>lat. links m l = reported rep src dst lat now)) \<and> (\<not> created \<longrightarrow> m = n) \<and>
    (\<forall>i. i \<noteq> rl_id rep \<longrightarrow> LinkManager_Get m i = LinkManager_Get n i)"
proof (cases rule: RouterReportedLink_cases [of n rep])
  case (stale k)
  then show ?thesis using assms(2) by (auto simp: RouterReportedLink_stale)
next
  case fresh
  let ?m = "case LinkManager_Get n (rl_id rep) of Some l \<Rightarrow> LinkManager_Remove l n | None \<Rightarrow> n"
  have "(register (reported rep src dst (initialLatency ?m) now) ?m, nextLink ?m, True) = (m, l, created)"
    unfolding register_def by (rule trans [OF RouterReportedLink_fresh [OF fresh, symmetric] assms(2)])
  then have eq: "m = register (reported rep src dst (initialLatency ?m) now) ?m" "l = nextLink ?m" "created"
    by auto
  have "i \<noteq> rl_id rep \<Longrightarrow> LinkManager_Get ?m i = LinkManager_Get n i" for i
    using table_range [OF assms(1)] by (auto simp: LinkManager_Get_def table_Remove split: option.split)
  then show ?thesis
    using fresh eq by (auto simp: LinkManager_Get_def)
qed

theorem reported_link_newest_iteration_witness:
  "let (m, l, created) = RouterReportedLink (demo_report ''l1'' ''b'' 2) 0 (Some 1) 7 demo_linked
   in created \<and> l_iteration (links m l) = 2"
proof -
  obtain m l c where r: "RouterReportedLink (demo_report ''l1'' ''b'' 2) 0 (Some 1) 7 demo_linked = (m, l, c)"
    by (metis prod_cases3)
  have inv: "net_inv demo_linked"
    using index_inv_reachable [OF demo_linked_reachable] by (simp add: index_inv_def)
  have "LinkManager_Get demo_linked ''l1'' = Some 0" "l_iteration (links demo_linked 0) = 1" by code_simp+
  moreover have "(1 :: 32 word) < 2" by simp
  ultimately have c using reported_link_newest_iteration [OF inv r] by (simp add: demo_report_def)
  then obtain lat where "links m l = reported (demo_report ''l1'' ''b'' 2) 0 (Some 1) lat 7"
    using reported_link_newest_iteration [OF inv r] by blast
  with \<open>c\<close> r show ?thesis by (simp add: demo_report_def)
qed

text \<open>
  C16. A fault for a link object whose id has meanwhile been reported with another iteration
  leaves the newer link alone: the table and the routers' indexes are as before. A fault for
  the table's own link removes exactly its entry. In both cases the link is marked failed and
  unusable, and circuits are rerouted when it was usable.
\<close>

theorem link_fault_iteration:
  assumes "LinkManager_Get n (l_id (links n l)) = Some v"
  shows "l_mode (links (fst (LinkFaulted l dupe now n)) l) = Failed \<and>
    \<not> l_usable (links (fst (LinkFaulted l dupe now n)) l) \<and>
    (RerouteLink l \<in> set (snd (LinkFaulted l dupe now n)) \<longleftrightarrow> l_usable (links n l)) \<and>
    (if l_iteration (links n v) = l_iteration (links n l)
     then (\<forall>i. LinkManager_Get (fst (LinkFaulted l dupe now n)) i =
             (if i = l_id (links n l) then None else LinkManager_Get n i))
     else linkTable (fst (LinkFaulted l dupe now n)) = linkTable n \<and>
          routers (fst (LinkFaulted l dupe now n)) = routers n)"
proof -
  let ?f = "upd_link l (Link_SetState Failed now) n"
  have same: "l_iteration (links ?f k) = l_iteration (links n k)" "l_id (links ?f k) = l_id (links n k)" for k
    by (simp_all add: upd_link_def Link_SetState_def Link_recalculateUsable_def)
  have "removes ?f l \<longleftrightarrow> l_iteration (links n v) = l_iteration (links n l)"
    using assms by (simp add: removes_def same LinkManager_Get_def)
  moreover have "links ?f l = Link_SetState Failed now (links n l)" by (simp add: upd_link_def)
  ultimately show ?thesis
    by (auto simp: LinkFaulted_def Let_def LinkManager_Get_def table_Remove same not_removes
        Link_SetState_def Link_recalculateUsable_def)
qed

theorem link_fault_iteration_witness:
  "LinkManager_Get (fst (LinkFaulted 0 False 9 demo_linked)) ''l1'' = None"
proof -
  have "l_id (links demo_linked 0) = ''l1''" "LinkManager_Get demo_linked ''l1'' = Some 0" by code_simp+
  then show ?thesis using link_fault_iteration [of demo_linked 0 0 False 9] by simp
qed

end
