(* ===== verification/Shortest_Path.thy ===== *)
theory Shortest_Path
  imports Zt_Prelude
begin

text \<open>
  The search loop of \<open>shortestPath\<close> (\<open>controller/network/network_path.go\<close>) and \<open>minCost\<close>
  (\<open>controller/network/network.go\<close>): Dijkstra's algorithm with an early exit at the
  destination, over int64 distances that start at \<open>math.MaxInt32\<close>, followed by the walk back
  along \<open>prev\<close>. The neighbours and the cost of an edge are arguments here; theory Routing
  gives the controller's.

  The loop returns an option: None stands for the nil dereference that would follow if
  \<open>minCost\<close> selected nothing, and for a walk back that does not end. The lemmas show that
  neither happens, that the result is a walk of the cost returned, and that no walk costs less.
\<close>

section \<open>The loop\<close>

type_synonym 'r dist = "('r \<times> int) list"
type_synonym 'r prev = "('r \<times> 'r) list"

abbreviation dist_at :: "'r dist \<Rightarrow> 'r \<Rightarrow> int" where
  "dist_at dist r \<equiv> lookup0 (map_of dist) r"

definition minCost :: "('r list \<Rightarrow> 'r list) \<Rightarrow> 'r list \<Rightarrow> 'r dist \<Rightarrow> 'r option" where
  "minCost ord q dist =
     (if dist = [] then None else scan_le (dist_at dist) None MaxInt64 (go_range ord q))"

definition relax :: "('r \<Rightarrow> 'r \<Rightarrow> int) \<Rightarrow> 'r list \<Rightarrow> 'r \<Rightarrow> 'r \<Rightarrow> 'r dist \<times> 'r prev \<Rightarrow> 'r dist \<times> 'r prev" where
  "relax cost unvisited u r s =
     (let (dist, prev) = s in
      if r \<in> set unvisited then
        let alt = i64 (dist_at dist u + cost u r) in
        if alt < dist_at dist r then (AList.update r alt dist, AList.update r u prev) else (dist, prev)
      else (dist, prev))"

lemma minCost_in: "minCost ord q dist = Some u \<Longrightarrow> u \<in> set q \<and> (\<forall>x \<in> set q. dist_at dist u \<le> dist_at dist x)"
  by (auto simp: minCost_def split: if_splits dest!: scan_le_cases)

function visit_all ::
  "('r list \<Rightarrow> 'r list) \<Rightarrow> ('r \<Rightarrow> 'r list) \<Rightarrow> ('r \<Rightarrow> 'r \<Rightarrow> int) \<Rightarrow> 'r \<Rightarrow> 'r list \<Rightarrow> 'r dist \<times> 'r prev \<Rightarrow>
   ('r dist \<times> 'r prev) option" where
  "visit_all ord nbrs cost dstR unvisited s =
     (if unvisited = [] then Some s
      else case minCost ord unvisited (fst s) of
             None \<Rightarrow> None
           | Some u \<Rightarrow>
               if u = dstR then Some s
               else let unvisited' = filter (\<lambda>x. x \<noteq> u) unvisited
                    in visit_all ord nbrs cost dstR unvisited'
                         (fold (relax cost unvisited' u) (nbrs u) s))"
  by pat_completeness auto
termination
  by (relation "measure (\<lambda>(ord, nbrs, cost, dstR, unvisited, s). length unvisited)")
     (auto dest!: minCost_in intro: length_filter_less)

partial_function (option) walk_back :: "'r prev \<Rightarrow> 'r option \<Rightarrow> 'r list \<Rightarrow> 'r list option" where
  [code]: "walk_back prev p routerPath =
     (case p of
        None \<Rightarrow> Some routerPath
      | Some q \<Rightarrow> walk_back prev (map_of prev q) (q # routerPath))"

section \<open>The invariant of the loop\<close>

text \<open>
  \<open>V\<close> is the set of routers the search starts with, \<open>unv\<close> those not yet visited; \<open>link prev\<close>
  relates a router to the routers reached from it.
\<close>

definition link_rel :: "'r prev \<Rightarrow> ('r \<times> 'r) set" where
  "link_rel prev = {(u, r). map_of prev r = Some u}"

definition cost_ok :: "('r \<Rightarrow> 'r \<Rightarrow> int) \<Rightarrow> bool" where
  "cost_ok cost \<longleftrightarrow> (\<forall>u r. 0 \<le> cost u r \<and> cost u r < 2 ^ 62)"

text \<open>
  Between two visits every edge out of a visited router is relaxed. While \<open>u\<close> is being
  visited, those out of \<open>u\<close> are relaxed as far as \<open>N\<close> says.
\<close>

definition visit_inv ::
  "'r \<Rightarrow> 'r set \<Rightarrow> ('r \<Rightarrow> 'r list) \<Rightarrow> ('r \<Rightarrow> 'r \<Rightarrow> int) \<Rightarrow> 'r set \<Rightarrow> 'r \<Rightarrow> 'r set \<Rightarrow>
   'r dist \<Rightarrow> 'r prev \<Rightarrow> bool" where
  "visit_inv s V nbrs cost unv u N dist prev \<longleftrightarrow>
     dist \<noteq> [] \<and> unv \<subseteq> V \<and> dist_at dist s = 0 \<and> (\<forall>v. 0 \<le> dist_at dist v \<and> dist_at dist v \<le> MaxInt32) \<and>
     (\<forall>x \<in> V - unv. \<forall>y \<in> unv. dist_at dist x \<le> dist_at dist y) \<and>
     (\<forall>x \<in> V - unv. \<forall>r \<in> set (nbrs x) \<inter> V.
        x = u \<and> r \<notin> N \<or> dist_at dist r \<le> dist_at dist x + cost x r) \<and>
     (\<forall>r x. map_of prev r = Some x \<longrightarrow>
        x \<in> V - unv \<and> r \<in> V \<and> r \<in> set (nbrs x) \<and> dist_at dist x + cost x r = dist_at dist r \<and>
        dist_at dist r < MaxInt32) \<and>
     (\<forall>r \<in> V. map_of prev r = None \<longrightarrow> r = s \<or> dist_at dist r = MaxInt32) \<and>
     map_of prev s = None \<and> wf (link_rel prev)"

abbreviation search_inv ::
  "'r \<Rightarrow> 'r set \<Rightarrow> ('r \<Rightarrow> 'r list) \<Rightarrow> ('r \<Rightarrow> 'r \<Rightarrow> int) \<Rightarrow> 'r set \<Rightarrow> 'r dist \<Rightarrow> 'r prev \<Rightarrow> bool" where
  "search_inv s V nbrs cost unv dist prev \<equiv> visit_inv s V nbrs cost unv s UNIV dist prev"

lemma visit_inv_start:
  assumes inv: "search_inv s V nbrs cost unv dist prev" and cost: "cost_ok cost"
    and u: "u \<in> unv" "\<forall>x \<in> unv. dist_at dist u \<le> dist_at dist x"
  shows "visit_inv s V nbrs cost (unv - {u}) u (V - (unv - {u})) dist prev \<and>
         (\<forall>x \<in> V - (unv - {u}). dist_at dist x \<le> dist_at dist u)"
proof -
  have le: "dist_at dist x \<le> dist_at dist u" if "x \<in> V - (unv - {u})" for x
    using that inv u by (auto simp: visit_inv_def)
  have edges: "x = u \<and> r \<notin> V - (unv - {u}) \<or> dist_at dist r \<le> dist_at dist x + cost x r"
    if "x \<in> V - (unv - {u})" "r \<in> set (nbrs x) \<inter> V" for x r
  proof (cases "x = u")
    case True
    have "0 \<le> cost u r" using cost by (simp add: cost_ok_def)
    with True le [of r] that(2) show ?thesis by (metis DiffI IntD2 add_increasing2)
  next
    case False
    with that inv show ?thesis by (auto simp: visit_inv_def)
  qed
  have "\<forall>x \<in> V - (unv - {u}). \<forall>y \<in> unv - {u}. dist_at dist x \<le> dist_at dist y"
    using inv u by (auto simp: visit_inv_def)
  with edges inv le show ?thesis
    unfolding visit_inv_def by blast
qed

lemma link_rel_update:
  assumes "wf (link_rel prev)" "\<And>y. (r, y) \<notin> link_rel prev" "u \<noteq> r"
  shows "wf (link_rel (AList.update r u prev))"
proof (rule wf_subset)
  have "(r, u) \<notin> (link_rel prev)\<^sup>*"
    using assms(2,3) by (metis converse_rtranclE)
  then show "wf (insert (u, r) (link_rel prev))" using assms(1) by simp
  show "link_rel (AList.update r u prev) \<subseteq> insert (u, r) (link_rel prev)"
    by (auto simp: link_rel_def split: if_splits)
qed

lemma visit_invD:
  assumes "visit_inv s V nbrs cost unv u N dist prev"
  shows "dist \<noteq> []" "unv \<subseteq> V" "dist_at dist s = 0" "0 \<le> dist_at dist v" "dist_at dist v \<le> MaxInt32"
    "x \<in> V \<Longrightarrow> x \<notin> unv \<Longrightarrow> y \<in> unv \<Longrightarrow> dist_at dist x \<le> dist_at dist y"
    "x \<in> V \<Longrightarrow> x \<notin> unv \<Longrightarrow> r \<in> set (nbrs x) \<Longrightarrow> r \<in> V \<Longrightarrow> x \<noteq> u \<or> r \<in> N \<Longrightarrow>
       dist_at dist r \<le> dist_at dist x + cost x r"
    "map_of prev r = Some x \<Longrightarrow>
       x \<in> V \<and> x \<notin> unv \<and> r \<in> V \<and> r \<in> set (nbrs x) \<and> dist_at dist x + cost x r = dist_at dist r \<and>
       dist_at dist r < MaxInt32"
    "r \<in> V \<Longrightarrow> map_of prev r = None \<Longrightarrow> r = s \<or> dist_at dist r = MaxInt32"
    "map_of prev s = None" "wf (link_rel prev)"
  using assms unfolding visit_inv_def by (blast+)

lemma relax_step:
  assumes inv: "visit_inv s V nbrs cost unv u N dist prev"
    and le: "\<And>x. x \<in> V \<Longrightarrow> x \<notin> unv \<Longrightarrow> dist_at dist x \<le> dist_at dist u"
    and u: "u \<in> V" "u \<notin> unv" and r: "r \<in> unv" "r \<in> set (nbrs u)"
    and alt: "alt = dist_at dist u + cost u r" "0 \<le> cost u r" "alt < dist_at dist r"
  shows "visit_inv s V nbrs cost unv u (insert r N) (AList.update r alt dist) (AList.update r u prev)"
proof -
  note D = visit_invD [OF inv]
  have alt': "0 \<le> alt" "alt < MaxInt32" "\<And>x. x \<in> V \<Longrightarrow> x \<notin> unv \<Longrightarrow> dist_at dist x \<le> alt"
    using D(4) [of u] D(5) [of r] alt add_increasing2 [OF alt(2) le] by simp_all
  have ne: "r \<noteq> u" "r \<noteq> s"
    using u r alt D(3) alt'(1) by auto
  have "(r, y) \<notin> link_rel prev" for y
    using D(8) r(1) by (auto simp: link_rel_def)
  then have wf: "wf (link_rel (AList.update r u prev))"
    using D(11) ne by (intro link_rel_update) auto
  have edges: "x = u \<and> q \<notin> insert r N \<or>
      dist_at (AList.update r alt dist) q \<le> dist_at (AList.update r alt dist) x + cost x q"
    if "x \<in> V - unv" "q \<in> set (nbrs x) \<inter> V" for x q
    using that D(7) [of x q] alt r by (cases "x = u") auto
  have prevs: "x \<in> V - unv \<and> q \<in> V \<and> q \<in> set (nbrs x) \<and>
      dist_at (AList.update r alt dist) x + cost x q = dist_at (AList.update r alt dist) q \<and>
      dist_at (AList.update r alt dist) q < MaxInt32"
    if "map_of (AList.update r u prev) q = Some x" for q x
    using that D(2) D(8) [of q x] alt alt' r u ne by (auto split: if_splits)
  show ?thesis
    unfolding visit_inv_def
  proof (intro conjI)
    show "AList.update r alt dist \<noteq> []" by (cases dist) auto
    show "unv \<subseteq> V" "wf (link_rel (AList.update r u prev))" using D(2) wf by auto
    show "dist_at (AList.update r alt dist) s = 0" "map_of (AList.update r u prev) s = None"
      using ne D(3,10) by auto
    show "\<forall>v. 0 \<le> dist_at (AList.update r alt dist) v \<and> dist_at (AList.update r alt dist) v \<le> MaxInt32"
      using alt'(1,2) D(4,5) by simp
    show "\<forall>x \<in> V - unv. \<forall>y \<in> unv. dist_at (AList.update r alt dist) x \<le> dist_at (AList.update r alt dist) y"
      using alt'(3) D(6) r(1) by auto
    show "\<forall>q \<in> V. map_of (AList.update r u prev) q = None \<longrightarrow>
        q = s \<or> dist_at (AList.update r alt dist) q = MaxInt32"
      using D(9) by auto
  qed (use edges prevs in blast)+
qed

lemma relax_inv:
  assumes inv: "visit_inv s V nbrs cost unv u N (fst st) (snd st)" and cost: "cost_ok cost"
    and le: "\<forall>x \<in> V - unv. dist_at (fst st) x \<le> dist_at (fst st) u"
    and u: "u \<in> V - unv" and N: "V - unv \<subseteq> N" and r: "r \<in> set (nbrs u)" and unv: "set unvl = unv"
  defines "st' \<equiv> relax cost unvl u r st"
  shows "visit_inv s V nbrs cost unv u (insert r N) (fst st') (snd st') \<and>
         (\<forall>x \<in> V - unv. dist_at (fst st') x \<le> dist_at (fst st') u)"
proof -
  obtain dist prev where st: "st = (dist, prev)" by fastforce
  define alt where "alt = dist_at dist u + cost u r"
  note D = visit_invD [OF inv [unfolded st fst_conv snd_conv]]
  have c: "0 \<le> cost u r" "cost u r < 2 ^ 62" using cost by (auto simp: cost_ok_def)
  have alt: "i64 (dist_at dist u + cost u r) = alt"
    unfolding alt_def using D(4,5) [of u] c by (intro i64_id) auto
  show ?thesis
  proof (cases "r \<in> unv \<and> alt < dist_at dist r")
    case True
    have "visit_inv s V nbrs cost unv u (insert r N) (AList.update r alt dist) (AList.update r u prev)"
      by (rule relax_step [of s V nbrs cost unv u N dist prev])
         (use inv le u r c True in \<open>auto simp: st alt_def\<close>)
    with True le u show ?thesis
      by (auto simp: st'_def st relax_def Let_def unv alt)
  next
    case False
    have "\<not> (u = x \<and> q \<notin> N) \<Longrightarrow> dist_at dist q \<le> dist_at dist x + cost x q"
      if "x \<in> V - unv" "q \<in> set (nbrs x) \<inter> V" for x q
      using that D(7) [of x q] by auto
    moreover have "dist_at dist r \<le> alt \<or> r \<in> N \<or> r \<notin> V" using False N by auto
    ultimately have "visit_inv s V nbrs cost unv u (insert r N) dist prev"
      using inv unfolding visit_inv_def st alt_def fst_conv snd_conv by (auto; metis)
    with False le show ?thesis
      by (auto simp: st'_def st relax_def Let_def unv alt)
  qed
qed

lemma relax_all_inv:
  assumes "visit_inv s V nbrs cost unv u N (fst st) (snd st)" "cost_ok cost"
    and "\<forall>x \<in> V - unv. dist_at (fst st) x \<le> dist_at (fst st) u"
    and "u \<in> V - unv" "V - unv \<subseteq> N" "set rs \<subseteq> set (nbrs u)" "set unvl = unv"
  shows "visit_inv s V nbrs cost unv u (N \<union> set rs)
           (fst (fold (relax cost unvl u) rs st)) (snd (fold (relax cost unvl u) rs st))"
  using assms
proof (induction rs arbitrary: N st)
  case (Cons r rs)
  from Cons.prems have "r \<in> set (nbrs u)" by simp
  note step = relax_inv [OF Cons.prems(1-5) this Cons.prems(7)]
  have "visit_inv s V nbrs cost unv u (insert r N \<union> set rs)
      (fst (fold (relax cost unvl u) rs (relax cost unvl u r st)))
      (snd (fold (relax cost unvl u) rs (relax cost unvl u r st)))"
    using step Cons.prems by (intro Cons.IH) auto
  then show ?case by simp
qed simp

lemma visit_inv_done:
  assumes "visit_inv s V nbrs cost unv u N dist prev" "set (nbrs u) \<subseteq> N"
  shows "search_inv s V nbrs cost unv dist prev"
proof -
  have "\<forall>x \<in> V - unv. \<forall>r \<in> set (nbrs x) \<inter> V. dist_at dist r \<le> dist_at dist x + cost x r"
    using visit_invD(7) [OF assms(1)] assms(2) by blast
  with assms(1) show ?thesis by (simp add: visit_inv_def)
qed

lemma minCost_selects:
  assumes "search_inv s V nbrs cost unv dist prev" "q \<noteq> []"
  shows "\<exists>u. minCost ord q dist = Some u"
proof -
  have "dist_at dist x \<le> MaxInt64" for x
    using visit_invD(5) [OF assms(1), of x] by simp
  moreover have "go_range ord q \<noteq> []"
    using assms(2) by (metis length_0_conv length_go_range)
  then obtain x where "x \<in> set (go_range ord q)" by (cases "go_range ord q") auto
  ultimately have "scan_le (dist_at dist) None MaxInt64 (go_range ord q) \<noteq> None"
    using scan_le_None [of "dist_at dist" None MaxInt64 "go_range ord q"] by (meson leD)
  then show ?thesis
    using visit_invD(1) [OF assms(1)] by (simp add: minCost_def)
qed

text \<open>The loop returns, with nothing left to visit or the destination next in line.\<close>

lemma visit_all_returns:
  assumes "search_inv s V nbrs cost (set unvl) (fst st) (snd st)" "cost_ok cost"
  shows "\<exists>st' unv. visit_all ord nbrs cost d unvl st = Some st' \<and>
    search_inv s V nbrs cost unv (fst st') (snd st') \<and> unv \<subseteq> set unvl \<and>
    (unv = {} \<or> d \<in> unv \<and> (\<forall>x \<in> unv. dist_at (fst st') d \<le> dist_at (fst st') x))"
  using assms
proof (induction ord nbrs cost d unvl st rule: visit_all.induct)
  case (1 ord nbrs cost d unvl st)
  show ?case
  proof (cases "unvl = []")
    case True
    with 1(2) show ?thesis by simp
  next
    case False
    from minCost_selects [OF 1(2) this] obtain u where u: "minCost ord unvl (fst st) = Some u" ..
    note min = minCost_in [OF u]
    show ?thesis
    proof (cases "u = d")
      case True
      with False u min 1(2) show ?thesis
        by (intro exI [of _ st] exI [of _ "set unvl"]) simp
    next
      case ne: False
      let ?unvl = "filter (\<lambda>x. x \<noteq> u) unvl"
      let ?st = "fold (relax cost ?unvl u) (nbrs u) st"
      have set: "set ?unvl = set unvl - {u}" by auto
      have "unvl \<noteq> [] \<Longrightarrow> set unvl \<subseteq> V" using visit_invD(2) [OF 1(2)] by simp
      with False min have uV: "u \<in> V - (set unvl - {u})" by auto
      note start = visit_inv_start [OF 1(2,3), of u]
      have "visit_inv s V nbrs cost (set unvl - {u}) u (V - (set unvl - {u}) \<union> set (nbrs u)) (fst ?st) (snd ?st)"
        using start min uV set 1(3) by (intro relax_all_inv) auto
      then have "search_inv s V nbrs cost (set ?unvl) (fst ?st) (snd ?st)"
        unfolding set by (rule visit_inv_done) simp
      from 1(1) [OF False u ne refl this 1(3)] obtain st' unv where
        "visit_all ord nbrs cost d ?unvl ?st = Some st'" "search_inv s V nbrs cost unv (fst st') (snd st')"
        "unv \<subseteq> set ?unvl" "unv = {} \<or> d \<in> unv \<and> (\<forall>x \<in> unv. dist_at (fst st') d \<le> dist_at (fst st') x)"
        by blast
      then show ?thesis using False u ne by (intro exI [of _ st'] exI [of _ unv]) (auto simp: Let_def)
    qed
  qed
qed

section \<open>Walks\<close>

fun is_walk :: "('r \<Rightarrow> 'r list) \<Rightarrow> 'r set \<Rightarrow> 'r list \<Rightarrow> bool" where
  "is_walk nbrs V [] = False"
| "is_walk nbrs V [v] = (v \<in> V)"
| "is_walk nbrs V (u # r # vs) = (u \<in> V \<and> r \<in> set (nbrs u) \<and> is_walk nbrs V (r # vs))"

fun walk_cost :: "('r \<Rightarrow> 'r \<Rightarrow> int) \<Rightarrow> 'r list \<Rightarrow> int" where
  "walk_cost cost (u # r # vs) = cost u r + walk_cost cost (r # vs)"
| "walk_cost cost vs = 0"

lemma is_walk_snoc:
  "is_walk nbrs V (ns @ [u]) \<Longrightarrow> r \<in> set (nbrs u) \<Longrightarrow> r \<in> V \<Longrightarrow> is_walk nbrs V (ns @ [u, r])"
proof (induction ns)
  case (Cons n ns)
  then show ?case by (cases ns) auto
qed simp

lemma walk_cost_snoc: "walk_cost cost (ns @ [u, r]) = walk_cost cost (ns @ [u]) + cost u r"
proof (induction ns)
  case (Cons n ns)
  then show ?case by (cases ns) auto
qed simp

lemma is_walk_hd: "is_walk nbrs V (v # vs) \<Longrightarrow> v \<in> V"
  by (cases vs) auto

text \<open>A walk out of the source ends at a visited router or passes an unvisited one.\<close>

lemma walk_bound:
  assumes inv: "search_inv s V nbrs cost unv dist prev" and cost: "cost_ok cost"
  shows "is_walk nbrs V (v # vs) \<Longrightarrow>
    v \<notin> unv \<and> dist_at dist v \<le> c \<or> (\<exists>x \<in> unv. dist_at dist x \<le> c) \<Longrightarrow>
    last (v # vs) \<notin> unv \<and> dist_at dist (last (v # vs)) \<le> c + walk_cost cost (v # vs) \<or>
    (\<exists>x \<in> unv. dist_at dist x \<le> c + walk_cost cost (v # vs))"
proof (induction vs arbitrary: v c)
  case (Cons r vs)
  have pos: "0 \<le> cost v r" using cost by (simp add: cost_ok_def)
  have r: "r \<in> V" "r \<in> set (nbrs v)" "v \<in> V"
    using Cons.prems(1) by (auto dest: is_walk_hd)
  have edge: "dist_at dist r \<le> dist_at dist v + cost v r" if "v \<notin> unv"
    using visit_invD(7) [OF inv r(3) that r(2,1)] by simp
  have "r \<notin> unv \<and> dist_at dist r \<le> c + cost v r \<or> (\<exists>x \<in> unv. dist_at dist x \<le> c + cost v r)"
    using Cons.prems(2)
  proof
    assume "v \<notin> unv \<and> dist_at dist v \<le> c"
    with edge have "dist_at dist r \<le> c + cost v r" by linarith
    then show ?thesis by blast
  next
    assume "\<exists>x \<in> unv. dist_at dist x \<le> c"
    with pos show ?thesis by (meson add_increasing2)
  qed
  from Cons.IH [OF _ this] Cons.prems(1) show ?case by (simp add: add.assoc)
qed simp

lemma walk_back_None [simp]: "walk_back prev None acc = Some acc"
  by (simp add: walk_back.simps)

lemma walk_back_Some [simp]: "walk_back prev (Some q) acc = walk_back prev (map_of prev q) (q # acc)"
  by (simp add: walk_back.simps [of prev "Some q"])

lemma walk_back_chain:
  assumes inv: "search_inv s V nbrs cost unv dist prev" and cost: "cost_ok cost"
  shows "\<exists>ns. walk_back prev (map_of prev x) acc = Some (ns @ acc) \<and>
    (\<forall>y \<in> set ns. (y, x) \<in> (link_rel prev)\<^sup>+) \<and> distinct (ns @ [x]) \<and>
    (x \<in> V \<longrightarrow> dist_at dist x < MaxInt32 \<longrightarrow>
       is_walk nbrs V (ns @ [x]) \<and> hd (ns @ [x]) = s \<and> walk_cost cost (ns @ [x]) = dist_at dist x)"
proof (induction x arbitrary: acc rule: wf_induct_rule [OF visit_invD(11) [OF inv]])
  case (1 x)
  note D = visit_invD [OF inv]
  show ?case
  proof (cases "map_of prev x")
    case None
    with D(3) D(9) [of x] show ?thesis by auto
  next
    case (Some u)
    then have ux: "(u, x) \<in> link_rel prev" by (simp add: link_rel_def)
    from 1 [OF this, of "u # acc"] obtain ns where
      ns: "walk_back prev (map_of prev u) (u # acc) = Some (ns @ u # acc)"
        "\<forall>y \<in> set ns. (y, u) \<in> (link_rel prev)\<^sup>+" "distinct (ns @ [u])"
        "u \<in> V \<longrightarrow> dist_at dist u < MaxInt32 \<longrightarrow>
           is_walk nbrs V (ns @ [u]) \<and> hd (ns @ [u]) = s \<and> walk_cost cost (ns @ [u]) = dist_at dist u"
      by blast
    have before: "\<forall>y \<in> set (ns @ [u]). (y, x) \<in> (link_rel prev)\<^sup>+"
      using ns(2) ux by auto
    then have "x \<notin> set (ns @ [u])"
      using wf_not_refl [OF wf_trancl [OF D(11)]] by metis
    moreover have "0 \<le> cost u x" using cost by (simp add: cost_ok_def)
    ultimately show ?thesis
      using Some ns before D(8) [OF Some] is_walk_snoc [of nbrs V ns u x] walk_cost_snoc [of cost ns u x]
      by (intro exI [of _ "ns @ [u]"]) (auto simp: hd_append)
  qed
qed

section \<open>The search finds a cheapest walk\<close>

definition search_init :: "'r \<Rightarrow> 'r list \<Rightarrow> 'r dist \<times> 'r prev" where
  "search_init s rs = (AList.update s 0 (map (\<lambda>r. (r, MaxInt32)) rs), [])"

lemma search_init_dist:
  "dist_at (fst (search_init s rs)) v = (if v = s then 0 else if v \<in> set rs then MaxInt32 else 0)"
  by (auto simp: search_init_def lookup0_def map_of_map_restrict [of "\<lambda>_. MaxInt32"] restrict_map_def)

lemma search_init_inv:
  "search_inv s (set rs) nbrs cost (set rs) (fst (search_init s rs)) (snd (search_init s rs))"
proof -
  have "fst (search_init s rs) \<noteq> []"
    by (cases rs) (auto simp: search_init_def)
  moreover have "snd (search_init s rs) = []" "link_rel (snd (search_init s rs)) = {}"
    by (auto simp: search_init_def link_rel_def)
  ultimately show ?thesis
    by (auto simp: visit_inv_def search_init_dist)
qed

lemma search_correct:
  assumes cost: "cost_ok cost" and ne: "s \<noteq> d"
  shows "\<exists>dist prev ns. visit_all ord nbrs cost d rs (search_init s rs) = Some (dist, prev) \<and>
    walk_back prev (map_of prev d) [] = Some ns \<and>
    (hd (ns @ [d]) = s \<longrightarrow> is_walk nbrs (set rs) (ns @ [d]) \<and> distinct (ns @ [d]) \<and>
       walk_cost cost (ns @ [d]) = dist_at dist d \<and> dist_at dist d < MaxInt32) \<and>
    (\<forall>vs. is_walk nbrs (set rs) vs \<longrightarrow> hd vs = s \<longrightarrow> last vs = d \<longrightarrow>
       (if hd (ns @ [d]) = s then dist_at dist d else MaxInt32) \<le> walk_cost cost vs)"
proof -
  from visit_all_returns [OF search_init_inv cost] obtain dist prev unv where
    run: "visit_all ord nbrs cost d rs (search_init s rs) = Some (dist, prev)"
    and inv: "search_inv s (set rs) nbrs cost unv dist prev"
    and fin: "unv = {} \<or> d \<in> unv \<and> (\<forall>x \<in> unv. dist_at dist d \<le> dist_at dist x)"
    by (metis prod.collapse)
  note D = visit_invD [OF inv]
  from walk_back_chain [OF inv cost, of d "[]"] obtain ns where
    ns: "walk_back prev (map_of prev d) [] = Some ns" "distinct (ns @ [d])"
      "d \<in> set rs \<longrightarrow> dist_at dist d < MaxInt32 \<longrightarrow> is_walk nbrs (set rs) (ns @ [d]) \<and>
         hd (ns @ [d]) = s \<and> walk_cost cost (ns @ [d]) = dist_at dist d"
    by auto
  have reached: "d \<in> set rs \<and> dist_at dist d < MaxInt32" if "hd (ns @ [d]) = s"
  proof (cases "map_of prev d")
    case None
    with ns(1) that ne show ?thesis by simp
  qed (use D(8) in blast)
  have bound: "dist_at dist d \<le> walk_cost cost vs"
    if vs: "is_walk nbrs (set rs) vs" "hd vs = s" "last vs = d" for vs
  proof -
    obtain ws where w: "vs = s # ws" using vs by (cases vs) auto
    with vs have "s \<in> set rs" by (simp add: is_walk_hd)
    with D(3) have "s \<notin> unv \<and> dist_at dist s \<le> 0 \<or> (\<exists>x \<in> unv. dist_at dist x \<le> 0)"
      by (metis order_refl)
    from walk_bound [OF inv cost vs(1) [unfolded w] this] vs(3) w fin show ?thesis
      by (auto intro: order_trans)
  qed
  have "MaxInt32 \<le> dist_at dist d" if "hd (ns @ [d]) \<noteq> s" "d \<in> set rs"
    using that ns(3) by (meson leI)
  moreover have "d \<in> set rs" if "is_walk nbrs (set rs) vs" "last vs = d" for vs
    using that by (induction nbrs "set rs" vs rule: is_walk.induct) auto
  ultimately show ?thesis
    using run ns reached bound by (intro exI [of _ dist] exI [of _ prev] exI [of _ ns]) (auto intro: order_trans)
qed

lemma walk_cost_nonneg: "cost_ok cost \<Longrightarrow> 0 \<le> walk_cost cost vs"
  by (induction cost vs rule: walk_cost.induct) (auto simp: cost_ok_def)

lemma walk_cost_edge:
  assumes "cost_ok cost"
  shows "r \<in> set vs \<Longrightarrow> \<exists>u. cost u r \<le> walk_cost cost (v # vs)"
proof (induction vs arbitrary: v)
  case (Cons x vs)
  have pos: "0 \<le> cost v x" "0 \<le> walk_cost cost (x # vs)"
    using assms walk_cost_nonneg [OF assms] by (auto simp: cost_ok_def)
  show ?case
  proof (cases "r = x")
    case True
    with pos(2) show ?thesis by (intro exI [of _ v]) simp
  next
    case False
    with Cons obtain u where "cost u r \<le> walk_cost cost (x # vs)" by auto
    with pos(1) show ?thesis by (intro exI [of _ u]) simp
  qed
qed simp

end
