(* ===== verification/Routing.thy ===== *)
theory Routing
  imports Link_Index Shortest_Path
begin

text \<open>
  Path calculation (\<open>controller/network/network_path.go\<close>, parts of \<open>network.go\<close>) and the
  path object (\<open>controller/model/path.go\<close>): the cost of an edge, the shortest path between two
  routers, the links along a list of routers, new and updated paths, and the route messages
  that install a path at its routers.

  The outer option of a result is None where the Go code would panic or not return.
  Generated ids are arguments; None stands for an id generation error.
\<close>

section \<open>Paths\<close>

record Path =
  Nodes :: "router_ref list"
  Links :: "link_ref list"
  IngressId :: string
  EgressId :: string
  InitiatorLocalAddr :: string
  InitiatorRemoteAddr :: string
  TerminatorLocalAddr :: string
  TerminatorRemoteAddr :: string

datatype path_error =
    NotRoutable
  | CantRoute router_ref router_ref
  | DestinationUnreachable router_ref router_ref
  | NoLink router_ref router_ref
  | IdGenerationFailed

datatype CircuitFailureCause =
    CircuitFailureInvalidService | CircuitFailureIdGenerationError | CircuitFailureNoTerminators
  | CircuitFailureNoOnlineTerminators | CircuitFailureNoPath | CircuitFailurePathMissingLink
  | CircuitFailureInvalidStrategy | CircuitFailureStrategyError
  | CircuitFailureRouterResponseTimeout | CircuitFailureRouterErrGeneric
  | CircuitFailureRouterErrInvalidTerminator | CircuitFailureRouterErrMisconfiguredTerminator
  | CircuitFailureRouterErrDialTimedOut | CircuitFailureRouterErrDialConnRefused

definition router_cost :: "net \<Rightarrow> 16 word \<Rightarrow> router_ref \<Rightarrow> int" where
  "router_cost n minRouterCost r = uint (max (r_cost (routers n r)) minRouterCost)"

definition Path_Cost :: "net \<Rightarrow> 16 word \<Rightarrow> Path \<Rightarrow> int" where
  "Path_Cost n minRouterCost p =
     fold (\<lambda>r c. i64 (c + router_cost n minRouterCost r)) (Nodes p)
       (fold (\<lambda>l c. i64 (c + l_cost (links n l))) (Links p) 0)"

definition EqualPath :: "Path \<Rightarrow> Path \<Rightarrow> bool" where
  "EqualPath p q =
     (if length (Nodes p) \<noteq> length (Nodes q) then False
      else if length (Links p) \<noteq> length (Links q) then False
      else if \<exists>i \<in> set [0..<length (Nodes p)]. Nodes p ! i \<noteq> Nodes q ! i then False
      else if \<exists>i \<in> set [0..<length (Links p)]. Links p ! i \<noteq> Links q ! i then False
      else True)"

definition EgressRouter :: "Path \<Rightarrow> router_ref option" where
  "EgressRouter p = (if Nodes p \<noteq> [] then Some (Nodes p ! (length (Nodes p) - 1)) else None)"

definition UsesLink :: "Path \<Rightarrow> link_ref \<Rightarrow> bool" where
  "UsesLink p l = (\<exists>x \<in> set (Links p). x = l)"

section \<open>Shortest paths\<close>

definition edge_cost :: "net \<Rightarrow> 16 word \<Rightarrow> router_ref \<Rightarrow> router_ref \<Rightarrow> router_ref \<Rightarrow> router_ref \<Rightarrow> int" where
  "edge_cost n minRouterCost srcR dstR u r =
     (case LeastExpensiveLink n r u of
        None \<Rightarrow> MaxInt32 + 1
      | Some l \<Rightarrow>
          if \<not> r_noTraversal (routers n r) \<or> r = srcR \<or> r = dstR
          then i64 (l_cost (links n l) + router_cost n minRouterCost r)
          else MaxInt32 + 1)"

definition shortestPath ::
  "(router_ref list \<Rightarrow> router_ref list) \<Rightarrow> net \<Rightarrow> 16 word \<Rightarrow> router_ref option \<Rightarrow> router_ref option \<Rightarrow>
   (path_error + router_ref list \<times> int) option" where
  "shortestPath ord n minRouterCost src dst =
     (case (src, dst) of
        (Some srcR, Some dstR) \<Rightarrow>
          if srcR = dstR then Some (Inr ([srcR], 0))
          else
            (case visit_all ord (ConnectedNeighborsOfRouter ord n) (edge_cost n minRouterCost srcR dstR)
                    dstR (remdups (AllConnected n)) (search_init srcR (remdups (AllConnected n))) of
               None \<Rightarrow> None
             | Some (dist, prev) \<Rightarrow>
                 (case walk_back prev (map_of prev dstR) [] of
                    None \<Rightarrow> None
                  | Some ns \<Rightarrow>
                      let routerPath = ns @ [dstR] in
                      if hd routerPath \<noteq> srcR then Some (Inl (CantRoute srcR dstR))
                      else if last routerPath \<noteq> dstR then Some (Inl (DestinationUnreachable srcR dstR))
                      else Some (Inr (routerPath, dist_at dist dstR))))
      | _ \<Rightarrow> Some (Inl NotRoutable))"

fun setLinks_loop :: "net \<Rightarrow> router_ref list \<Rightarrow> link_ref list \<Rightarrow> path_error + link_ref list" where
  "setLinks_loop n (a # b # rs) ls =
     (case LeastExpensiveLink n a b of
        Some l \<Rightarrow> setLinks_loop n (b # rs) (ls @ [l])
      | None \<Rightarrow> Inl (NoLink a b))"
| "setLinks_loop n rs ls = Inr ls"

definition setLinks :: "net \<Rightarrow> Path \<Rightarrow> path_error + Path" where
  "setLinks n p =
     (case setLinks_loop n (Nodes p) (Links p) of
        Inl e \<Rightarrow> Inl e
      | Inr ls \<Rightarrow> Inr (p\<lparr>Links := ls\<rparr>))"

definition CreatePathWithNodes ::
  "net \<Rightarrow> string option \<Rightarrow> string option \<Rightarrow> router_ref list \<Rightarrow> (CircuitFailureCause \<times> path_error) + Path" where
  "CreatePathWithNodes n ingress egress nodes =
     (case ingress of
        None \<Rightarrow> Inl (CircuitFailureIdGenerationError, IdGenerationFailed)
      | Some ingressId \<Rightarrow>
          (case egress of
             None \<Rightarrow> Inl (CircuitFailureIdGenerationError, IdGenerationFailed)
           | Some egressId \<Rightarrow>
               (case setLinks n \<lparr>Nodes = nodes, Links = [], IngressId = ingressId, EgressId = egressId,
                       InitiatorLocalAddr = '''', InitiatorRemoteAddr = '''',
                       TerminatorLocalAddr = '''', TerminatorRemoteAddr = ''''\<rparr> of
                  Inl e \<Rightarrow> Inl (CircuitFailurePathMissingLink, e)
                | Inr p \<Rightarrow> Inr p)))"

definition UpdatePath ::
  "(router_ref list \<Rightarrow> router_ref list) \<Rightarrow> net \<Rightarrow> 16 word \<Rightarrow> Path \<Rightarrow> (path_error + Path) option" where
  "UpdatePath ord n minRouterCost p =
     (if Nodes p = [] then None
      else
        let srcR = hd (Nodes p); dstR = last (Nodes p) in
        case shortestPath ord n minRouterCost (Some srcR) (Some dstR) of
          None \<Rightarrow> None
        | Some (Inl e) \<Rightarrow> Some (Inl e)
        | Some (Inr (nodes, cost)) \<Rightarrow> Some (setLinks n (p\<lparr>Nodes := nodes, Links := []\<rparr>)))"

definition CreatePath ::
  "(router_ref list \<Rightarrow> router_ref list) \<Rightarrow> net \<Rightarrow> 16 word \<Rightarrow> string option \<Rightarrow> string option \<Rightarrow>
   router_ref \<Rightarrow> router_ref \<Rightarrow> (path_error + Path) option" where
  "CreatePath ord n minRouterCost ingress egress srcR dstR =
     (case ingress of
        None \<Rightarrow> Some (Inl IdGenerationFailed)
      | Some ingressId \<Rightarrow>
          (case egress of
             None \<Rightarrow> Some (Inl IdGenerationFailed)
           | Some egressId \<Rightarrow>
               UpdatePath ord n minRouterCost
                 \<lparr>Nodes = [srcR, dstR], Links = [], IngressId = ingressId, EgressId = egressId,
                  InitiatorLocalAddr = '''', InitiatorRemoteAddr = '''',
                  TerminatorLocalAddr = '''', TerminatorRemoteAddr = ''''\<rparr>))"

section \<open>Route messages\<close>

datatype DestType = Start | End | Link

record Forward =
  SrcAddress :: string
  DstAddress :: string
  DstType :: DestType

record Egress =
  Binding :: string
  Address :: string
  Destination :: string

record Route =
  rt_circuitId :: string
  rt_attempt :: "32 word"
  rt_timeout :: "64 word"
  rt_forwards :: "Forward list"
  rt_egress :: "Egress option"

definition SmartRerouteAttempt :: "32 word" where
  "SmartRerouteAttempt = 99969996"

text \<open>The terminator's binding and address, and the time left until the deadline, are arguments.\<close>

definition CreateRouteMessages ::
  "net \<Rightarrow> Path \<Rightarrow> 32 word \<Rightarrow> string \<Rightarrow> string \<Rightarrow> string \<Rightarrow> int \<Rightarrow> Route list" where
  "CreateRouteMessages n path attempt circuitId binding address remainingTime =
     (let routeMessage = \<lparr>rt_circuitId = circuitId, rt_attempt = attempt,
            rt_timeout = word_of_int remainingTime, rt_forwards = [], rt_egress = None\<rparr>;
          egress = \<lparr>Binding = binding, Address = EgressId path, Destination = address\<rparr>;
          linkId = (\<lambda>i. l_id (links n (Links path ! i)));
          len = length (Links path)
      in (if len = 0
          then [routeMessage\<lparr>rt_forwards :=
                  [\<lparr>SrcAddress = IngressId path, DstAddress = EgressId path, DstType = End\<rparr>,
                   \<lparr>SrcAddress = EgressId path, DstAddress = IngressId path, DstType = Start\<rparr>],
                  rt_egress := Some egress\<rparr>]
          else []) @
         concat (map (\<lambda>i.
           (if i = 0
            then [routeMessage\<lparr>rt_forwards :=
                    [\<lparr>SrcAddress = IngressId path, DstAddress = linkId i, DstType = Link\<rparr>,
                     \<lparr>SrcAddress = linkId i, DstAddress = IngressId path, DstType = Start\<rparr>]\<rparr>]
            else []) @
           (if i < len - 1
            then [routeMessage\<lparr>rt_forwards :=
                    [\<lparr>SrcAddress = linkId i, DstAddress = linkId (i + 1), DstType = Link\<rparr>,
                     \<lparr>SrcAddress = linkId (i + 1), DstAddress = linkId i, DstType = Link\<rparr>]\<rparr>]
            else []) @
           (if i = len - 1
            then [routeMessage\<lparr>
                    rt_egress := (if attempt \<noteq> SmartRerouteAttempt then Some egress else None),
                    rt_forwards :=
                    [\<lparr>SrcAddress = EgressId path, DstAddress = linkId i, DstType = Link\<rparr>,
                     \<lparr>SrcAddress = linkId i, DstAddress = EgressId path, DstType = End\<rparr>]\<rparr>]
            else [])) [0..<len]))"

section \<open>The link queries as an interface\<close>

text \<open>
  What path calculation relies on: a query for the least expensive link between two routers
  that selects among candidates.
\<close>

locale link_query =
  fixes least :: "'r \<Rightarrow> 'r \<Rightarrow> 'l option"
    and candidate :: "'r \<Rightarrow> 'r \<Rightarrow> 'l \<Rightarrow> bool"
    and lcost :: "'l \<Rightarrow> int"
  assumes least_candidate: "least a b = Some l \<Longrightarrow> candidate a b l"
    and least_minimal: "least a b = Some l \<Longrightarrow> candidate a b k \<Longrightarrow> lcost l \<le> lcost k"
    and least_none: "least a b = None \<Longrightarrow> candidate a b k \<Longrightarrow> MaxInt64 \<le> lcost k"
begin

lemma least_same_cost:
  assumes "\<And>k. candidate a b k \<longleftrightarrow> candidate c d k" "least a b = Some l" "lcost l < MaxInt64"
  shows "\<exists>k. least c d = Some k \<and> lcost k = lcost l"
proof (cases "least c d")
  case None
  then show ?thesis
    using assms least_candidate [OF assms(2)] least_none [OF None, of l] by simp
next
  case (Some k)
  then have "lcost k = lcost l"
    using assms least_candidate [OF assms(2)] least_candidate [OF Some]
      least_minimal [OF assms(2), of k] least_minimal [OF Some, of l] by simp
  with Some show ?thesis by blast
qed

lemma least_defined: "candidate a b k \<Longrightarrow> lcost k < MaxInt64 \<Longrightarrow> \<exists>l. least a b = Some l"
  using least_none [of a b k] by (cases "least a b") auto

end

definition candidate_link :: "net \<Rightarrow> router_ref \<Rightarrow> router_ref \<Rightarrow> link_ref \<Rightarrow> bool" where
  "candidate_link n a b l \<longleftrightarrow> l \<in> byOf n a (r_id (routers n b)) \<and> joins_router n (r_id (routers n b)) l"

interpretation link_manager: link_query "LeastExpensiveLink n" "candidate_link n" "\<lambda>l. l_cost (links n l)"
  for n
proof
  show "candidate_link n a b l" if "LeastExpensiveLink n a b = Some l" for a b l
    using LeastExpensiveLink_Some [OF that] by (simp add: candidate_link_def)
  show "l_cost (links n l) \<le> l_cost (links n k)"
    if "LeastExpensiveLink n a b = Some l" "candidate_link n a b k" for a b l k
    using LeastExpensiveLink_least [OF that(1)] that(2) by (simp add: candidate_link_def)
  show "MaxInt64 \<le> l_cost (links n k)"
    if "LeastExpensiveLink n a b = None" "candidate_link n a b k" for a b k
    using that LeastExpensiveLink_None by (auto simp: candidate_link_def)
qed

text \<open>
  Between two connected routers both ends have the same candidates, except while a router
  that reconnected still has links of its old connection in the table.
\<close>

definition settled :: "net \<Rightarrow> bool" where
  "settled n \<longleftrightarrow> (\<forall>l \<in> set (LinkManager_All n). l_src (links n l) \<in> set (AllConnected n))"

lemma AllConnected_current:
  assumes "net_inv n" "u \<in> set (AllConnected n)"
  shows "map_of (connected n) (r_id (routers n u)) = Some u" "r_connected (routers n u)"
proof -
  from AllConnected_ran [OF assms] obtain i where i: "map_of (connected n) i = Some u"
    by (auto simp: ran_def)
  have "connected_inv n" using assms(1) by (simp add: net_inv_def)
  from connected_invD [OF this i] i
  show "map_of (connected n) (r_id (routers n u)) = Some u" "r_connected (routers n u)" by simp_all
qed

lemma candidate_link_sym:
  assumes inv: "index_inv n" and "settled n" and a: "a \<in> set (AllConnected n)" and b: "b \<in> set (AllConnected n)"
    and l: "candidate_link n a b l"
  shows "candidate_link n b a l"
proof -
  have net: "net_inv n" and "key_inv n" using inv by (simp_all add: index_inv_def)
  from l have mem: "l \<in> byOf n a (r_id (routers n b))" and use: "l_usable (links n l)"
    by (simp_all add: candidate_link_def joins_router_def)
  with \<open>key_inv n\<close> have "key_ok n a (r_id (routers n b)) l" "l \<in> allOf n a"
    unfolding key_inv_def by blast+
  have "a \<in> ran (map_of (connected n))" by (rule AllConnected_ran [OF net a])
  with \<open>l \<in> allOf n a\<close> inv have tab: "map_of (linkTable n) (l_id (links n l)) = Some l"
    by (auto simp: index_inv_def live_inv_def)
  then have src: "l \<in> byOf n (l_src (links n l)) (l_dstId (links n l))"
    using table_invD(4) [of n, OF _ tab] net by (simp add: net_inv_def indexed_def)
  note cur = AllConnected_current [OF net]
  from \<open>key_ok n a (r_id (routers n b)) l\<close> show ?thesis
    unfolding key_ok_def
  proof
    assume "a = l_src (links n l) \<and> r_id (routers n b) = l_dstId (links n l)"
    moreover from this have "l_dst (links n l) = Some b"
      using inv tab cur(1) [OF b] by (auto simp: index_inv_def target_inv_def)
    then have "l \<in> byOf n b (srcId n l)"
      using inv tab cur(2) [OF b] by (auto simp: index_inv_def dst_inv_def)
    ultimately show ?thesis using use by (simp add: candidate_link_def joins_router_def)
  next
    assume ids: "r_id (routers n a) = l_dstId (links n l) \<and> r_id (routers n b) = srcId n l"
    have "l_src (links n l) \<in> set (AllConnected n)"
      using assms(2) tab by (simp add: settled_def All_table [OF net])
    from cur(1) [OF this] cur(1) [OF b] ids have "l_src (links n l) = b" by simp
    then show ?thesis using src ids use by (simp add: candidate_link_def joins_router_def)
  qed
qed

section \<open>What the shortest path is\<close>

definition costs_bounded :: "net \<Rightarrow> bool" where
  "costs_bounded n \<longleftrightarrow>
     (\<forall>l \<in> set [0..<nextLink n]. 0 \<le> l_cost (links n l) \<and> l_cost (links n l) < 2 ^ 61)"

lemma router_cost_range: "0 \<le> router_cost n m r \<and> router_cost n m r < 65536"
  using uint_lt2p [of "max (r_cost (routers n r)) m"] by (simp add: router_cost_def)

lemma least_allocated:
  assumes "index_inv n" "LeastExpensiveLink n a b = Some l"
  shows "l < nextLink n"
proof -
  have "key_inv n" using assms(1) by (simp add: index_inv_def)
  with LeastExpensiveLink_Some(1) [OF assms(2)] show ?thesis unfolding key_inv_def by blast
qed

lemma least_cost_range:
  assumes "index_inv n" "costs_bounded n" "LeastExpensiveLink n a b = Some l"
  shows "0 \<le> l_cost (links n l) \<and> l_cost (links n l) < 2 ^ 61"
  using assms(2) least_allocated [OF assms(1,3)] by (simp add: costs_bounded_def)

lemma edge_cost_Some:
  assumes "index_inv n" "costs_bounded n" "LeastExpensiveLink n r u = Some l"
  shows "edge_cost n m s d u r =
    (if \<not> r_noTraversal (routers n r) \<or> r = s \<or> r = d then l_cost (links n l) + router_cost n m r
     else MaxInt32 + 1)"
  using least_cost_range [OF assms] router_cost_range [of n m r] assms(3)
  by (simp add: edge_cost_def i64_id)

lemma edge_cost_cases:
  assumes "index_inv n" "costs_bounded n"
  obtains "edge_cost n m s d u r = MaxInt32 + 1"
    | l where "LeastExpensiveLink n r u = Some l" "\<not> r_noTraversal (routers n r) \<or> r = s \<or> r = d"
      "edge_cost n m s d u r = l_cost (links n l) + router_cost n m r"
      "0 \<le> l_cost (links n l)" "l_cost (links n l) < 2 ^ 61"
  using edge_cost_Some [OF assms, of r u _ m s d] least_cost_range [OF assms, of r u]
  by (cases "LeastExpensiveLink n r u") (auto simp: edge_cost_def split: if_splits)

lemma cost_ok_edge_cost:
  assumes "index_inv n" "costs_bounded n"
  shows "cost_ok (edge_cost n m s d)"
  unfolding cost_ok_def
proof (intro allI)
  fix u r
  show "0 \<le> edge_cost n m s d u r \<and> edge_cost n m s d u r < 2 ^ 62"
    using router_cost_range [of n m r] by (cases rule: edge_cost_cases [OF assms, of m s d u r]) auto
qed

abbreviation route_walk :: "(router_ref list \<Rightarrow> router_ref list) \<Rightarrow> net \<Rightarrow> router_ref list \<Rightarrow> bool" where
  "route_walk ord n \<equiv> is_walk (ConnectedNeighborsOfRouter ord n) (set (AllConnected n))"

lemma shortestPath_result:
  assumes "index_inv n" "costs_bounded n" "s \<noteq> d"
  obtains (found) nodes c where "shortestPath ord n m (Some s) (Some d) = Some (Inr (nodes, c))"
      "route_walk ord n nodes" "hd nodes = s" "last nodes = d" "distinct nodes"
      "c = walk_cost (edge_cost n m s d) nodes" "c < MaxInt32"
      "\<And>vs. route_walk ord n vs \<Longrightarrow> hd vs = s \<Longrightarrow> last vs = d \<Longrightarrow> c \<le> walk_cost (edge_cost n m s d) vs"
    | (none) "shortestPath ord n m (Some s) (Some d) = Some (Inl (CantRoute s d))"
      "\<And>vs. route_walk ord n vs \<Longrightarrow> hd vs = s \<Longrightarrow> last vs = d \<Longrightarrow> MaxInt32 \<le> walk_cost (edge_cost n m s d) vs"
proof -
  from search_correct [OF cost_ok_edge_cost [OF assms(1,2), of m s d] assms(3),
      of ord "ConnectedNeighborsOfRouter ord n" "remdups (AllConnected n)"]
  obtain dist prev ns where
    run: "visit_all ord (ConnectedNeighborsOfRouter ord n) (edge_cost n m s d) d
            (remdups (AllConnected n)) (search_init s (remdups (AllConnected n))) = Some (dist, prev)"
      "walk_back prev (map_of prev d) [] = Some ns"
    and good: "hd (ns @ [d]) = s \<longrightarrow> route_walk ord n (ns @ [d]) \<and> distinct (ns @ [d]) \<and>
       walk_cost (edge_cost n m s d) (ns @ [d]) = dist_at dist d \<and> dist_at dist d < MaxInt32"
    and best: "\<And>vs. route_walk ord n vs \<Longrightarrow> hd vs = s \<Longrightarrow> last vs = d \<Longrightarrow>
       (if hd (ns @ [d]) = s then dist_at dist d else MaxInt32) \<le> walk_cost (edge_cost n m s d) vs"
    by (auto simp only: set_remdups)
  show ?thesis
  proof (cases "hd (ns @ [d]) = s")
    case True
    with run assms(3) have "shortestPath ord n m (Some s) (Some d) = Some (Inr (ns @ [d], dist_at dist d))"
      by (simp add: shortestPath_def Let_def)
    with True good best show ?thesis by (intro found) auto
  next
    case False
    with run assms(3) have "shortestPath ord n m (Some s) (Some d) = Some (Inl (CantRoute s d))"
      by (simp add: shortestPath_def Let_def)
    with False best show ?thesis by (intro none) auto
  qed
qed

lemma no_traversal:
  assumes inv: "index_inv n" "costs_bounded n"
    and cost: "walk_cost (edge_cost n m s d) nodes < MaxInt32" and r: "r \<in> set nodes" "hd nodes = s" "r \<noteq> s" "r \<noteq> d"
  shows "\<not> r_noTraversal (routers n r)"
proof -
  from r obtain ns where ns: "nodes = s # ns" "r \<in> set ns" by (cases nodes) auto
  from walk_cost_edge [OF cost_ok_edge_cost [OF inv] this(2), of m s d s] obtain u
    where "edge_cost n m s d u r \<le> walk_cost (edge_cost n m s d) nodes"
    using ns by auto
  then have "edge_cost n m s d u r < MaxInt32" using cost by simp
  then show ?thesis
    using r by (cases rule: edge_cost_cases [OF inv, of m s d u r]) auto
qed

section \<open>The links and the cost of a path\<close>

lemma fold_i64_sum:
  assumes "\<And>x. x \<in> set xs \<Longrightarrow> 0 \<le> f x" "0 \<le> c" "c + sum_list (map f xs) < 2 ^ 63"
  shows "fold (\<lambda>x c. i64 (c + f x)) xs c = c + sum_list (map f xs)"
  using assms
proof (induction xs arbitrary: c)
  case (Cons x xs)
  have "0 \<le> sum_list (map f xs)" using Cons.prems(1) by (intro sum_list_nonneg) auto
  moreover have "0 \<le> f x" using Cons.prems(1) by simp
  ultimately have "i64 (c + f x) = c + f x" using Cons.prems(2,3) by (intro i64_id) simp_all
  then show ?case using Cons by (simp add: add.assoc)
qed simp

text \<open>The links \<open>setLinks\<close> picks along a cheap walk: each joins its two routers.\<close>

definition links_join :: "net \<Rightarrow> router_ref list \<Rightarrow> link_ref list \<Rightarrow> bool" where
  "links_join n vs ls \<longleftrightarrow>
     Suc (length ls) = length vs \<and> (\<forall>i < length ls. candidate_link n (vs ! i) (vs ! Suc i) (ls ! i))"

lemma setLinks_loop_joins:
  "setLinks_loop n vs acc = Inr ls \<Longrightarrow> vs \<noteq> [] \<Longrightarrow> \<exists>ls'. ls = acc @ ls' \<and> links_join n vs ls'"
proof (induction n vs acc rule: setLinks_loop.induct)
  case (1 n a b rs acc)
  from 1(2) obtain l where l: "LeastExpensiveLink n a b = Some l"
    and rest: "setLinks_loop n (b # rs) (acc @ [l]) = Inr ls" by (auto split: option.splits)
  from 1(1) [OF l rest] obtain ls' where "ls = (acc @ [l]) @ ls'" "links_join n (b # rs) ls'" by auto
  moreover have "candidate_link n a b l" by (rule link_manager.least_candidate [OF l])
  ultimately show ?case
    by (intro exI [of _ "l # ls'"]) (auto simp: links_join_def nth_Cons split: nat.splits)
qed (auto simp: links_join_def)

lemma setLinks_walk:
  assumes inv: "index_inv n" "costs_bounded n" "settled n"
  shows "route_walk ord n (v # vs) \<Longrightarrow> set vs \<subseteq> set (AllConnected n) \<Longrightarrow>
    walk_cost (edge_cost n m s d) (v # vs) < MaxInt32 \<Longrightarrow>
    \<exists>ls. setLinks_loop n (v # vs) acc = Inr (acc @ ls) \<and> (\<forall>l \<in> set ls. 0 \<le> l_cost (links n l)) \<and>
      sum_list (map (\<lambda>l. l_cost (links n l)) ls) + sum_list (map (router_cost n m) vs) =
      walk_cost (edge_cost n m s d) (v # vs)"
proof (induction vs arbitrary: v acc)
  case (Cons r vs)
  have con: "v \<in> set (AllConnected n)" "r \<in> set (AllConnected n)"
    using Cons.prems(1,2) by auto
  have "0 \<le> walk_cost (edge_cost n m s d) (r # vs)" "0 \<le> edge_cost n m s d v r"
    using cost_ok_edge_cost [OF inv(1,2), of m s d] walk_cost_nonneg by (auto simp: cost_ok_def)
  with Cons.prems(3) have lt: "walk_cost (edge_cost n m s d) (r # vs) < MaxInt32"
    "edge_cost n m s d v r < MaxInt32" by auto
  from edge_cost_cases [OF inv(1,2), of m s d v r] lt(2) obtain k where
    k: "LeastExpensiveLink n r v = Some k" "0 \<le> l_cost (links n k)" "l_cost (links n k) < 2 ^ 61"
      "edge_cost n m s d v r = l_cost (links n k) + router_cost n m r"
    by (metis add_less_cancel_left less_add_one less_asym)
  have "candidate_link n r v x \<longleftrightarrow> candidate_link n v r x" for x
    using candidate_link_sym [OF inv(1,3)] con by blast
  from link_manager.least_same_cost [OF this k(1)] k(3) obtain l where
    l: "LeastExpensiveLink n v r = Some l" "l_cost (links n l) = l_cost (links n k)" by auto
  from Cons.IH [of r "acc @ [l]"] Cons.prems(1,2) lt(1) obtain ls where
    "setLinks_loop n (r # vs) (acc @ [l]) = Inr ((acc @ [l]) @ ls)" "\<forall>l \<in> set ls. 0 \<le> l_cost (links n l)"
    "sum_list (map (\<lambda>l. l_cost (links n l)) ls) + sum_list (map (router_cost n m) vs) =
      walk_cost (edge_cost n m s d) (r # vs)" by auto
  with l k show ?case by (intro exI [of _ "l # ls"]) auto
qed simp

lemma UpdatePath_cost:
  assumes inv: "index_inv n" "costs_bounded n" "settled n"
    and walk: "route_walk ord n (s # vs)" "set vs \<subseteq> set (AllConnected n)"
      "walk_cost (edge_cost n m s d) (s # vs) < MaxInt32"
  shows "\<exists>ls. setLinks n (p\<lparr>Nodes := s # vs, Links := []\<rparr>) = Inr (p\<lparr>Nodes := s # vs, Links := ls\<rparr>) \<and>
    links_join n (s # vs) ls \<and>
    Path_Cost n m (p\<lparr>Nodes := s # vs, Links := ls\<rparr>) = walk_cost (edge_cost n m s d) (s # vs) + router_cost n m s"
proof -
  from setLinks_walk [OF inv walk, of "[]"] obtain ls where
    ls: "setLinks_loop n (s # vs) [] = Inr ls" "\<forall>l \<in> set ls. 0 \<le> l_cost (links n l)"
    "sum_list (map (\<lambda>l. l_cost (links n l)) ls) + sum_list (map (router_cost n m) vs) =
      walk_cost (edge_cost n m s d) (s # vs)" by auto
  have rc: "0 \<le> router_cost n m r" "router_cost n m r < 65536" for r using router_cost_range by auto
  have nonneg: "0 \<le> sum_list (map (router_cost n m) vs)" "0 \<le> sum_list (map (\<lambda>l. l_cost (links n l)) ls)"
    using rc ls(2) by (auto intro!: sum_list_nonneg)
  have "fold (\<lambda>l c. i64 (c + l_cost (links n l))) ls 0 = 0 + sum_list (map (\<lambda>l. l_cost (links n l)) ls)"
    using ls walk(3) nonneg by (intro fold_i64_sum) auto
  moreover have "fold (\<lambda>r c. i64 (c + router_cost n m r)) (s # vs) (sum_list (map (\<lambda>l. l_cost (links n l)) ls)) =
      sum_list (map (\<lambda>l. l_cost (links n l)) ls) + sum_list (map (router_cost n m) (s # vs))"
    using ls walk(3) rc [of s] nonneg by (intro fold_i64_sum) (auto intro: rc)
  moreover have "links_join n (s # vs) ls" using setLinks_loop_joins [OF ls(1)] by auto
  ultimately show ?thesis
    using ls by (auto simp: setLinks_def Path_Cost_def)
qed

lemma route_walk_connected: "is_walk nbrs V vs \<Longrightarrow> set vs \<subseteq> V"
  by (induction nbrs V vs rule: is_walk.induct) auto

section \<open>A network of three routers\<close>

definition demo_triangle :: net where
  "demo_triangle =
     AcceptMetricsMsg ''ctrl'' (\<lambda>_. True) [''l3'' \<mapsto> 900000000] Map.empty ''a''
       (fst (NotifyExistingLink 0 (demo_report ''l3'' ''c'' 1) 0
       (fst (NotifyExistingLink 1 (demo_report ''l2'' ''c'' 1) 0
       (fst (NotifyExistingLink 0 (demo_report ''l1'' ''b'' 1) 0
          (fst (ConnectRouter 2 demo_connected))))))))"

lemma demo_triangle_reachable: "net_reachable demo_triangle"
proof -
  have c: "net_step demo_connected (fst (ConnectRouter 2 demo_connected))"
    by (rule net_step.connect) (simp add: demo_connected_def demo_defs)
  have ids: "r_id (routers (fst (ConnectRouter 2 demo_connected)) r) = (if r = 0 then ''a'' else if r = 1 then ''b'' else ''c'')" for r
    by (simp add: demo_connected_def demo_defs)
  show ?thesis
    unfolding demo_triangle_def
    by (rule net_reachable.step [OF _ net_step.metrics], (rule net_reachable.step [OF _ net_step.report])+,
        rule net_reachable.step [OF demo_connected_reachable c])
       (simp_all add: NotifyExistingLink_fst ids demo_report_def)
qed

lemma demo_triangle_costs: "costs_bounded demo_triangle"
  by code_simp

lemma demo_triangle_path: "shortestPath id demo_triangle 10 (Some 0) (Some 2) = Some (Inr ([0, 1, 2], 282))"
  by code_simp

section \<open>The route messages of a path\<close>

lemma concat_stages:
  assumes "j \<le> k"
  shows "concat (map (\<lambda>i. (if i = 0 then [a i] else []) @ (if i < k then [t i] else []) @
      (if i = k then [e i] else [])) [0..<j]) = (if j = 0 then [] else a 0 # map t [0..<j])"
  using assms by (induction j) auto

lemma concat_stages_all:
  "concat (map (\<lambda>i. (if i = 0 then [a i] else []) @ (if i < k then [t i] else []) @
      (if i = k then [e i] else [])) [0..<Suc k]) = a 0 # map t [0..<k] @ [e k]"
  using concat_stages [of k k a t e] by auto

text \<open>The addresses a payload passes, from the initiator's to the terminator's.\<close>

definition path_addrs :: "net \<Rightarrow> Path \<Rightarrow> string list" where
  "path_addrs n p = IngressId p # map (\<lambda>l. l_id (links n l)) (Links p) @ [EgressId p]"

definition forward_pairs :: "Route \<Rightarrow> (string \<times> string) list" where
  "forward_pairs rt = map (\<lambda>f. (SrcAddress f, DstAddress f)) (rt_forwards rt)"

lemma path_addrs_nth:
  "path_addrs n p ! 0 = IngressId p"
  "i < length (Links p) \<Longrightarrow> path_addrs n p ! Suc i = l_id (links n (Links p ! i))"
  "path_addrs n p ! Suc (length (Links p)) = EgressId p"
  by (simp_all add: path_addrs_def nth_append)

lemma route_messages_shape:
  assumes "Links p = l # ls"
  shows "\<exists>first mid final. CreateRouteMessages n p att cid bnd addr rem = first # map mid [0..<length ls] @ [final] \<and>
    set (forward_pairs first) = {(IngressId p, l_id (links n l)), (l_id (links n l), IngressId p)} \<and>
    (\<forall>i < length ls. set (forward_pairs (mid i)) =
       {(l_id (links n (Links p ! i)), l_id (links n (Links p ! Suc i))),
        (l_id (links n (Links p ! Suc i)), l_id (links n (Links p ! i)))} \<and> rt_egress (mid i) = None) \<and>
    set (forward_pairs final) = {(EgressId p, l_id (links n (Links p ! length ls))),
       (l_id (links n (Links p ! length ls)), EgressId p)} \<and>
    rt_egress first = None \<and> (rt_egress final \<noteq> None \<longleftrightarrow> att \<noteq> SmartRerouteAttempt)"
proof -
  have len: "length (Links p) = Suc (length ls)" "(Suc (length ls) = 0) = False" using assms by simp_all
  show ?thesis
    unfolding CreateRouteMessages_def Let_def len diff_Suc_1 concat_stages_all if_False append_Nil
    by (rule exI, rule exI, rule exI, rule conjI, rule refl) (auto simp: forward_pairs_def assms)
qed

lemma route_messages_nth:
  "length (CreateRouteMessages n p att cid bnd addr rem) = Suc (length (Links p)) \<and>
   (\<forall>i \<le> length (Links p).
      set (forward_pairs (CreateRouteMessages n p att cid bnd addr rem ! i)) =
        {(path_addrs n p ! i, path_addrs n p ! Suc i), (path_addrs n p ! Suc i, path_addrs n p ! i)} \<and>
      (rt_egress (CreateRouteMessages n p att cid bnd addr rem ! i) \<noteq> None \<longleftrightarrow>
         i = length (Links p) \<and> (att \<noteq> SmartRerouteAttempt \<or> Links p = [])))"
proof (cases "Links p")
  case Nil
  then show ?thesis by (simp add: CreateRouteMessages_def forward_pairs_def path_addrs_def)
next
  case (Cons l ls)
  from route_messages_shape [OF this, of n att cid bnd addr rem] obtain first mid final where
    msgs: "CreateRouteMessages n p att cid bnd addr rem = first # map mid [0..<length ls] @ [final]"
    and first: "set (forward_pairs first) = {(IngressId p, l_id (links n l)), (l_id (links n l), IngressId p)}"
      "rt_egress first = None"
    and mid: "\<And>i. i < length ls \<Longrightarrow> set (forward_pairs (mid i)) =
       {(l_id (links n (Links p ! i)), l_id (links n (Links p ! Suc i))),
        (l_id (links n (Links p ! Suc i)), l_id (links n (Links p ! i)))} \<and> rt_egress (mid i) = None"
    and final: "set (forward_pairs final) = {(EgressId p, l_id (links n (Links p ! length ls))),
       (l_id (links n (Links p ! length ls)), EgressId p)}"
      "rt_egress final \<noteq> None \<longleftrightarrow> att \<noteq> SmartRerouteAttempt"
    by (elim exE conjE) metis
  note addrs = path_addrs_nth [where n = n and p = p]
  have at: "(first # map mid [0..<length ls] @ [final]) ! 0 = first"
    "j < length ls \<Longrightarrow> (first # map mid [0..<length ls] @ [final]) ! Suc j = mid j"
    "(first # map mid [0..<length ls] @ [final]) ! Suc (length ls) = final" for j
    by (simp_all add: nth_append)
  have len: "length (Links p) = Suc (length ls)" and ne: "Links p \<noteq> []" using Cons by simp_all
  have l: "Links p ! 0 = l" using Cons by simp
  have "set (forward_pairs ((first # map mid [0..<length ls] @ [final]) ! i)) =
        {(path_addrs n p ! i, path_addrs n p ! Suc i), (path_addrs n p ! Suc i, path_addrs n p ! i)} \<and>
      (rt_egress ((first # map mid [0..<length ls] @ [final]) ! i) \<noteq> None \<longleftrightarrow>
         i = Suc (length ls) \<and> (att \<noteq> SmartRerouteAttempt \<or> Links p = []))" if i: "i \<le> Suc (length ls)" for i
  proof (cases i)
    case 0
    then show ?thesis using first addrs(1) addrs(2) [of 0] len l by (simp only: at) simp
  next
    case (Suc j)
    show ?thesis
    proof (cases "j < length ls")
      case True
      then show ?thesis
        using mid [OF True] addrs(2) [of j] addrs(2) [of "Suc j"] len by (simp add: Suc nth_append)
    next
      case False
      with i Suc have j: "j = length ls" by simp
      show ?thesis
        unfolding Suc j at using final addrs(2) [of "length ls"] addrs(3) len ne by (simp add: insert_commute)
    qed
  qed
  then show ?thesis unfolding msgs len by (simp del: nth_Cons_Suc)
qed

section \<open>Properties\<close>

text \<open>
  C2. Between two different routers of a consistent network whose links have costs in range,
  the path \<open>shortestPath\<close> returns runs over connected neighbours from the source to the
  destination, visits no router twice, has the cost returned, which no other such walk undercuts,
  and goes through no router that is marked as not to be traversed.
\<close>

theorem shortestPath_optimal:
  assumes "net_reachable n" "costs_bounded n" "s \<noteq> d"
    and "shortestPath ord n m (Some s) (Some d) = Some (Inr (nodes, c))"
  shows "route_walk ord n nodes \<and> hd nodes = s \<and> last nodes = d \<and> distinct nodes \<and>
    c = walk_cost (edge_cost n m s d) nodes \<and>
    (\<forall>vs. route_walk ord n vs \<longrightarrow> hd vs = s \<longrightarrow> last vs = d \<longrightarrow> c \<le> walk_cost (edge_cost n m s d) vs) \<and>
    (\<forall>r \<in> set nodes. r = s \<or> r = d \<or> \<not> r_noTraversal (routers n r))"
proof (cases rule: shortestPath_result [OF index_inv_reachable [OF assms(1)] assms(2,3), of ord m])
  case (1 nodes' c')
  from 1(1) assms(4) have "nodes' = nodes" "c' = c" by simp_all
  with 1 no_traversal [OF index_inv_reachable [OF assms(1)] assms(2), of m s d nodes] show ?thesis by blast
qed (use assms(4) in simp)

theorem shortestPath_optimal_witness:
  "route_walk id demo_triangle [0, 1, 2] \<and> route_walk id demo_triangle [0, 2] \<and>
   282 \<le> walk_cost (edge_cost demo_triangle 10 0 2) [0, 2]"
proof -
  note opt = shortestPath_optimal [OF demo_triangle_reachable demo_triangle_costs _ demo_triangle_path]
  have alt: "route_walk id demo_triangle [0, 2]" by code_simp
  from opt have "282 \<le> walk_cost (edge_cost demo_triangle 10 0 2) [0, 2]"
    using alt by (metis last.simps list.sel(1) list.distinct(1) zero_neq_numeral)
  with alt opt show ?thesis by (metis zero_neq_numeral)
qed

text \<open>
  C17. \<open>shortestPath\<close> always returns: the search selects a router at every turn and the walk
  back along \<open>prev\<close> ends. It fails to find a path only when every walk between the two
  routers costs at least \<open>math.MaxInt32\<close>, in particular when there is none.
\<close>

theorem shortestPath_total:
  assumes "net_reachable n" "costs_bounded n"
  shows "(\<exists>nodes c. shortestPath ord n m (Some s) (Some d) = Some (Inr (nodes, c))) \<or>
    shortestPath ord n m (Some s) (Some d) = Some (Inl (CantRoute s d)) \<and>
    (\<forall>vs. route_walk ord n vs \<longrightarrow> hd vs = s \<longrightarrow> last vs = d \<longrightarrow>
       MaxInt32 \<le> walk_cost (edge_cost n m s d) vs)"
proof (cases "s = d")
  case True
  then show ?thesis by (simp add: shortestPath_def)
next
  case False
  then show ?thesis
    by (cases rule: shortestPath_result [OF index_inv_reachable [OF assms(1)] assms(2) False, of ord m])
       blast+
qed

theorem shortestPath_total_witness:
  "\<exists>res. shortestPath rev demo_triangle 10 (Some 2) (Some 5) = Some res"
proof -
  from shortestPath_total [OF demo_triangle_reachable demo_triangle_costs, of rev 10 2 5] show ?thesis by blast
qed

text \<open>
  C18. Once no link of an earlier connection of a router is left, a path that the search finds
  can be built: \<open>UpdatePath\<close> succeeds, keeps the two end addresses, picks for each hop a
  usable link joining its routers, and the cost \<open>Path.Cost\<close> gives it is the cost of the search plus that of
  the ingress router, which the search does not count.
\<close>

theorem UpdatePath_follows_search:
  assumes "net_reachable n" "costs_bounded n" "settled n" "Nodes p \<noteq> []"
    and "shortestPath ord n m (Some (hd (Nodes p))) (Some (last (Nodes p))) = Some (Inr (nodes, c))"
  shows "\<exists>q. UpdatePath ord n m p = Some (Inr q) \<and> Nodes q = nodes \<and> IngressId q = IngressId p \<and>
    EgressId q = EgressId p \<and> links_join n nodes (Links q) \<and>
    Path_Cost n m q = c + router_cost n m (hd nodes)"
proof (cases "hd (Nodes p) = last (Nodes p)")
  case True
  with assms(5) have [simp]: "nodes = [hd (Nodes p)]" "c = 0" by (simp_all add: shortestPath_def)
  have "i64 (router_cost n m r) = router_cost n m r" for r
    using router_cost_range [of n m r] by (intro i64_id) auto
  then show ?thesis
    using True assms(4) by (simp add: UpdatePath_def Let_def shortestPath_def setLinks_def links_join_def Path_Cost_def)
next
  case False
  note inv = index_inv_reachable [OF assms(1)]
  show ?thesis
  proof (cases rule: shortestPath_result [OF inv assms(2) False, of ord m])
    case (1 nodes' c')
    from 1(1) assms(5) have eq: "nodes' = nodes" "c' = c" by simp_all
    then obtain vs where vs: "nodes = hd (Nodes p) # vs" using 1(2,3) by (cases nodes) auto
    have "\<exists>ls. setLinks n (p\<lparr>Nodes := hd (Nodes p) # vs, Links := []\<rparr>) =
        Inr (p\<lparr>Nodes := hd (Nodes p) # vs, Links := ls\<rparr>) \<and> links_join n (hd (Nodes p) # vs) ls \<and>
        Path_Cost n m (p\<lparr>Nodes := hd (Nodes p) # vs, Links := ls\<rparr>) =
        walk_cost (edge_cost n m (hd (Nodes p)) (last (Nodes p))) (hd (Nodes p) # vs) + router_cost n m (hd (Nodes p))"
      using 1 eq vs route_walk_connected [OF 1(2)] by (intro UpdatePath_cost [OF inv assms(2,3), of ord]) auto
    then show ?thesis
      using assms(4,5) 1(6) eq vs by (auto simp: UpdatePath_def Let_def)
  qed (use assms(5) in simp)
qed

theorem UpdatePath_follows_search_witness:
  "\<exists>q. CreatePath id demo_triangle 10 (Some ''in'') (Some ''out'') 0 2 = Some (Inr q) \<and> Nodes q = [0, 1, 2]"
proof -
  have "settled demo_triangle" by code_simp
  then show ?thesis
    using demo_triangle_costs demo_triangle_path UpdatePath_follows_search [OF demo_triangle_reachable, of
      "\<lparr>Nodes = [0, 2], Links = [], IngressId = ''in'', EgressId = ''out'', InitiatorLocalAddr = '''',
        InitiatorRemoteAddr = '''', TerminatorLocalAddr = '''', TerminatorRemoteAddr = ''''\<rparr>" id 10 "[0, 1, 2]" 282]
    by (auto simp: CreatePath_def)
qed

text \<open>
  C19. The route messages of a path, one per router along it, connect its addresses in both
  directions: the message for position i forwards between the address before and the address
  after that router and nothing else, and only the last router is told to dial the terminator,
  which a reroute leaves out on a path of more than one router.
\<close>

theorem route_messages_connect_path:
  fixes n :: net and p :: Path and attempt :: "32 word" and circuitId binding address :: string
    and remaining :: int
  defines "msgs \<equiv> CreateRouteMessages n p attempt circuitId binding address remaining"
  shows "length msgs = Suc (length (Links p)) \<and>
    (\<forall>i \<le> length (Links p).
       set (forward_pairs (msgs ! i)) =
         {(path_addrs n p ! i, path_addrs n p ! Suc i), (path_addrs n p ! Suc i, path_addrs n p ! i)} \<and>
       (rt_egress (msgs ! i) \<noteq> None \<longleftrightarrow>
          i = length (Links p) \<and> (attempt \<noteq> SmartRerouteAttempt \<or> Links p = [])))"
  unfolding msgs_def by (rule route_messages_nth)

theorem route_messages_connect_path_witness:
  "length (CreateRouteMessages demo_triangle
      \<lparr>Nodes = [0, 1, 2], Links = [0, 1], IngressId = ''in'', EgressId = ''out'', InitiatorLocalAddr = '''',
       InitiatorRemoteAddr = '''', TerminatorLocalAddr = '''', TerminatorRemoteAddr = ''''\<rparr>
      0 ''c'' ''edge'' ''addr'' 5) = 3"
  using route_messages_connect_path [where p = "\<lparr>Nodes = [0, 1, 2], Links = [0, 1], IngressId = ''in'',
    EgressId = ''out'', InitiatorLocalAddr = '''', InitiatorRemoteAddr = '''', TerminatorLocalAddr = '''',
    TerminatorRemoteAddr = ''''\<rparr>" and n = demo_triangle and attempt = 0 and circuitId = "''c''"
    and binding = "''edge''" and address = "''addr''" and remaining = 5]
  by simp

end
