(* ===== verification/Forwarder.thy ===== *)
theory Forwarder
  imports Routing
begin

text \<open>
  The router's data plane (\<open>router/forwarder\<close>): the circuit, forward and destination tables
  (\<open>tables.go\<close>), the forwarder's operations (\<open>forwarder.go\<close>), the fault reporter
  (\<open>faulter.go\<close>) and the idle-circuit scanner (\<open>scanner.go\<close>).

  A forward table is a shared object that the circuit table points to; operations that hold it
  while they change it update the entry in place. Payloads, acknowledgements and control messages
  belong to the xgress package: they are values of a type variable, and sending one to a
  destination is an argument that says whether it fails. The clock is an argument \<open>now\<close>, in
  milliseconds.
\<close>

section \<open>Tables\<close>

text \<open>A destination is an xgress endpoint or a link; both are objects compared by identity.\<close>

datatype destination = XgressDest nat | LinkDest nat

record forwardTable =
  ft_ctrlId :: string
  ft_last :: int
  ft_destinations :: "(string \<times> string) list"

record Forwarder =
  circuits :: "(string \<times> forwardTable) list"
  destinations :: "string \<rightharpoonup> destination"
  xgress_addrs :: "string \<rightharpoonup> string list"

datatype 'm fwd_effect =
    Unrouted destination
  | NotifyInvalidLink string
  | SentTo destination 'm

datatype fwd_error =
    InvalidLinkDestination string
  | InvalidEgressDestination string
  | NoForwardTable string string
  | NoDestinationAddress string string
  | NoDestination string string string
  | SendFailed string

definition newForwardTable :: "string \<Rightarrow> forwardTable" where
  "newForwardTable ctrlId = \<lparr>ft_ctrlId = ctrlId, ft_last = 0, ft_destinations = []\<rparr>"

definition setForwardAddress :: "string \<Rightarrow> string \<Rightarrow> forwardTable \<Rightarrow> forwardTable" where
  "setForwardAddress src dst ft = ft\<lparr>ft_destinations := AList.update src dst (ft_destinations ft)\<rparr>"

definition getForwardAddress :: "forwardTable \<Rightarrow> string \<Rightarrow> string option" where
  "getForwardAddress ft src = map_of (ft_destinations ft) src"

definition setForwardTable :: "string \<Rightarrow> forwardTable \<Rightarrow> int \<Rightarrow> Forwarder \<Rightarrow> Forwarder" where
  "setForwardTable circuitId ft now f =
     f\<lparr>circuits := AList.update circuitId (ft\<lparr>ft_last := now\<rparr>) (circuits f)\<rparr>"

definition getForwardTable :: "string \<Rightarrow> bool \<Rightarrow> int \<Rightarrow> Forwarder \<Rightarrow> Forwarder \<times> forwardTable option" where
  "getForwardTable circuitId markActive now f =
     (case map_of (circuits f) circuitId of
        None \<Rightarrow> (f, None)
      | Some ft \<Rightarrow>
          if markActive
          then (f\<lparr>circuits := AList.update circuitId (ft\<lparr>ft_last := now\<rparr>) (circuits f)\<rparr>,
                Some (ft\<lparr>ft_last := now\<rparr>))
          else (f, Some ft))"

definition removeForwardTable :: "string \<Rightarrow> Forwarder \<Rightarrow> Forwarder" where
  "removeForwardTable circuitId f = f\<lparr>circuits := AList.delete circuitId (circuits f)\<rparr>"

definition addDestination :: "string \<Rightarrow> destination \<Rightarrow> Forwarder \<Rightarrow> Forwarder" where
  "addDestination addr d f = f\<lparr>destinations := (destinations f)(addr \<mapsto> d)\<rparr>"

definition removeDestination :: "string \<Rightarrow> Forwarder \<Rightarrow> Forwarder" where
  "removeDestination addr f = f\<lparr>destinations := (destinations f)(addr := None)\<rparr>"

definition removeDestinationIfMatches :: "string \<Rightarrow> destination \<Rightarrow> Forwarder \<Rightarrow> Forwarder" where
  "removeDestinationIfMatches addr d f =
     (if destinations f addr = Some d then f\<lparr>destinations := (destinations f)(addr := None)\<rparr> else f)"

definition linkDestinationToCircuit :: "string \<Rightarrow> string \<Rightarrow> Forwarder \<Rightarrow> Forwarder" where
  "linkDestinationToCircuit circuitId addr f =
     f\<lparr>xgress_addrs := (xgress_addrs f)(circuitId \<mapsto>
        (case xgress_addrs f circuitId of None \<Rightarrow> [] | Some as \<Rightarrow> as) @ [addr])\<rparr>"

definition unlinkCircuit :: "string \<Rightarrow> Forwarder \<Rightarrow> Forwarder" where
  "unlinkCircuit circuitId f = f\<lparr>xgress_addrs := (xgress_addrs f)(circuitId := None)\<rparr>"

section \<open>The forwarder\<close>

definition RegisterDestination :: "string \<Rightarrow> string \<Rightarrow> destination \<Rightarrow> Forwarder \<Rightarrow> Forwarder" where
  "RegisterDestination circuitId addr d f = linkDestinationToCircuit circuitId addr (addDestination addr d f)"

text \<open>
  Unregistering calls \<open>Unrouted\<close> on each destination, which only an xgress has: for a link
  the type assertion panics (None).
\<close>

fun unregister_loop :: "string list \<Rightarrow> Forwarder \<Rightarrow> (Forwarder \<times> 'm fwd_effect list) option" where
  "unregister_loop [] f = Some (f, [])"
| "unregister_loop (addr # as) f =
     (case destinations f addr of
        None \<Rightarrow> unregister_loop as f
      | Some (LinkDest l) \<Rightarrow> None
      | Some (XgressDest x) \<Rightarrow>
          (case unregister_loop as (removeDestination addr f) of
             None \<Rightarrow> None
           | Some (g, es) \<Rightarrow> Some (g, Unrouted (XgressDest x) # es)))"

definition UnregisterDestinations :: "string \<Rightarrow> Forwarder \<Rightarrow> (Forwarder \<times> 'm fwd_effect list) option" where
  "UnregisterDestinations circuitId f =
     (case xgress_addrs f circuitId of
        None \<Rightarrow> Some (f, [])
      | Some as \<Rightarrow>
          (case unregister_loop as f of
             None \<Rightarrow> None
           | Some (g, es) \<Rightarrow> Some (unlinkCircuit circuitId g, es)))"

definition HasDestination :: "Forwarder \<Rightarrow> string \<Rightarrow> bool" where
  "HasDestination f addr = (destinations f addr \<noteq> None)"

definition RegisterLink :: "string \<Rightarrow> nat \<Rightarrow> Forwarder \<Rightarrow> Forwarder" where
  "RegisterLink linkId l f = addDestination linkId (LinkDest l) f"

definition UnregisterLink :: "string \<Rightarrow> nat \<Rightarrow> Forwarder \<Rightarrow> Forwarder" where
  "UnregisterLink linkId l f = removeDestinationIfMatches linkId (LinkDest l) f"

fun route_forwards ::
  "Forwarder \<Rightarrow> Forward list \<Rightarrow> forwardTable \<Rightarrow> forwardTable \<times> 'm fwd_effect list \<times> fwd_error option" where
  "route_forwards f [] ft = (ft, [], None)"
| "route_forwards f (fw # fws) ft =
     (if \<not> HasDestination f (DstAddress fw) \<and> DstType fw = Link
      then (ft, [NotifyInvalidLink (DstAddress fw)], Some (InvalidLinkDestination (DstAddress fw)))
      else if \<not> HasDestination f (DstAddress fw) \<and> DstType fw = End
      then (ft, [], Some (InvalidEgressDestination (DstAddress fw)))
      else route_forwards f fws (setForwardAddress (SrcAddress fw) (DstAddress fw) ft))"

definition Forwarder_Route ::
  "string \<Rightarrow> Route \<Rightarrow> int \<Rightarrow> Forwarder \<Rightarrow> Forwarder \<times> 'm fwd_effect list \<times> fwd_error option" where
  "Forwarder_Route ctrlId route now f =
     (let circuitId = rt_circuitId route;
          (f1, found) = getForwardTable circuitId True now f;
          circuitFt = (case found of Some ft \<Rightarrow> ft | None \<Rightarrow> newForwardTable ctrlId);
          (ft, es, err) = route_forwards f1 (rt_forwards route) circuitFt
      in case err of
           None \<Rightarrow> (setForwardTable circuitId ft now f1, es, None)
         | Some e \<Rightarrow>
             (if found = None then f1
              else f1\<lparr>circuits := AList.update circuitId ft (circuits f1)\<rparr>, es, Some e))"

definition EndCircuit :: "string \<Rightarrow> Forwarder \<Rightarrow> (Forwarder \<times> 'm fwd_effect list) option" where
  "EndCircuit circuitId f = UnregisterDestinations circuitId f"

text \<open>\<open>Unroute\<close> with \<open>now\<close> set; without it, it starts the goroutine \<open>unrouteTimeout\<close>.\<close>

definition Unroute_now :: "string \<Rightarrow> Forwarder \<Rightarrow> (Forwarder \<times> 'm fwd_effect list) option" where
  "Unroute_now circuitId f = EndCircuit circuitId (removeForwardTable circuitId f)"

fun first_destination :: "Forwarder \<Rightarrow> string list \<Rightarrow> destination option" where
  "first_destination f [] = None"
| "first_destination f (addr # as) =
     (case destinations f addr of Some d \<Rightarrow> Some d | None \<Rightarrow> first_destination f as)"

definition getXgressForCircuit :: "Forwarder \<Rightarrow> string \<Rightarrow> destination option" where
  "getXgressForCircuit f circuitId =
     (case xgress_addrs f circuitId of None \<Rightarrow> None | Some as \<Rightarrow> first_destination f as)"

text \<open>
  One tick of the goroutine \<open>unrouteTimeout\<close>: \<open>lastRx\<close> is the time an xgress last received from
  its link, \<open>interval\<close> is in nanoseconds. The flag says that the goroutine has returned.
\<close>

definition unroute_tick ::
  "(nat \<Rightarrow> int) \<Rightarrow> int \<Rightarrow> int \<Rightarrow> string \<Rightarrow> Forwarder \<Rightarrow> (Forwarder \<times> 'm fwd_effect list \<times> bool) option" where
  "unroute_tick lastRx interval now circuitId f =
     (case getXgressForCircuit f circuitId of
        Some (LinkDest l) \<Rightarrow> None
      | Some (XgressDest x) \<Rightarrow>
          if interval \<le> i64 (i64 (now - lastRx x) * 1000000)
          then map_option (\<lambda>(g, es). (g, es, True)) (EndCircuit circuitId (removeForwardTable circuitId f))
          else Some (f, [], False)
      | None \<Rightarrow> map_option (\<lambda>(g, es). (g, es, True)) (EndCircuit circuitId (removeForwardTable circuitId f)))"

text \<open>
  The goroutine waits for its ticker or for the forwarder to close. A run is the list of these
  events; each comes with what other goroutines have done to the forwarder since the event before,
  a tick also with the clock and the receive times read at it. \<open>time.NewTicker\<close> panics unless the
  interval is positive.
\<close>

datatype unroute_event = Tick int "nat \<Rightarrow> int" | CloseNotified

fun unroute_loop ::
  "int \<Rightarrow> string \<Rightarrow> ((Forwarder \<Rightarrow> Forwarder) \<times> unroute_event) list \<Rightarrow> Forwarder \<Rightarrow>
   (Forwarder \<times> 'm fwd_effect list \<times> bool) option" where
  "unroute_loop interval circuitId [] f = Some (f, [], False)"
| "unroute_loop interval circuitId ((others, CloseNotified) # evs) f = Some (others f, [], True)"
| "unroute_loop interval circuitId ((others, Tick now lastRx) # evs) f =
     (case unroute_tick lastRx interval now circuitId (others f) of
        None \<Rightarrow> None
      | Some (g, es, ended) \<Rightarrow>
          if ended then Some (g, es, True) else unroute_loop interval circuitId evs g)"

definition unrouteTimeout ::
  "int \<Rightarrow> string \<Rightarrow> ((Forwarder \<Rightarrow> Forwarder) \<times> unroute_event) list \<Rightarrow> Forwarder \<Rightarrow>
   (Forwarder \<times> 'm fwd_effect list \<times> bool) option" where
  "unrouteTimeout interval circuitId evs f =
     (if interval \<le> 0 then None else unroute_loop interval circuitId evs f)"

datatype PayloadType = PayloadTypeXg | PayloadTypeRtx | PayloadTypeFwd

definition forwardPayload ::
  "(destination \<Rightarrow> 'p \<times> int \<times> PayloadType \<Rightarrow> string option) \<Rightarrow> string \<Rightarrow> string \<Rightarrow> 'p \<Rightarrow> bool \<Rightarrow> int \<Rightarrow> int \<Rightarrow>
   Forwarder \<Rightarrow> Forwarder \<times> ('p \<times> int \<times> PayloadType) fwd_effect list \<times> fwd_error option" where
  "forwardPayload send circuitId srcAddr payload markActive timeout now f =
     (let (f1, found) = getForwardTable circuitId markActive now f in
      case found of
        None \<Rightarrow> (f1, [], Some (NoForwardTable circuitId srcAddr))
      | Some ft \<Rightarrow>
          (case getForwardAddress ft srcAddr of
             None \<Rightarrow> (f1, [], Some (NoDestinationAddress circuitId srcAddr))
           | Some dstAddr \<Rightarrow>
               (case destinations f1 dstAddr of
                  None \<Rightarrow> (f1, [], Some (NoDestination circuitId srcAddr dstAddr))
                | Some dst \<Rightarrow>
                    let payloadType = (if \<not> markActive then PayloadTypeRtx
                          else if timeout = 0 then PayloadTypeFwd else PayloadTypeXg);
                        m = (payload, timeout, payloadType)
                    in (f1, [SentTo dst m], map_option SendFailed (send dst m)))))"

definition ForwardPayload ::
  "(destination \<Rightarrow> 'p \<times> int \<times> PayloadType \<Rightarrow> string option) \<Rightarrow> string \<Rightarrow> string \<Rightarrow> 'p \<Rightarrow> int \<Rightarrow> int \<Rightarrow>
   Forwarder \<Rightarrow> Forwarder \<times> ('p \<times> int \<times> PayloadType) fwd_effect list \<times> fwd_error option" where
  "ForwardPayload send circuitId srcAddr payload timeout now f =
     forwardPayload send circuitId srcAddr payload True timeout now f"

definition RetransmitPayload ::
  "(destination \<Rightarrow> 'p \<times> int \<times> PayloadType \<Rightarrow> string option) \<Rightarrow> string \<Rightarrow> string \<Rightarrow> 'p \<Rightarrow> int \<Rightarrow>
   Forwarder \<Rightarrow> Forwarder \<times> ('p \<times> int \<times> PayloadType) fwd_effect list \<times> fwd_error option" where
  "RetransmitPayload send circuitId srcAddr payload now f =
     forwardPayload send circuitId srcAddr payload False 0 now f"

definition ForwardAcknowledgement ::
  "(destination \<Rightarrow> 'a \<Rightarrow> string option) \<Rightarrow> string \<Rightarrow> string \<Rightarrow> 'a \<Rightarrow> int \<Rightarrow>
   Forwarder \<Rightarrow> Forwarder \<times> 'a fwd_effect list \<times> fwd_error option" where
  "ForwardAcknowledgement send circuitId srcAddr ack now f =
     (let (f1, found) = getForwardTable circuitId True now f in
      case found of
        None \<Rightarrow> (f1, [], Some (NoForwardTable circuitId srcAddr))
      | Some ft \<Rightarrow>
          (case getForwardAddress ft srcAddr of
             None \<Rightarrow> (f1, [], Some (NoDestinationAddress circuitId srcAddr))
           | Some dstAddr \<Rightarrow>
               (case destinations f1 dstAddr of
                  None \<Rightarrow> (f1, [], Some (NoDestination circuitId srcAddr dstAddr))
                | Some dst \<Rightarrow> (f1, [SentTo dst ack], map_option SendFailed (send dst ack)))))"

text \<open>
  Control messages: \<open>control_api\<close> holds what the forwarder uses of \<open>xgress.Control\<close>. A
  trace-route message whose hop count runs out is answered by forwarding a response from the
  other side.
\<close>

record 'c control_api =
  ctl_circuitId :: "'c \<Rightarrow> string"
  ctl_isTraceRoute :: "'c \<Rightarrow> bool"
  ctl_decrementHop :: "'c \<Rightarrow> 'c \<times> 32 word"
  ctl_traceResponse :: "'c \<Rightarrow> 'c"
  ctl_putError :: "fwd_error \<Rightarrow> 'c \<Rightarrow> 'c"

definition control_failed ::
  "'c control_api \<Rightarrow> string \<Rightarrow> 'c \<Rightarrow> Forwarder \<Rightarrow> 'c fwd_effect list \<Rightarrow> fwd_error \<Rightarrow>
   Forwarder \<times> 'c fwd_effect list \<times> fwd_error option" where
  "control_failed api srcAddr c f es err =
     (if ctl_isTraceRoute api c
      then (case destinations f srcAddr of
              Some d \<Rightarrow> (f, es @ [SentTo d (ctl_putError api err (ctl_traceResponse api c))], Some err)
            | None \<Rightarrow> (f, es, Some err))
      else (f, es, Some err))"

partial_function (option) ForwardControl ::
  "'c control_api \<Rightarrow> (destination \<Rightarrow> 'c \<Rightarrow> string option) \<Rightarrow> int \<Rightarrow> string \<Rightarrow> 'c \<Rightarrow> Forwarder \<Rightarrow>
   (Forwarder \<times> 'c fwd_effect list \<times> fwd_error option) option" where
  [code]: "ForwardControl api send now srcAddr c f =
     (case getForwardTable (ctl_circuitId api c) True now f of
        (f1, None) \<Rightarrow> Some (control_failed api srcAddr c f1 [] (NoForwardTable (ctl_circuitId api c) srcAddr))
      | (f1, Some ft) \<Rightarrow>
          (case getForwardAddress ft srcAddr of
             None \<Rightarrow> Some (control_failed api srcAddr c f1 [] (NoDestinationAddress (ctl_circuitId api c) srcAddr))
           | Some dstAddr \<Rightarrow>
               (case destinations f1 dstAddr of
                  None \<Rightarrow>
                    Some (control_failed api srcAddr c f1 [] (NoDestination (ctl_circuitId api c) srcAddr dstAddr))
                | Some dst \<Rightarrow>
                    (case (if ctl_isTraceRoute api c then ctl_decrementHop api c else (c, 1)) of
                       (c1, hops) \<Rightarrow>
                         if hops = 0 then ForwardControl api send now dstAddr (ctl_traceResponse api c1) f1
                         else (case send dst c1 of
                                 None \<Rightarrow> Some (f1, [SentTo dst c1], None)
                               | Some e \<Rightarrow>
                                   Some (control_failed api srcAddr c1 f1 [SentTo dst c1] (SendFailed e)))))))"

section \<open>Fault reports\<close>

datatype FaultSubject = LinkFaultSubject | ForwardFault | UnknownOwnerForwardFault

datatype fault_msg = FaultMsg string FaultSubject string

record Faulter =
  fl_interval :: int
  fl_circuitIds :: "(string \<times> string) list"

definition Faulter_Report :: "string \<Rightarrow> string \<Rightarrow> Faulter \<Rightarrow> Faulter" where
  "Faulter_Report circuitId ctrlId fl =
     (if 0 < fl_interval fl
      then fl\<lparr>fl_circuitIds := AList.update circuitId ctrlId (fl_circuitIds fl)\<rparr> else fl)"

text \<open>\<open>ctrls\<close> are the controllers the router has a control channel to.\<close>

definition Faulter_NotifyInvalidLink :: "string list \<Rightarrow> string \<Rightarrow> fault_msg list" where
  "Faulter_NotifyInvalidLink ctrls linkId = map (\<lambda>c. FaultMsg c LinkFaultSubject linkId) ctrls"

definition ReportForwardingFault :: "string \<Rightarrow> string \<Rightarrow> Forwarder \<Rightarrow> Faulter option \<Rightarrow> Faulter option" where
  "ReportForwardingFault circuitId ctrlId f faulter =
     (let ctrlId' = (if ctrlId = [] then
            (case snd (getForwardTable circuitId False 0 f) of Some ct \<Rightarrow> ft_ctrlId ct | None \<Rightarrow> ctrlId)
          else ctrlId)
      in map_option (Faulter_Report circuitId ctrlId') faulter)"

fun go_join :: "string \<Rightarrow> string list \<Rightarrow> string" where
  "go_join sep [] = []"
| "go_join sep [x] = x"
| "go_join sep (x # y # xs) = x @ sep @ go_join sep (y # xs)"

definition workloadByCtrl :: "(string \<times> string) list \<Rightarrow> (string \<times> string list) list" where
  "workloadByCtrl cs =
     fold (\<lambda>(circuitId, ctrlId) w.
        AList.update ctrlId ((case map_of w ctrlId of None \<Rightarrow> [] | Some ids \<Rightarrow> ids) @ [circuitId]) w) cs []"

definition report_workload :: "string list \<Rightarrow> string \<times> string list \<Rightarrow> fault_msg list" where
  "report_workload ctrls w =
     (let (ctrlId, workload) = w; circuitIds = go_join '' '' workload in
      if ctrlId \<noteq> [] then
        (if ctrlId \<in> set ctrls then [FaultMsg ctrlId ForwardFault circuitIds] else [])
      else map (\<lambda>c. FaultMsg c UnknownOwnerForwardFault circuitIds) ctrls)"

text \<open>One turn of the loop of \<open>Faulter.run\<close>.\<close>

definition faulter_turn ::
  "((string \<times> string list) list \<Rightarrow> (string \<times> string list) list) \<Rightarrow> string list \<Rightarrow> Faulter \<Rightarrow>
   Faulter \<times> fault_msg list" where
  "faulter_turn ord ctrls fl =
     fold (\<lambda>w (fl, msgs).
        (fl\<lparr>fl_circuitIds := fold AList.delete (snd w) (fl_circuitIds fl)\<rparr>, msgs @ report_workload ctrls w))
       (go_range ord (workloadByCtrl (fl_circuitIds fl))) (fl, [])"

section \<open>The idle-circuit scanner\<close>

definition idle_time :: "int \<Rightarrow> forwardTable \<Rightarrow> int" where
  "idle_time now ft = i64 (i64 (now - ft_last ft) * 1000000)"

definition idle_circuits :: "int \<Rightarrow> int \<Rightarrow> (string \<times> forwardTable) list \<Rightarrow> (string \<times> (string \<times> int) list) list" where
  "idle_circuits timeout now cs =
     fold (\<lambda>(circuitId, ft) idle.
        if timeout < idle_time now ft
        then AList.update (ft_ctrlId ft)
               (AList.update circuitId (idle_time now ft)
                  (case map_of idle (ft_ctrlId ft) of None \<Rightarrow> [] | Some m \<Rightarrow> m)) idle
        else idle) cs []"

text \<open>
  \<open>scan\<close>: the circuit confirmations sent, each with its controller; \<open>ord1\<close> and \<open>ord2\<close> are the
  orders in which the two maps are enumerated.
\<close>

definition scan ::
  "((string \<times> forwardTable) list \<Rightarrow> (string \<times> forwardTable) list) \<Rightarrow>
   ((string \<times> (string \<times> int) list) list \<Rightarrow> (string \<times> (string \<times> int) list) list) \<Rightarrow>
   string list \<Rightarrow> int \<Rightarrow> int \<Rightarrow> Forwarder \<Rightarrow> (string \<times> (string \<times> int) list) list" where
  "scan ord1 ord2 ctrls timeout now f =
     filter (\<lambda>(ctrlId, m). m \<noteq> [] \<and> ctrlId \<in> set ctrls)
       (go_range ord2 (idle_circuits timeout now (go_range ord1 (circuits f))))"

section \<open>Inspection\<close>

record CircuitDetail =
  cd_id :: string
  cd_timeSinceActivity :: int
  cd_ctrlId :: string
  cd_routes :: "(string \<times> string) list"
  cd_destinations :: "(string \<times> string) list"

definition InspectDestination ::
  "(destination \<Rightarrow> string) \<Rightarrow> Forwarder \<Rightarrow> string \<Rightarrow> CircuitDetail \<Rightarrow> CircuitDetail" where
  "InspectDestination destType f address detail =
     detail\<lparr>cd_destinations := AList.update address
       (case destinations f address of Some d \<Rightarrow> destType d | None \<Rightarrow> ''missing'') (cd_destinations detail)\<rparr>"

definition InspectCircuits :: "(destination \<Rightarrow> string) \<Rightarrow> int \<Rightarrow> Forwarder \<Rightarrow> (string \<times> CircuitDetail) list" where
  "InspectCircuits destType now f =
     map (\<lambda>(key, ft). (key,
       fold (\<lambda>(k, v) d. InspectDestination destType f v (InspectDestination destType f k d)) (ft_destinations ft)
         \<lparr>cd_id = key, cd_timeSinceActivity = idle_time now ft, cd_ctrlId = ft_ctrlId ft,
          cd_routes = ft_destinations ft, cd_destinations = []\<rparr>)) (circuits f)"

section \<open>Routing a circuit\<close>

definition valid_forward :: "Forwarder \<Rightarrow> Forward \<Rightarrow> bool" where
  "valid_forward f fw \<longleftrightarrow> HasDestination f (DstAddress fw) \<or> DstType fw = Start"

text \<open>The addresses a list of forwards stores: a later forward for a source replaces an earlier one.\<close>

definition forward_map :: "Forward list \<Rightarrow> string \<rightharpoonup> string" where
  "forward_map fws = map_of (rev (map (\<lambda>fw. (SrcAddress fw, DstAddress fw)) fws))"

lemma forward_map_simps [simp]:
  "forward_map [] = Map.empty"
  "forward_map (fw # fws) = [SrcAddress fw \<mapsto> DstAddress fw] ++ forward_map fws"
  by (simp_all add: forward_map_def map_add_def fun_eq_iff split: option.splits)

lemma setForwardAddress_map [simp]:
  "map_of (ft_destinations (setForwardAddress s d ft)) = (map_of (ft_destinations ft))(s \<mapsto> d)"
  "ft_ctrlId (setForwardAddress s d ft) = ft_ctrlId ft" "ft_last (setForwardAddress s d ft) = ft_last ft"
  by (simp_all add: setForwardAddress_def)

lemma route_forwards_spec:
  assumes "route_forwards f fws ft = (ft', es, err)"
  shows "\<exists>k \<le> length fws. map_of (ft_destinations ft') = map_of (ft_destinations ft) ++ forward_map (take k fws) \<and>
    ft_ctrlId ft' = ft_ctrlId ft \<and> ft_last ft' = ft_last ft \<and> (\<forall>fw \<in> set (take k fws). valid_forward f fw) \<and>
    (if err = None then k = length fws \<and> es = [] else k < length fws \<and> \<not> valid_forward f (fws ! k))"
  using assms
proof (induction f fws ft rule: route_forwards.induct)
  case (2 f fw fws ft)
  show ?case
  proof (cases "valid_forward f fw")
    case True
    with 2 obtain k where "k \<le> length fws"
      "map_of (ft_destinations ft') = map_of (ft_destinations (setForwardAddress (SrcAddress fw) (DstAddress fw) ft)) ++
         forward_map (take k fws)"
      "ft_ctrlId ft' = ft_ctrlId ft" "ft_last ft' = ft_last ft" "\<forall>fw \<in> set (take k fws). valid_forward f fw"
      "if err = None then k = length fws \<and> es = [] else k < length fws \<and> \<not> valid_forward f (fws ! k)"
      by (fastforce simp: valid_forward_def)
    with True show ?thesis
      by (intro exI [of _ "Suc k"]) (simp add: fun_eq_iff map_add_def split: option.splits)
  next
    case False
    then have "DstType fw = Link \<or> DstType fw = End" "\<not> HasDestination f (DstAddress fw)"
      by (cases "DstType fw"; simp add: valid_forward_def)+
    with 2(2) False show ?thesis by (intro exI [of _ 0]) (auto split: if_splits)
  qed
qed auto

lemma getForwardTable_simps:
  "destinations (fst (getForwardTable c mark now f)) = destinations f"
  "xgress_addrs (fst (getForwardTable c mark now f)) = xgress_addrs f"
  "map_of (circuits (fst (getForwardTable c mark now f))) =
     (case map_of (circuits f) c of
        Some ft \<Rightarrow> if mark then (map_of (circuits f))(c \<mapsto> ft\<lparr>ft_last := now\<rparr>) else map_of (circuits f)
      | None \<Rightarrow> map_of (circuits f))"
  "snd (getForwardTable c mark now f) =
     map_option (\<lambda>ft. if mark then ft\<lparr>ft_last := now\<rparr> else ft) (map_of (circuits f) c)"
  by (auto simp: getForwardTable_def split: option.splits)

lemma HasDestination_getForwardTable [simp]:
  "HasDestination (fst (getForwardTable c mark now f)) = HasDestination f"
  by (simp add: HasDestination_def fun_eq_iff getForwardTable_simps)

text \<open>The table a route starts from.\<close>

definition routes_of :: "Forwarder \<Rightarrow> string \<Rightarrow> string \<rightharpoonup> string" where
  "routes_of f c = (case map_of (circuits f) c of Some ft \<Rightarrow> map_of (ft_destinations ft) | None \<Rightarrow> Map.empty)"

lemma Forwarder_Route_spec:
  fixes es :: "'m fwd_effect list"
  assumes "Forwarder_Route ctrlId rt now f = (g, es, err)"
  shows "destinations g = destinations f \<and> xgress_addrs g = xgress_addrs f \<and>
    (\<forall>c. c \<noteq> rt_circuitId rt \<longrightarrow> map_of (circuits g) c = map_of (circuits f) c) \<and>
    (\<exists>k \<le> length (rt_forwards rt). (\<forall>fw \<in> set (take k (rt_forwards rt)). valid_forward f fw) \<and>
       (if err = None
        then k = length (rt_forwards rt) \<and> es = [] \<and>
          (\<exists>ft. map_of (circuits g) (rt_circuitId rt) = Some ft \<and> ft_last ft = now)
        else k < length (rt_forwards rt) \<and> \<not> valid_forward f (rt_forwards rt ! k) \<and>
          (map_of (circuits f) (rt_circuitId rt) = None \<longrightarrow> map_of (circuits g) (rt_circuitId rt) = None)) \<and>
       (err = None \<or> map_of (circuits f) (rt_circuitId rt) \<noteq> None \<longrightarrow>
          routes_of g (rt_circuitId rt) =
            routes_of f (rt_circuitId rt) ++ forward_map (take k (rt_forwards rt))))"
proof -
  let ?c = "rt_circuitId rt"
  let ?f1 = "fst (getForwardTable ?c True now f)"
  let ?found = "snd (getForwardTable ?c True now f)"
  let ?ft = "case ?found of Some ft \<Rightarrow> ft | None \<Rightarrow> newForwardTable ctrlId"
  obtain ft' err' and es' :: "'m fwd_effect list" where r: "route_forwards ?f1 (rt_forwards rt) ?ft = (ft', es', err')"
    by (metis prod_cases3)
  have start: "map_of (ft_destinations ?ft) = routes_of f ?c"
    by (auto simp: getForwardTable_simps routes_of_def newForwardTable_def split: option.splits)
  from assms r have g: "g = (case err' of None \<Rightarrow> setForwardTable ?c ft' now ?f1
      | Some e \<Rightarrow> if ?found = None then ?f1 else ?f1\<lparr>circuits := AList.update ?c ft' (circuits ?f1)\<rparr>)"
    and e: "es = es'" "err = err'"
    by (auto simp: Forwarder_Route_def Let_def split: prod.splits option.splits)
  have v: "valid_forward ?f1 = valid_forward f" by (simp add: valid_forward_def fun_eq_iff)
  have frame: "destinations g = destinations f" "xgress_addrs g = xgress_addrs f"
    "\<And>c. c \<noteq> ?c \<Longrightarrow> map_of (circuits g) c = map_of (circuits f) c"
    unfolding g by (auto simp: setForwardTable_def getForwardTable_simps split: option.splits)
  have tab: "map_of (circuits g) ?c = (if err' = None then Some (ft'\<lparr>ft_last := now\<rparr>)
      else if map_of (circuits f) ?c = None then None else Some ft')"
    unfolding g by (auto simp: setForwardTable_def getForwardTable_simps split: option.splits)
  from route_forwards_spec [OF r, unfolded v start] obtain k where
    "k \<le> length (rt_forwards rt)" "map_of (ft_destinations ft') = routes_of f ?c ++ forward_map (take k (rt_forwards rt))"
    "\<forall>fw \<in> set (take k (rt_forwards rt)). valid_forward f fw"
    "if err' = None then k = length (rt_forwards rt) \<and> es' = []
     else k < length (rt_forwards rt) \<and> \<not> valid_forward f (rt_forwards rt ! k)" by blast
  with frame tab e show ?thesis
    by (intro conjI exI [of _ k]) (auto simp: routes_of_def)
qed

section \<open>Ending a circuit\<close>

text \<open>The addresses registered for a circuit are those of xgress endpoints.\<close>

definition xgress_only :: "Forwarder \<Rightarrow> string \<Rightarrow> bool" where
  "xgress_only f c \<longleftrightarrow>
     (\<forall>as. xgress_addrs f c = Some as \<longrightarrow> (\<forall>a \<in> set as. \<forall>l. destinations f a \<noteq> Some (LinkDest l)))"

lemma table_frames [simp]:
  "destinations (removeForwardTable c f) = destinations f"
  "xgress_addrs (removeForwardTable c f) = xgress_addrs f"
  "map_of (circuits (removeForwardTable c f)) = (map_of (circuits f))(c := None)"
  "destinations (removeDestination a f) = (destinations f)(a := None)"
  "xgress_addrs (removeDestination a f) = xgress_addrs f" "circuits (removeDestination a f) = circuits f"
  by (simp_all add: removeForwardTable_def removeDestination_def)

lemma unregister_loop_spec:
  fixes f :: Forwarder
  assumes "\<And>a l. a \<in> set as \<Longrightarrow> destinations f a \<noteq> Some (LinkDest l)"
  shows "\<exists>g (es :: 'm fwd_effect list). unregister_loop as f = Some (g, es) \<and> circuits g = circuits f \<and>
    xgress_addrs g = xgress_addrs f \<and>
    (\<forall>a. destinations g a = (if a \<in> set as then None else destinations f a)) \<and>
    (\<forall>e. e \<in> set es \<longleftrightarrow> (\<exists>a \<in> set as. \<exists>d. destinations f a = Some d \<and> e = Unrouted d))"
  using assms
proof (induction as arbitrary: f)
  case (Cons a as)
  show ?case
  proof (cases "destinations f a")
    case None
    with Cons.IH [of f] Cons.prems show ?thesis by fastforce
  next
    case (Some d)
    then obtain x where x: "destinations f a = Some (XgressDest x)" using Cons.prems by (cases d) auto
    have "\<And>b l. b \<in> set as \<Longrightarrow> destinations (removeDestination a f) b \<noteq> Some (LinkDest l)"
      using Cons.prems by auto
    from Cons.IH [OF this] obtain g and es :: "'m fwd_effect list" where
      g: "unregister_loop as (removeDestination a f) = Some (g, es)" "circuits g = circuits f"
        "xgress_addrs g = xgress_addrs f"
        "\<And>b. destinations g b = (if b \<in> set as then None else destinations (removeDestination a f) b)"
        "\<And>e. e \<in> set es \<longleftrightarrow> (\<exists>b \<in> set as. \<exists>d. destinations (removeDestination a f) b = Some d \<and> e = Unrouted d)"
      by auto
    have "e \<in> set (Unrouted (XgressDest x) # es) \<longleftrightarrow>
        (\<exists>b \<in> set (a # as). \<exists>d. destinations f b = Some d \<and> e = Unrouted d)" for e
      using x g(5) [of e] by (simp split: if_split_asm) (metis option.inject)
    with x g(1-4) show ?thesis by auto
  qed
qed simp

lemma Unroute_spec:
  assumes "xgress_only f c"
  shows "\<exists>g (es :: 'm fwd_effect list). Unroute_now c f = Some (g, es) \<and> routes_of g c = Map.empty \<and>
    xgress_addrs g = (xgress_addrs f)(c := None) \<and> map_of (circuits g) = (map_of (circuits f))(c := None) \<and>
    (\<forall>a. destinations g a = (if \<exists>as. xgress_addrs f c = Some as \<and> a \<in> set as then None else destinations f a)) \<and>
    (\<forall>e. e \<in> set es \<longleftrightarrow>
       (\<exists>as. xgress_addrs f c = Some as \<and> (\<exists>a \<in> set as. \<exists>d. destinations f a = Some d \<and> e = Unrouted d)))"
proof (cases "xgress_addrs f c")
  case None
  then show ?thesis
    by (auto simp: Unroute_now_def EndCircuit_def UnregisterDestinations_def removeForwardTable_def routes_of_def)
next
  case (Some as)
  have "\<And>a l. a \<in> set as \<Longrightarrow> destinations (removeForwardTable c f) a \<noteq> Some (LinkDest l)"
    using assms Some by (auto simp: xgress_only_def)
  from unregister_loop_spec [of as, OF this, unfolded table_frames(1,2)] obtain g and es :: "'m fwd_effect list" where
    g: "unregister_loop as (removeForwardTable c f) = Some (g, es)"
      "circuits g = circuits (removeForwardTable c f)" "xgress_addrs g = xgress_addrs f"
      "\<And>a. destinations g a = (if a \<in> set as then None else destinations f a)"
      "\<And>e. e \<in> set es \<longleftrightarrow> (\<exists>a \<in> set as. \<exists>d. destinations f a = Some d \<and> e = Unrouted d)"
    by auto
  from g(1) Some have "Unroute_now c f = Some (unlinkCircuit c g, es)"
    by (simp add: Unroute_now_def EndCircuit_def UnregisterDestinations_def)
  then show ?thesis
    using g Some by (auto simp: unlinkCircuit_def routes_of_def)
qed

lemma getXgress_no_link:
  assumes "xgress_only f c"
  shows "getXgressForCircuit f c \<noteq> Some (LinkDest l)"
proof -
  have "first_destination f as \<noteq> Some (LinkDest l)" if "\<forall>a \<in> set as. \<forall>l. destinations f a \<noteq> Some (LinkDest l)" for as
    using that by (induction f as rule: first_destination.induct) (auto split: option.splits)
  then show ?thesis
    using assms by (auto simp: getXgressForCircuit_def xgress_only_def split: option.splits)
qed

text \<open>The state in which a run meets its event \<open>k\<close>, as long as it has not ended before.\<close>

definition state_at :: "((Forwarder \<Rightarrow> Forwarder) \<times> unroute_event) list \<Rightarrow> nat \<Rightarrow> Forwarder \<Rightarrow> Forwarder" where
  "state_at evs k f = fold fst (take (Suc k) evs) f"

text \<open>The forwarder closes, or the circuit's xgress has been quiet for the interval or is gone.\<close>

fun stops :: "int \<Rightarrow> string \<Rightarrow> unroute_event \<Rightarrow> Forwarder \<Rightarrow> bool" where
  "stops interval c CloseNotified f = True"
| "stops interval c (Tick now lastRx) f =
     (case getXgressForCircuit f c of
        Some (XgressDest x) \<Rightarrow> interval \<le> i64 (i64 (now - lastRx x) * 1000000)
      | _ \<Rightarrow> True)"

text \<open>What the end of a circuit does to the forwarder, and whom it tells.\<close>

definition circuit_ended :: "string \<Rightarrow> Forwarder \<Rightarrow> Forwarder \<Rightarrow> 'm fwd_effect list \<Rightarrow> bool" where
  "circuit_ended c f g es \<longleftrightarrow>
     map_of (circuits g) = (map_of (circuits f))(c := None) \<and> xgress_addrs g = (xgress_addrs f)(c := None) \<and>
     (\<forall>a. destinations g a = (if \<exists>as. xgress_addrs f c = Some as \<and> a \<in> set as then None else destinations f a)) \<and>
     (\<forall>e. e \<in> set es \<longleftrightarrow> (\<exists>as. xgress_addrs f c = Some as \<and> (\<exists>a \<in> set as. \<exists>d. destinations f a = Some d \<and> e = Unrouted d)))"

definition stopped :: "string \<Rightarrow> unroute_event \<Rightarrow> Forwarder \<Rightarrow> Forwarder \<Rightarrow> 'm fwd_effect list \<Rightarrow> bool" where
  "stopped c e f g es \<longleftrightarrow> (case e of CloseNotified \<Rightarrow> g = f \<and> es = [] | Tick now lastRx \<Rightarrow> circuit_ended c f g es)"

lemma state_at_Cons [simp]:
  "state_at (ev # evs) 0 f = fst ev f" "state_at (ev # evs) (Suc k) f = state_at evs k (fst ev f)"
  by (simp_all add: state_at_def)

lemma tick_stops:
  assumes "xgress_only f c"
  shows "if stops interval c (Tick now lastRx) f
    then \<exists>g es. unroute_tick lastRx interval now c f = Some (g, es :: 'm fwd_effect list, True) \<and> circuit_ended c f g es
    else unroute_tick lastRx interval now c f = Some (f, [] :: 'm fwd_effect list, False)"
proof -
  obtain g and es :: "'m fwd_effect list" where un: "Unroute_now c f = Some (g, es)" "circuit_ended c f g es"
    using Unroute_spec [OF assms, where 'm = 'm] by (auto simp: circuit_ended_def)
  then have e: "EndCircuit c (removeForwardTable c f) = Some (g, es)" by (simp add: Unroute_now_def)
  show ?thesis
  proof (cases "getXgressForCircuit f c")
    case None
    with e un(2) show ?thesis by (simp add: unroute_tick_def)
  next
    case (Some d)
    then obtain x where "d = XgressDest x" using getXgress_no_link [OF assms] by (cases d) auto
    with Some e un(2) show ?thesis by (simp add: unroute_tick_def)
  qed
qed

lemma unroute_loop_ends:
  assumes "xgress_only f c" "\<forall>ev \<in> set evs. \<forall>h. xgress_only h c \<longrightarrow> xgress_only (fst ev h) c"
    and "k < length evs" "stops interval c (snd (evs ! k)) (state_at evs k f)"
  shows "\<exists>j \<le> k. \<exists>g es. unroute_loop interval c evs f = Some (g, es :: 'm fwd_effect list, True) \<and>
    stops interval c (snd (evs ! j)) (state_at evs j f) \<and> (\<forall>i < j. \<not> stops interval c (snd (evs ! i)) (state_at evs i f)) \<and>
    stopped c (snd (evs ! j)) (state_at evs j f) g es"
  using assms
proof (induction evs arbitrary: f k)
  case (Cons ev evs)
  obtain others e where ev: "ev = (others, e)" by fastforce
  have only: "xgress_only (others f) c" using Cons.prems(1,2) ev by simp
  show ?case
  proof (cases "stops interval c e (others f)")
    case True
    then show ?thesis
    proof (cases e)
      case (Tick now lastRx)
      with tick_stops [OF only, of interval now lastRx, where 'm = 'm] True ev show ?thesis
        by (intro exI [of _ 0]) (auto simp: stopped_def)
    qed (use ev in \<open>intro exI [of _ 0], simp add: stopped_def\<close>)
  next
    case False
    then obtain now lastRx where e: "e = Tick now lastRx" by (cases e) auto
    with False tick_stops [OF only, of interval now lastRx, where 'm = 'm]
    have run: "unroute_loop interval c (ev # evs) f = (unroute_loop interval c evs (others f) :: (_ \<times> 'm fwd_effect list \<times> _) option)"
      using ev by simp
    from Cons.prems(4) False ev obtain k' where k: "k = Suc k'" by (cases k) auto
    from Cons.IH [OF only, of k'] Cons.prems(2-4) k ev obtain j g and es :: "'m fwd_effect list" where
      "j \<le> k'" "unroute_loop interval c evs (others f) = Some (g, es, True)"
      "stops interval c (snd (evs ! j)) (state_at evs j (others f))"
      "\<forall>i < j. \<not> stops interval c (snd (evs ! i)) (state_at evs i (others f))" "stopped c (snd (evs ! j)) (state_at evs j (others f)) g es"
      by auto
    then show ?thesis unfolding run using k ev False
      by (intro exI [of _ "Suc j"]) (auto simp: less_Suc_eq_0_disj)
  qed
qed simp

section \<open>Delivery\<close>

text \<open>Where a message of a circuit that comes from an address is delivered.\<close>

definition delivers_to :: "Forwarder \<Rightarrow> string \<Rightarrow> string \<Rightarrow> destination option" where
  "delivers_to f c src =
     (case routes_of f c src of None \<Rightarrow> None | Some dst \<Rightarrow> destinations f dst)"

lemma routes_of_getForwardTable [simp]:
  "routes_of (fst (getForwardTable c mark now f)) c' = routes_of f c'"
  by (auto simp: routes_of_def getForwardTable_simps split: option.splits)

lemma forwardPayload_delivers:
  assumes "forwardPayload send c src p mark timeout now f = (g, es, err)"
  shows "routes_of g = routes_of f \<and> destinations g = destinations f \<and> xgress_addrs g = xgress_addrs f \<and>
    (case delivers_to f c src of
       None \<Rightarrow> es = [] \<and> err \<noteq> None
     | Some d \<Rightarrow> \<exists>m. fst m = p \<and> es = [SentTo d m] \<and> err = map_option SendFailed (send d m))"
proof -
  have "g = fst (getForwardTable c mark now f)"
    using assms by (auto simp: forwardPayload_def Let_def split: prod.splits option.splits)
  moreover have "case delivers_to f c src of
       None \<Rightarrow> es = [] \<and> err \<noteq> None
     | Some d \<Rightarrow> \<exists>m. fst m = p \<and> es = [SentTo d m] \<and> err = map_option SendFailed (send d m)"
    using assms
    by (auto simp: forwardPayload_def Let_def delivers_to_def routes_of_def getForwardTable_def
        getForwardAddress_def split: option.splits if_splits)
  ultimately show ?thesis
    by (simp add: getForwardTable_simps fun_eq_iff)
qed

lemma ForwardControl_returns:
  assumes "\<And>c. \<not> ctl_isTraceRoute api (ctl_traceResponse api c)"
  shows "ForwardControl api send now src c f \<noteq> None"
proof -
  have "ForwardControl api send now a m g \<noteq> None" if "\<not> ctl_isTraceRoute api m" for a m g
    using that by (subst ForwardControl.simps) (auto simp del: not_None_eq split: prod.splits option.splits)
  then show ?thesis
    using assms
    by (subst ForwardControl.simps) (auto simp del: not_None_eq split: prod.splits option.splits if_splits)
qed

text \<open>A trace-route message that runs out of hops is answered towards where it came from.\<close>

lemma ForwardControl_trace:
  assumes resp: "\<And>c. \<not> ctl_isTraceRoute api (ctl_traceResponse api c)"
      "\<And>c. ctl_circuitId api (ctl_traceResponse api c) = ctl_circuitId api c"
      "ctl_circuitId api (fst (ctl_decrementHop api c)) = ctl_circuitId api c"
    and c: "ctl_isTraceRoute api c" "snd (ctl_decrementHop api c) = 0"
    and routes: "routes_of f (ctl_circuitId api c) src = Some dst" "routes_of f (ctl_circuitId api c) dst = Some src"
    and dests: "destinations f dst \<noteq> None" "destinations f src = Some d"
    and ok: "\<And>m. send d m = None"
  shows "\<exists>g. ForwardControl api send now src c f =
    Some (g, [SentTo d (ctl_traceResponse api (fst (ctl_decrementHop api c)))], None)"
proof -
  obtain ft where ft: "map_of (circuits f) (ctl_circuitId api c) = Some ft"
    "map_of (ft_destinations ft) src = Some dst" "map_of (ft_destinations ft) dst = Some src"
    using routes by (auto simp: routes_of_def split: option.splits)
  obtain x where x: "destinations f dst = Some x" using dests by auto
  obtain c1 hops where h: "ctl_decrementHop api c = (c1, hops)" by fastforce
  let ?f1 = "f\<lparr>circuits := AList.update (ctl_circuitId api c) (ft\<lparr>ft_last := now\<rparr>) (circuits f)\<rparr>"
  have "ForwardControl api send now src c f = ForwardControl api send now dst (ctl_traceResponse api c1) ?f1"
    using ft x c h by (subst ForwardControl.simps) (simp add: getForwardTable_def getForwardAddress_def)
  also have "\<exists>g. \<dots> = Some (g, [SentTo d (ctl_traceResponse api c1)], None)"
    using ft dests resp h ok by (subst ForwardControl.simps) (simp add: getForwardTable_def getForwardAddress_def)
  finally show ?thesis using h by simp
qed

section \<open>Fault reports and idle circuits\<close>

lemma workload_fold:
  "map_of (fold (\<lambda>(circuitId, ctrlId) w.
        AList.update ctrlId ((case map_of w ctrlId of None \<Rightarrow> [] | Some ids \<Rightarrow> ids) @ [circuitId]) w) cs w) k =
   (if map_of w k = None \<and> k \<notin> snd ` set cs then None
    else Some ((case map_of w k of None \<Rightarrow> [] | Some ids \<Rightarrow> ids) @ map fst (filter (\<lambda>c. snd c = k) cs)))"
proof (induction cs arbitrary: w)
  case Nil
  then show ?case by (auto split: option.splits)
next
  case (Cons c cs)
  obtain x y where "c = (x, y)" by fastforce
  then show ?case by (auto simp: Cons.IH split: option.splits)
qed

lemma workloadByCtrl_at:
  "map_of (workloadByCtrl cs) k =
     (if k \<in> snd ` set cs then Some (map fst (filter (\<lambda>c. snd c = k) cs)) else None)"
  by (simp add: workloadByCtrl_def workload_fold)

lemma fold_delete: "fold AList.delete ids m = filter (\<lambda>p. fst p \<notin> set ids) m"
  by (induction ids arbitrary: m) (auto simp: AList.delete_eq conj_commute intro!: filter_cong)

lemma faulter_turn_fold:
  "fold (\<lambda>w (fl, msgs). (fl\<lparr>fl_circuitIds := fold AList.delete (snd w) (fl_circuitIds fl)\<rparr>,
       msgs @ report_workload ctrls w)) ws (fl, msgs) =
   (fl\<lparr>fl_circuitIds := filter (\<lambda>p. fst p \<notin> (\<Union>w \<in> set ws. set (snd w))) (fl_circuitIds fl)\<rparr>,
    msgs @ concat (map (report_workload ctrls) ws))"
  by (induction ws arbitrary: fl msgs) (auto simp: fold_delete intro!: filter_cong)

lemma faulter_turn_spec:
  "faulter_turn ord ctrls fl =
     (fl\<lparr>fl_circuitIds := []\<rparr>,
      concat (map (report_workload ctrls) (go_range ord (workloadByCtrl (fl_circuitIds fl)))))"
proof -
  have "fst p \<in> (\<Union>w \<in> set (workloadByCtrl (fl_circuitIds fl)). set (snd w))"
    if p: "p \<in> set (fl_circuitIds fl)" for p
  proof -
    have "map_of (workloadByCtrl (fl_circuitIds fl)) (snd p) =
        Some (map fst (filter (\<lambda>c. snd c = snd p) (fl_circuitIds fl)))"
      using p by (auto simp: workloadByCtrl_at)
    from map_of_SomeD [OF this] p show ?thesis by force
  qed
  then show ?thesis by (simp add: faulter_turn_def faulter_turn_fold filter_empty_conv)
qed

definition idle_at :: "(string \<times> (string \<times> int) list) list \<Rightarrow> string \<Rightarrow> string \<Rightarrow> int option" where
  "idle_at idle ctrlId c = (case map_of idle ctrlId of None \<Rightarrow> None | Some m \<Rightarrow> map_of m c)"

definition idle_step ::
  "int \<Rightarrow> int \<Rightarrow> string \<times> forwardTable \<Rightarrow> (string \<times> (string \<times> int) list) list \<Rightarrow> (string \<times> (string \<times> int) list) list" where
  "idle_step timeout now p idle =
     (case p of (circuitId, ft) \<Rightarrow>
        if timeout < idle_time now ft
        then AList.update (ft_ctrlId ft)
               (AList.update circuitId (idle_time now ft)
                  (case map_of idle (ft_ctrlId ft) of None \<Rightarrow> [] | Some m \<Rightarrow> m)) idle
        else idle)"

lemma idle_circuits_fold: "idle_circuits timeout now cs = fold (idle_step timeout now) cs []"
  by (simp add: idle_circuits_def idle_step_def [abs_def] case_prod_unfold)

lemma idle_at_step:
  "idle_at (idle_step timeout now (c, ft) idle) k x =
     (if timeout < idle_time now ft \<and> k = ft_ctrlId ft \<and> x = c then Some (idle_time now ft) else idle_at idle k x)"
  by (auto simp: idle_at_def idle_step_def split: option.splits)

lemma idle_at_fold:
  "keys_distinct cs \<Longrightarrow> idle_at (fold (idle_step timeout now) cs idle) k x =
     (case map_of cs x of
        Some ft \<Rightarrow> if timeout < idle_time now ft \<and> ft_ctrlId ft = k then Some (idle_time now ft) else idle_at idle k x
      | None \<Rightarrow> idle_at idle k x)"
proof (induction cs arbitrary: idle)
  case (Cons p cs)
  obtain c ft where p: "p = (c, ft)" by fastforce
  with Cons.prems have "map_of cs c = None" by (simp add: map_of_eq_None_iff)
  then show ?case
    using Cons p by (auto simp: idle_at_step split: option.splits)
qed simp

lemma idle_fold_shape:
  "keys_distinct idle \<and> (\<forall>m \<in> snd ` set idle. m \<noteq> []) \<Longrightarrow>
   keys_distinct (fold (idle_step timeout now) cs idle) \<and> (\<forall>m \<in> snd ` set (fold (idle_step timeout now) cs idle). m \<noteq> [])"
proof (induction cs arbitrary: idle)
  case (Cons p cs)
  obtain c ft where p: "p = (c, ft)" by fastforce
  have "m \<noteq> []" if "(k, m) \<in> set (idle_step timeout now p idle)" for k m
    using that Cons.prems by (auto simp: idle_step_def p split: if_splits dest!: set_alist_update)
  moreover have "keys_distinct (idle_step timeout now p idle)"
    using Cons.prems by (simp add: idle_step_def p keys_distinct_update)
  ultimately have "keys_distinct (idle_step timeout now p idle) \<and>
      (\<forall>m \<in> snd ` set (idle_step timeout now p idle). m \<noteq> [])" by auto
  from Cons.IH [OF this] show ?case by simp
qed simp

section \<open>Properties\<close>

definition demo_fwd :: Forwarder where
  "demo_fwd = RegisterDestination ''c1'' ''in'' (XgressDest 1) (RegisterLink ''l1'' 7
     \<lparr>circuits = [], destinations = Map.empty, xgress_addrs = Map.empty\<rparr>)"

definition demo_route :: Route where
  "demo_route = \<lparr>rt_circuitId = ''c1'', rt_attempt = 0, rt_timeout = 0,
     rt_forwards = [\<lparr>SrcAddress = ''in'', DstAddress = ''l1'', DstType = Link\<rparr>,
       \<lparr>SrcAddress = ''l1'', DstAddress = ''in'', DstType = Start\<rparr>], rt_egress = None\<rparr>"

definition demo_routed :: Forwarder where
  "demo_routed = fst (Forwarder_Route ''ctrl1'' demo_route 5 demo_fwd :: _ \<times> unit fwd_effect list \<times> _)"

text \<open>
  C20. A route message that is accepted is installed completely: the circuit's table then maps
  the source of every forward of the message to its destination (the last one for a source
  given twice) and keeps its other entries, every link and egress destination it names exists, and no other circuit is
  touched.
\<close>

theorem route_installs_all:
  assumes "Forwarder_Route ctrlId rt now f = (g, es :: 'm fwd_effect list, None)"
  shows "routes_of g (rt_circuitId rt) = routes_of f (rt_circuitId rt) ++ forward_map (rt_forwards rt) \<and>
    (\<forall>fw \<in> set (rt_forwards rt). DstType fw = Start \<or> HasDestination g (DstAddress fw)) \<and>
    destinations g = destinations f \<and>
    (\<forall>c. c \<noteq> rt_circuitId rt \<longrightarrow> map_of (circuits g) c = map_of (circuits f) c)"
  using Forwarder_Route_spec [OF assms] by (auto simp: valid_forward_def HasDestination_def)

theorem route_installs_all_witness:
  "routes_of demo_routed ''c1'' ''in'' = Some ''l1'' \<and> routes_of demo_routed ''c1'' ''l1'' = Some ''in''"
proof -
  have "snd (snd (Forwarder_Route ''ctrl1'' demo_route 5 demo_fwd :: _ \<times> unit fwd_effect list \<times> _)) = None"
    by code_simp
  then obtain es :: "unit fwd_effect list" where
    "Forwarder_Route ''ctrl1'' demo_route 5 demo_fwd = (demo_routed, es, None)"
    unfolding demo_routed_def by (metis prod.collapse)
  from route_installs_all [OF this] show ?thesis by (simp add: demo_route_def)
qed

text \<open>
  C21. A route message that is refused names a link or egress destination the router does not
  have. A circuit without a table gets none, but the table of a circuit that is being
  rerouted keeps the forwards that precede the offending one: the update is not undone. Other circuits are
  untouched.
\<close>

theorem route_refused:
  assumes "Forwarder_Route ctrlId rt now f = (g, es :: 'm fwd_effect list, Some e)"
  shows "\<exists>k < length (rt_forwards rt). \<not> HasDestination f (DstAddress (rt_forwards rt ! k)) \<and>
      DstType (rt_forwards rt ! k) \<noteq> Start \<and>
      (if map_of (circuits f) (rt_circuitId rt) = None then map_of (circuits g) (rt_circuitId rt) = None
       else routes_of g (rt_circuitId rt) =
         routes_of f (rt_circuitId rt) ++ forward_map (take k (rt_forwards rt))) \<and>
      (\<forall>c. c \<noteq> rt_circuitId rt \<longrightarrow> map_of (circuits g) c = map_of (circuits f) c)"
proof -
  from Forwarder_Route_spec [OF assms] obtain k where
    k: "k < length (rt_forwards rt)" "\<not> valid_forward f (rt_forwards rt ! k)"
      "map_of (circuits f) (rt_circuitId rt) = None \<longrightarrow> map_of (circuits g) (rt_circuitId rt) = None"
      "map_of (circuits f) (rt_circuitId rt) \<noteq> None \<longrightarrow> routes_of g (rt_circuitId rt) =
         routes_of f (rt_circuitId rt) ++ forward_map (take k (rt_forwards rt))"
      "\<forall>c. c \<noteq> rt_circuitId rt \<longrightarrow> map_of (circuits g) c = map_of (circuits f) c"
    by auto
  then show ?thesis
    by (intro exI [of _ k]) (simp add: valid_forward_def)
qed

theorem route_refused_witness:
  "routes_of (fst (Forwarder_Route ''ctrl1'' (demo_route\<lparr>rt_forwards :=
      [\<lparr>SrcAddress = ''in'', DstAddress = ''in'', DstType = Start\<rparr>,
       \<lparr>SrcAddress = ''l1'', DstAddress = ''l9'', DstType = Link\<rparr>]\<rparr>) 6 demo_routed
      :: _ \<times> unit fwd_effect list \<times> _)) ''c1'' ''in'' = Some ''in''"
proof -
  let ?rt = "demo_route\<lparr>rt_forwards := [\<lparr>SrcAddress = ''in'', DstAddress = ''in'', DstType = Start\<rparr>,
       \<lparr>SrcAddress = ''l1'', DstAddress = ''l9'', DstType = Link\<rparr>]\<rparr>"
  let ?r = "Forwarder_Route ''ctrl1'' ?rt 6 demo_routed :: _ \<times> unit fwd_effect list \<times> _"
  have "snd (snd ?r) = Some (InvalidLinkDestination ''l9'')" by code_simp
  then obtain g and es :: "unit fwd_effect list" where
    r: "Forwarder_Route ''ctrl1'' ?rt 6 demo_routed = (g, es, Some (InvalidLinkDestination ''l9''))"
    by (metis prod.collapse)
  have "map_of (circuits demo_routed) ''c1'' \<noteq> None" "\<not> HasDestination demo_routed ''l9''"
    "HasDestination demo_routed ''in''" by code_simp+
  then have "routes_of g ''c1'' ''in'' = Some ''in''"
    using route_refused [OF r] by (auto simp: demo_route_def less_Suc_eq numeral_2_eq_2 split: if_splits)
  with r show ?thesis by simp
qed

text \<open>
  C22. A payload whose source the circuit routes to an existing destination is sent to that
  destination, once, with its timeout and the type of its origin, and the call's error is that of
  the send. Otherwise nothing is sent and the error says what was missing: the circuit, the
  route, or the destination. The routes, destinations and other circuits stay as they are; the circuit is marked as active
  unless the payload is a retransmission.
\<close>

theorem payload_reaches_its_destination:
  assumes "forwardPayload send circuitId src payload markActive timeout now f = (g, es, err)"
  shows "(case delivers_to f circuitId src of
       Some d \<Rightarrow>
         (let m = (payload, timeout, if \<not> markActive then PayloadTypeRtx else if timeout = 0 then PayloadTypeFwd else PayloadTypeXg)
          in es = [SentTo d m] \<and> err = map_option SendFailed (send d m))
     | None \<Rightarrow> es = [] \<and> err = Some
         (if map_of (circuits f) circuitId = None then NoForwardTable circuitId src
          else case routes_of f circuitId src of
                 None \<Rightarrow> NoDestinationAddress circuitId src
               | Some dst \<Rightarrow> NoDestination circuitId src dst)) \<and>
    routes_of g = routes_of f \<and> destinations g = destinations f \<and> xgress_addrs g = xgress_addrs f \<and>
    (\<forall>c. map_of (circuits g) c = (if c = circuitId \<and> markActive
        then map_option (\<lambda>ft. ft\<lparr>ft_last := now\<rparr>) (map_of (circuits f) c) else map_of (circuits f) c))"
proof -
  have "g = fst (getForwardTable circuitId markActive now f)"
    using assms by (auto simp: forwardPayload_def Let_def split: prod.splits option.splits)
  then have "routes_of g = routes_of f \<and> destinations g = destinations f \<and> xgress_addrs g = xgress_addrs f \<and>
    (\<forall>c. map_of (circuits g) c = (if c = circuitId \<and> markActive
        then map_option (\<lambda>ft. ft\<lparr>ft_last := now\<rparr>) (map_of (circuits f) c) else map_of (circuits f) c))"
    by (auto simp: getForwardTable_simps fun_eq_iff split: option.splits)
  moreover have "case delivers_to f circuitId src of
       Some d \<Rightarrow>
         (let m = (payload, timeout, if \<not> markActive then PayloadTypeRtx else if timeout = 0 then PayloadTypeFwd else PayloadTypeXg)
          in es = [SentTo d m] \<and> err = map_option SendFailed (send d m))
     | None \<Rightarrow> es = [] \<and> err = Some
         (if map_of (circuits f) circuitId = None then NoForwardTable circuitId src
          else case routes_of f circuitId src of
                 None \<Rightarrow> NoDestinationAddress circuitId src
               | Some dst \<Rightarrow> NoDestination circuitId src dst)"
    using assms
    by (auto simp: forwardPayload_def Let_def delivers_to_def routes_of_def getForwardTable_def
        getForwardAddress_def split: option.splits if_splits)
  ultimately show ?thesis by blast
qed

theorem payload_reaches_its_destination_witness:
  "\<exists>g. forwardPayload (\<lambda>_ _. None) ''c1'' ''in'' ''data'' True 0 9 demo_routed =
     (g, [SentTo (LinkDest 7) (''data'', 0, PayloadTypeFwd)], None)"
proof -
  obtain g es err where r: "forwardPayload (\<lambda>_ _. None) ''c1'' ''in'' ''data'' True 0 9 demo_routed = (g, es, err)"
    by (metis prod_cases3)
  have "delivers_to demo_routed ''c1'' ''in'' = Some (LinkDest 7)" by code_simp
  with payload_reaches_its_destination [OF r] r show ?thesis by (simp add: Let_def)
qed

text \<open>
  C23. The goroutine that unroutes a circuit after a timeout, with other goroutines changing the
  forwarder between its ticks: it returns at the first tick at which the circuit's xgress has
  received nothing from its link for the check interval, or is gone, or when the forwarder closes,
  whichever comes first, and not before. At such a tick the circuit loses its table, its endpoints
  are gone from the destinations and have been told, and nothing of any other circuit or address
  changes; when the forwarder closes nothing changes.
\<close>

theorem unroute_timeout_ends_circuit:
  assumes "0 < interval" "xgress_only f c" "\<forall>ev \<in> set evs. \<forall>h. xgress_only h c \<longrightarrow> xgress_only (fst ev h) c"
    and "k < length evs" "stops interval c (snd (evs ! k)) (state_at evs k f)"
  shows "\<exists>j \<le> k. \<exists>g es. unrouteTimeout interval c evs f = Some (g, es :: 'm fwd_effect list, True) \<and>
    stops interval c (snd (evs ! j)) (state_at evs j f) \<and> (\<forall>i < j. \<not> stops interval c (snd (evs ! i)) (state_at evs i f)) \<and>
    (case snd (evs ! j) of
       CloseNotified \<Rightarrow> g = state_at evs j f \<and> es = []
     | Tick now lastRx \<Rightarrow>
         map_of (circuits g) = (map_of (circuits (state_at evs j f)))(c := None) \<and>
         xgress_addrs g = (xgress_addrs (state_at evs j f))(c := None) \<and>
         (\<forall>a. destinations g a =
            (if \<exists>as. xgress_addrs (state_at evs j f) c = Some as \<and> a \<in> set as then None else destinations (state_at evs j f) a)) \<and>
         (\<forall>e. e \<in> set es \<longleftrightarrow> (\<exists>as. xgress_addrs (state_at evs j f) c = Some as \<and>
            (\<exists>a \<in> set as. \<exists>d. destinations (state_at evs j f) a = Some d \<and> e = Unrouted d))))"
  using unroute_loop_ends [OF assms(2-5), where 'm = 'm] assms(1)
  unfolding unrouteTimeout_def stopped_def circuit_ended_def by simp

definition demo_unroute :: "((Forwarder \<Rightarrow> Forwarder) \<times> unroute_event) list" where
  "demo_unroute = [(id, Tick 2000 (\<lambda>_. 1000)), (removeDestination ''l1'', Tick 7000 (\<lambda>_. 1000))]"

theorem unroute_timeout_ends_circuit_witness:
  "\<exists>g es. unrouteTimeout 5000000000 ''c1'' demo_unroute demo_routed = Some (g, es :: unit fwd_effect list, True) \<and>
     map_of (circuits g) ''c1'' = None \<and> destinations g ''in'' = None"
proof -
  have addr: "xgress_addrs demo_routed ''c1'' = Some [''in'']" "destinations demo_routed ''in'' = Some (XgressDest 1)"
    by code_simp+
  then have only: "xgress_only demo_routed ''c1''" by (simp add: xgress_only_def)
  have rely: "\<forall>ev \<in> set demo_unroute. \<forall>h. xgress_only h ''c1'' \<longrightarrow> xgress_only (fst ev h) ''c1''"
    by (auto simp: xgress_only_def demo_unroute_def)
  have stop: "\<not> stops 5000000000 ''c1'' (snd (demo_unroute ! 0)) (state_at demo_unroute 0 demo_routed)"
    "stops 5000000000 ''c1'' (snd (demo_unroute ! 1)) (state_at demo_unroute 1 demo_routed)" by code_simp+
  have len: "1 < length demo_unroute" by (simp add: demo_unroute_def)
  have at1: "snd (demo_unroute ! 1) = Tick 7000 (\<lambda>_. 1000)"
    "xgress_addrs (state_at demo_unroute 1 demo_routed) ''c1'' = Some [''in'']"
    using addr by (simp_all add: demo_unroute_def)
  have one: "j = 1" if "j \<le> 1" "stops 5000000000 ''c1'' (snd (demo_unroute ! j)) (state_at demo_unroute j demo_routed)" for j
    using that stop(1) by (cases j) auto
  have pos: "0 < (5000000000 :: int)" by simp
  show ?thesis
    using unroute_timeout_ends_circuit [OF pos only rely len stop(2), where 'm = unit]
    by (elim exE conjE) (frule (1) one, hypsubst, simp add: at1 [unfolded One_nat_def])
qed

text \<open>
  C24. Where the xgress package answers a trace route with a message that is not itself a trace
  route, forwarding a control message always returns; and a trace route that has used up its hops at a router
  with forwards in both directions is answered to where it came from, and not passed on.
\<close>

theorem trace_route_is_answered:
  assumes "\<forall>c. \<not> ctl_isTraceRoute api (ctl_traceResponse api c)"
  shows "ForwardControl api send now src c f \<noteq> None \<and>
    ((\<forall>c. ctl_circuitId api (ctl_traceResponse api c) = ctl_circuitId api c) \<longrightarrow>
      ctl_circuitId api (fst (ctl_decrementHop api c)) = ctl_circuitId api c \<longrightarrow>
      ctl_isTraceRoute api c \<longrightarrow> snd (ctl_decrementHop api c) = 0 \<longrightarrow>
      routes_of f (ctl_circuitId api c) src = Some dst \<longrightarrow> routes_of f (ctl_circuitId api c) dst = Some src \<longrightarrow>
      destinations f dst \<noteq> None \<longrightarrow> destinations f src = Some d \<longrightarrow> (\<forall>m. send d m = None) \<longrightarrow>
      (\<exists>g. ForwardControl api send now src c f =
         Some (g, [SentTo d (ctl_traceResponse api (fst (ctl_decrementHop api c)))], None)))"
proof (intro conjI impI)
  show "ForwardControl api send now src c f \<noteq> None"
    using assms by (intro ForwardControl_returns) blast
qed (rule ForwardControl_trace; use assms in blast)

text \<open>An instance of the control messages: a circuit, whether it is a trace route, and its hops.\<close>

definition demo_api :: "(string \<times> bool \<times> 32 word) control_api" where
  "demo_api = \<lparr>ctl_circuitId = fst, ctl_isTraceRoute = (\<lambda>c. fst (snd c)),
     ctl_decrementHop = (\<lambda>(c, t, h). ((c, t, h - 1), h - 1)),
     ctl_traceResponse = (\<lambda>(c, t, h). (c, False, h)), ctl_putError = (\<lambda>_ c. c)\<rparr>"

theorem trace_route_is_answered_witness:
  "\<exists>g. ForwardControl demo_api (\<lambda>_ _. None) 3 ''in'' (''c1'', True, 1) demo_routed =
     Some (g, [SentTo (XgressDest 1) (''c1'', False, 0)], None)"
proof -
  have r: "routes_of demo_routed ''c1'' ''in'' = Some ''l1''" "routes_of demo_routed ''c1'' ''l1'' = Some ''in''"
    "destinations demo_routed ''l1'' = Some (LinkDest 7)" "destinations demo_routed ''in'' = Some (XgressDest 1)"
    by code_simp+
  have api: "\<forall>c. \<not> ctl_isTraceRoute demo_api (ctl_traceResponse demo_api c)"
    "\<forall>c. ctl_circuitId demo_api (ctl_traceResponse demo_api c) = ctl_circuitId demo_api c"
    by (auto simp: demo_api_def)
  have one: "ctl_circuitId demo_api (''c1'', True, 1) = ''c1''" "ctl_isTraceRoute demo_api (''c1'', True, 1)"
    "ctl_decrementHop demo_api (''c1'', True, 1) = ((''c1'', True, 0), 0)"
    "ctl_circuitId demo_api (''c1'', True, 0) = ''c1''"
    "ctl_traceResponse demo_api (''c1'', True, 0) = (''c1'', False, 0)"
    by (simp_all add: demo_api_def)
  from trace_route_is_answered [OF api(1), where c = "(''c1'', True, 1)" and f = demo_routed
      and src = "''in''" and dst = "''l1''" and d = "XgressDest 1" and send = "\<lambda>_ _. None" and now = 3]
  show ?thesis using r one api(2) by simp
qed

text \<open>
  C25. One turn of the fault reporter reports every pending circuit fault and forgets it:
  to the circuit's controller, in one message with the other circuits of that controller, when there is a channel
  to it; to every controller when the owner is not known.
\<close>

theorem pending_faults_are_reported:
  fixes fl :: Faulter and ctrlId :: string
  defines "workload \<equiv> map fst (filter (\<lambda>p. snd p = ctrlId) (fl_circuitIds fl))"
  assumes "(circuitId, ctrlId) \<in> set (fl_circuitIds fl)"
  shows "fl_circuitIds (fst (faulter_turn ord ctrls fl)) = [] \<and> circuitId \<in> set workload \<and>
    (ctrlId \<noteq> [] \<and> ctrlId \<in> set ctrls \<longrightarrow>
       FaultMsg ctrlId ForwardFault (go_join '' '' workload) \<in> set (snd (faulter_turn ord ctrls fl))) \<and>
    (ctrlId = [] \<longrightarrow> (\<forall>c \<in> set ctrls.
       FaultMsg c UnknownOwnerForwardFault (go_join '' '' workload) \<in> set (snd (faulter_turn ord ctrls fl))))"
proof -
  have "map_of (workloadByCtrl (fl_circuitIds fl)) ctrlId = Some workload"
    using assms(2) by (force simp: workload_def workloadByCtrl_at)
  then have w: "(ctrlId, workload) \<in> set (go_range ord (workloadByCtrl (fl_circuitIds fl)))"
    by (simp add: map_of_SomeD)
  have "circuitId \<in> set workload" using assms(2) by (force simp: workload_def)
  moreover have "set (report_workload ctrls (ctrlId, workload)) \<subseteq> set (snd (faulter_turn ord ctrls fl))"
    using w by (auto simp: faulter_turn_spec)
  ultimately show ?thesis
    by (auto simp: faulter_turn_spec [of ord ctrls fl, THEN arg_cong [where f = fst]] report_workload_def)
qed

theorem pending_faults_are_reported_witness:
  "FaultMsg ''ctrl1'' ForwardFault ''c1 c3'' \<in> set (snd (faulter_turn rev [''ctrl1'', ''ctrl2'']
     \<lparr>fl_interval = 1, fl_circuitIds = [(''c1'', ''ctrl1''), (''c2'', ''''), (''c3'', ''ctrl1'')]\<rparr>))"
  using pending_faults_are_reported [of "''c1''" "''ctrl1''"
    "\<lparr>fl_interval = 1, fl_circuitIds = [(''c1'', ''ctrl1''), (''c2'', ''''), (''c3'', ''ctrl1'')]\<rparr>" rev
    "[''ctrl1'', ''ctrl2'']"]
  by simp

text \<open>
  C26. The scanner asks a controller to confirm a circuit, with its idle time, exactly when
  the circuit belongs to that controller, has been idle for longer than the timeout and there is a channel to the controller.
\<close>

theorem idle_circuits_are_confirmed:
  assumes "keys_distinct (circuits f)"
  shows "(\<exists>m. (ctrlId, m) \<in> set (scan ord1 ord2 ctrls timeout now f) \<and> map_of m c = Some idle) \<longleftrightarrow>
    (\<exists>ft. map_of (circuits f) c = Some ft \<and> ft_ctrlId ft = ctrlId \<and> ctrlId \<in> set ctrls \<and>
       idle = idle_time now ft \<and> timeout < idle)"
proof -
  let ?i = "idle_circuits timeout now (go_range ord1 (circuits f))"
  have d: "keys_distinct (go_range ord1 (circuits f))"
    using assms mset_eq_imp_distinct_iff [of "map fst (go_range ord1 (circuits f))" "map fst (circuits f)"]
    by (simp add: mset_map)
  then have same: "map_of (go_range ord1 (circuits f)) = map_of (circuits f)"
    using map_of_inject_set [OF d assms] by simp
  note shape = idle_fold_shape [of "[]" timeout now "go_range ord1 (circuits f)", folded idle_circuits_fold]
  have i: "keys_distinct ?i" using shape by simp
  have ne: "m \<noteq> []" if "(k, m) \<in> set ?i" for k m
    using shape that by (metis (no_types, lifting) distinct.simps(1) empty_iff image_empty imageI list.set(1)
        list.simps(8) snd_conv)
  have mem: "(ctrlId, m) \<in> set (scan ord1 ord2 ctrls timeout now f) \<longleftrightarrow> map_of ?i ctrlId = Some m \<and> ctrlId \<in> set ctrls" for m
    unfolding scan_def mem_iff_map_of [OF i, symmetric] using ne by auto
  have "(\<exists>m. (ctrlId, m) \<in> set (scan ord1 ord2 ctrls timeout now f) \<and> map_of m c = Some idle) \<longleftrightarrow>
      ctrlId \<in> set ctrls \<and> idle_at ?i ctrlId c = Some idle"
    unfolding mem idle_at_def by (auto split: option.split_asm)
  also have "idle_at ?i ctrlId c = (case map_of (circuits f) c of
      Some ft \<Rightarrow> if timeout < idle_time now ft \<and> ft_ctrlId ft = ctrlId then Some (idle_time now ft) else None
    | None \<Rightarrow> None)"
    unfolding idle_circuits_fold idle_at_fold [OF d] same by (simp add: idle_at_def split: option.split)
  also have "(ctrlId \<in> set ctrls \<and> \<dots> = Some idle) \<longleftrightarrow> (\<exists>ft. map_of (circuits f) c = Some ft \<and> ft_ctrlId ft = ctrlId \<and> ctrlId \<in> set ctrls \<and>
       idle = idle_time now ft \<and> timeout < idle)"
    by (cases "map_of (circuits f) c") (auto split: if_splits)
  finally show ?thesis .
qed

theorem idle_circuits_are_confirmed_witness:
  "\<exists>m. (''ctrl1'', m) \<in> set (scan rev id [''ctrl1''] 1000000 60000 demo_routed) \<and> map_of m ''c1'' = Some 59995000000"
proof -
  have "keys_distinct (circuits demo_routed)" by code_simp
  moreover have "map_option (\<lambda>ft. (ft_ctrlId ft, idle_time 60000 ft)) (map_of (circuits demo_routed) ''c1'') =
      Some (''ctrl1'', 59995000000)" by code_simp
  ultimately show ?thesis
    using idle_circuits_are_confirmed [of demo_routed "''ctrl1''" rev id "[''ctrl1'']" 1000000 60000 "''c1''" 59995000000]
    by auto
qed

end
