(* ===== verification/Delivery.thy ===== *)
theory Delivery
  imports Forwarder
begin

text \<open>
  The handlers that feed a router's forwarder: payloads and acknowledgements that arrive over a link
  (\<open>router/handler_link/payload.go\<close>, \<open>ack.go\<close>) and payloads an xgress endpoint sends
  (\<open>router/handler_xgress/data_plane.go\<close>). Composed along a path of routers they carry a payload
  from one end of a circuit to the other. Unmarshalling belongs to the xgress package; the handlers
  are modelled from the decoded message on.
\<close>

section \<open>Handlers\<close>

definition payload_HandleReceive ::
  "(destination \<Rightarrow> 'p \<times> int \<times> PayloadType \<Rightarrow> string option) \<Rightarrow> string \<Rightarrow> string \<Rightarrow> 'p \<Rightarrow> int \<Rightarrow> Forwarder \<Rightarrow> Faulter option \<Rightarrow>
   Forwarder \<times> ('p \<times> int \<times> PayloadType) fwd_effect list \<times> Faulter option" where
  "payload_HandleReceive send linkId circuitId payload now f faulter =
     (let (f1, es, err) = ForwardPayload send circuitId linkId payload 0 now f
      in (f1, es, if err \<noteq> None then ReportForwardingFault circuitId '''' f1 faulter else faulter))"

definition ack_HandleReceive ::
  "(destination \<Rightarrow> 'a \<Rightarrow> string option) \<Rightarrow> string \<Rightarrow> string \<Rightarrow> 'a \<Rightarrow> int \<Rightarrow> Forwarder \<Rightarrow> Forwarder \<times> 'a fwd_effect list" where
  "ack_HandleReceive send linkId circuitId ack now f =
     (let (f1, es, err) = ForwardAcknowledgement send circuitId linkId ack now f in (f1, es))"

text \<open>
  An xgress endpoint retries while the destination's queue is full, which \<open>isTimeout\<close>
  (\<open>channel.IsTimeout\<close>) tells. The answer of each attempt and the clock are oracles indexed by the
  attempt; the effects are those of the last attempt.
\<close>

fun timed_out :: "(string \<Rightarrow> bool) \<Rightarrow> fwd_error \<Rightarrow> bool" where
  "timed_out isTimeout (SendFailed e) = isTimeout e"
| "timed_out isTimeout e = False"

partial_function (option) adapter_ForwardPayload ::
  "(nat \<Rightarrow> destination \<Rightarrow> 'p \<times> int \<times> PayloadType \<Rightarrow> string option) \<Rightarrow> (string \<Rightarrow> bool) \<Rightarrow> (nat \<Rightarrow> int) \<Rightarrow> nat \<Rightarrow>
   string \<Rightarrow> string \<Rightarrow> string \<Rightarrow> 'p \<Rightarrow> Forwarder \<Rightarrow> Faulter option \<Rightarrow>
   (Forwarder \<times> ('p \<times> int \<times> PayloadType) fwd_effect list \<times> fwd_error option \<times> Faulter option) option" where
  [code]: "adapter_ForwardPayload send isTimeout clock t circuitId ctrlId addr payload f faulter =
     (case ForwardPayload (send t) circuitId addr payload 1000000000 (clock t) f of
        (f1, es, None) \<Rightarrow> Some (f1, es, None, faulter)
      | (f1, es, Some e) \<Rightarrow>
          if timed_out isTimeout e
          then adapter_ForwardPayload send isTimeout clock (Suc t) circuitId ctrlId addr payload f1 faulter
          else Some (f1, es, Some e, ReportForwardingFault circuitId ctrlId f1 faulter))"

section \<open>A circuit of routers\<close>

definition install :: "string \<Rightarrow> int \<Rightarrow> Route \<Rightarrow> Forwarder \<Rightarrow> Forwarder" where
  "install ctrlId now rt f = fst (Forwarder_Route ctrlId rt now f :: Forwarder \<times> unit fwd_effect list \<times> fwd_error option)"

definition accepts :: "string \<Rightarrow> int \<Rightarrow> Route \<Rightarrow> Forwarder \<Rightarrow> bool" where
  "accepts ctrlId now rt f \<longleftrightarrow>
     snd (snd (Forwarder_Route ctrlId rt now f :: Forwarder \<times> unit fwd_effect list \<times> fwd_error option)) = None"

text \<open>
  What is sent to a link arrives at the next router of the list, whose handler passes it on; what is
  sent to an xgress endpoint has arrived. The result is the endpoint, the payload and the number of
  routers not reached.
\<close>

fun relay ::
  "(nat \<Rightarrow> string) \<Rightarrow> string \<Rightarrow> int \<Rightarrow> ('p \<times> int \<times> PayloadType) fwd_effect list \<Rightarrow> Forwarder list \<Rightarrow> (nat \<times> 'p \<times> nat) option" where
  "relay linkId c now [SentTo (XgressDest x) m] fs = Some (x, fst m, length fs)"
| "relay linkId c now [SentTo (LinkDest l) m] (f # fs) =
     relay linkId c now (fst (snd (payload_HandleReceive (\<lambda>d m. None) (linkId l) c (fst m) now f None))) fs"
| "relay linkId c now es fs = None"

definition send_along ::
  "(nat \<Rightarrow> string) \<Rightarrow> (nat \<Rightarrow> destination \<Rightarrow> 'p \<times> int \<times> PayloadType \<Rightarrow> string option) \<Rightarrow> (string \<Rightarrow> bool) \<Rightarrow> (nat \<Rightarrow> int) \<Rightarrow> int \<Rightarrow>
   string \<Rightarrow> string \<Rightarrow> string \<Rightarrow> 'p \<Rightarrow> Forwarder list \<Rightarrow> (nat \<times> 'p \<times> nat) option" where
  "send_along linkId send isTimeout clock now circuitId ctrlId addr payload fs =
     (case fs of
        [] \<Rightarrow> None
      | f # rest \<Rightarrow>
          (case adapter_ForwardPayload send isTimeout clock 0 circuitId ctrlId addr payload f None of
             Some (f1, es, None, fl) \<Rightarrow> relay linkId circuitId now es rest
           | _ \<Rightarrow> None))"

section \<open>One hop\<close>

lemma adapter_delivers:
  assumes "delivers_to f c addr = Some d"
    and "\<forall>m. \<exists>k. send (t + k) d m = None \<and> (\<forall>j < k. \<exists>e. send (t + j) d m = Some e \<and> isTimeout e)"
  shows "\<exists>g m. adapter_ForwardPayload send isTimeout clock t c ctrl addr p f fl = Some (g, [SentTo d m], None, fl) \<and> fst m = p"
proof -
  obtain k where k: "send (t + k) d (p, 1000000000, PayloadTypeXg) = None"
      "\<forall>j < k. \<exists>e. send (t + j) d (p, 1000000000, PayloadTypeXg) = Some e \<and> isTimeout e"
    using assms(2) by blast
  from k assms(1) show ?thesis
  proof (induction k arbitrary: t f)
    case 0
    obtain g es err where r: "ForwardPayload (send t) c addr p 1000000000 (clock t) f = (g, es, err)" by (metis prod_cases3)
    with 0 have "es = [SentTo d (p, 1000000000, PayloadTypeXg)]" "err = None"
      by (auto simp: ForwardPayload_def forwardPayload_def Let_def delivers_to_def routes_of_def getForwardTable_def
          getForwardAddress_def split: option.splits)
    with r show ?case by (subst adapter_ForwardPayload.simps) simp
  next
    case (Suc k)
    obtain g es err where r: "ForwardPayload (send t) c addr p 1000000000 (clock t) f = (g, es, err)" by (metis prod_cases3)
    from Suc.prems(2) obtain e where e: "send t d (p, 1000000000, PayloadTypeXg) = Some e" "isTimeout e" by force
    with r Suc.prems(3) have "err = Some (SendFailed e)"
      by (auto simp: ForwardPayload_def forwardPayload_def Let_def delivers_to_def routes_of_def getForwardTable_def
          getForwardAddress_def split: option.splits)
    moreover have "delivers_to g c addr = Some d"
      using forwardPayload_delivers [OF r [unfolded ForwardPayload_def]] Suc.prems(3)
      by (auto simp: delivers_to_def split: option.splits)
    moreover have "send (Suc t + k) d (p, 1000000000, PayloadTypeXg) = None"
      "\<forall>j < k. \<exists>e. send (Suc t + j) d (p, 1000000000, PayloadTypeXg) = Some e \<and> isTimeout e"
      using Suc.prems(1,2) by (auto dest: spec [of _ "Suc _"])
    ultimately show ?case using Suc.IH [of "Suc t" g] r e(2) by (subst adapter_ForwardPayload.simps) simp
  qed
qed

lemma receive_delivers:
  assumes "delivers_to f c linkId = Some d"
  shows "\<exists>m. fst (snd (payload_HandleReceive (\<lambda>d m. None) linkId c p now f fl)) = [SentTo d m] \<and> fst m = p"
proof -
  obtain g es err where r: "ForwardPayload (\<lambda>d m. None) c linkId p 0 now f = (g, es, err)" by (metis prod_cases3)
  from forwardPayload_delivers [OF this [unfolded ForwardPayload_def]] assms r show ?thesis
    by (auto simp: payload_HandleReceive_def)
qed

section \<open>Along the path\<close>

lemma relay_chain:
  assumes "length as = Suc (length gs)" "gs \<noteq> []" "\<forall>i < length gs. routes_of (gs ! i) c (as ! i) = Some (as ! Suc i)"
    and "\<forall>i. Suc i < length gs \<longrightarrow> (\<exists>l. destinations (gs ! i) (as ! Suc i) = Some (LinkDest l) \<and> linkId l = as ! Suc i)"
    and "destinations (last gs) (last as) = Some (XgressDest b)"
    and "delivers_to (hd gs) c (hd as) = Some d" "fst m = p"
  shows "relay linkId c now [SentTo d m] (tl gs) = Some (b, p, 0)"
  using assms
proof (induction gs arbitrary: as d m)
  case (Cons g gs)
  then obtain a a' as' where as: "as = a # a' # as'" by (metis Suc_length_conv)
  from Cons.prems(3) as have r: "routes_of g c a = Some a'" by force
  show ?case
  proof (cases gs)
    case Nil
    with Cons.prems(1,5,6,7) as r show ?thesis by (auto simp: delivers_to_def)
  next
    case (Cons h hs)
    from Cons.prems(4) [rule_format, of 0] Cons as obtain l where l: "destinations g a' = Some (LinkDest l)" "linkId l = a'" by auto
    then have d: "d = LinkDest l" using Cons.prems(6) as r by (simp add: delivers_to_def)
    have shift: "\<forall>i < length gs. routes_of (gs ! i) c ((a' # as') ! i) = Some ((a' # as') ! Suc i)"
      "\<forall>i. Suc i < length gs \<longrightarrow> (\<exists>l. destinations (gs ! i) ((a' # as') ! Suc i) = Some (LinkDest l) \<and> linkId l = (a' # as') ! Suc i)"
      using Cons.prems(3,4) as by (auto dest: spec [of _ "Suc _"])
    from shift(1) Cons have h: "routes_of h c a' = Some ((a' # as') ! Suc 0)" by force
    have "\<exists>e. destinations h ((a' # as') ! Suc 0) = Some e"
    proof (cases hs)
      case Nil
      with Cons Cons.prems(1,5) as show ?thesis by (cases as') auto
    next
      case (Cons h' hs')
      with \<open>gs = h # hs\<close> shift(2) [rule_format, of 0] show ?thesis by auto
    qed
    with h obtain e where "delivers_to h c a' = Some e" by (auto simp: delivers_to_def)
    moreover from receive_delivers [OF this, of p now None] obtain m' where
      m': "fst (snd (payload_HandleReceive (\<lambda>d m. None) a' c p now h None)) = [SentTo e m']" "fst m' = p" by auto
    ultimately have "relay linkId c now [SentTo e m'] (tl gs) = Some (b, p, 0)"
      using Cons.IH [of "a' # as'" e m'] shift Cons Cons.prems(1,5) as by simp
    with Cons d l m' Cons.prems(7) show ?thesis by simp
  qed
qed simp

lemma send_chain:
  assumes "length as = Suc (length gs)" "gs \<noteq> []" "\<forall>i < length gs. routes_of (gs ! i) c (as ! i) = Some (as ! Suc i)"
    and "\<forall>i. Suc i < length gs \<longrightarrow> (\<exists>l. destinations (gs ! i) (as ! Suc i) = Some (LinkDest l) \<and> linkId l = as ! Suc i)"
    and "destinations (last gs) (last as) = Some (XgressDest b)"
    and "\<forall>d m. \<exists>k. send k d m = None \<and> (\<forall>j < k. \<exists>e. send j d m = Some e \<and> isTimeout e)"
  shows "send_along linkId send isTimeout clock now c ctrl (hd as) p gs = Some (b, p, 0)"
proof -
  obtain g rest where gs: "gs = g # rest" using assms(2) by (cases gs) auto
  obtain a a' as' where as: "as = a # a' # as'" using assms(1) gs by (metis Suc_length_conv length_Cons)
  have "\<exists>e. destinations g a' = Some e"
    using assms(1,5) assms(4) [rule_format, of 0] gs as by (cases rest; cases as') auto
  moreover have "routes_of g c a = Some a'" using assms(3) gs as by force
  ultimately obtain d where d: "delivers_to g c a = Some d" by (auto simp: delivers_to_def)
  from adapter_delivers [OF this, of send 0 isTimeout clock ctrl p None] assms(6) obtain g' m where
    "adapter_ForwardPayload send isTimeout clock 0 c ctrl a p g None = Some (g', [SentTo d m], None, None)" "fst m = p" by auto
  with relay_chain [OF assms(1-5), of d m p now] d gs as show ?thesis by (simp add: send_along_def)
qed

text \<open>One route message installed at its router.\<close>

lemma install_hop:
  assumes "set (forward_pairs rt) = {(a, b), (b, a)}" "a \<noteq> b" "rt_circuitId rt = c"
    and "destinations f a \<noteq> None" "destinations f b \<noteq> None"
  shows "accepts ctrlId now rt f \<and> destinations (install ctrlId now rt f) = destinations f \<and>
    routes_of (install ctrlId now rt f) c a = Some b \<and> routes_of (install ctrlId now rt f) c b = Some a"
proof -
  obtain g err and es :: "unit fwd_effect list" where r: "Forwarder_Route ctrlId rt now f = (g, es, err)" by (metis prod_cases3)
  have "DstAddress fw = a \<or> DstAddress fw = b" if "fw \<in> set (rt_forwards rt)" for fw
  proof -
    have "(SrcAddress fw, DstAddress fw) \<in> set (forward_pairs rt)" using that by (simp add: forward_pairs_def)
    then show ?thesis unfolding assms(1) by auto
  qed
  then have v: "valid_forward f fw" if "fw \<in> set (rt_forwards rt)" for fw
    using that assms(4,5) by (auto simp: valid_forward_def HasDestination_def)
  note spec = Forwarder_Route_spec [OF r]
  have err: "err = None"
  proof (rule ccontr)
    assume "err \<noteq> None"
    with spec obtain k where "k < length (rt_forwards rt)" "\<not> valid_forward f (rt_forwards rt ! k)" by auto
    with v nth_mem show False by blast
  qed
  then have m: "routes_of g c = routes_of f c ++ forward_map (rt_forwards rt)" using spec assms(3) by auto
  have fm: "forward_map (rt_forwards rt) x = Some y" if xy: "(x, y) \<in> {(a, b), (b, a)}" for x y
  proof -
    have s: "set (rev (forward_pairs rt)) = {(a, b), (b, a)}" using assms(1) by simp
    then obtain z where z: "map_of (rev (forward_pairs rt)) x = Some z" using xy by (metis weak_map_of_SomeI)
    then have "(x, z) \<in> {(a, b), (b, a)}" using s map_of_SomeD by fastforce
    with xy assms(2) z show ?thesis by (auto simp: forward_map_def forward_pairs_def)
  qed
  show ?thesis using spec err m fm by (simp add: accepts_def install_def r)
qed

lemma route_messages_circuit: "m \<in> set (CreateRouteMessages n p att cid bnd addr rem) \<Longrightarrow> rt_circuitId m = cid"
  by (auto simp: CreateRouteMessages_def Let_def split: if_splits)

text \<open>
  The routers of a path before the circuit is set up: each has registered the links of the path it
  is an end of, the first the initiator's xgress endpoint \<open>a\<close>, the last the terminator's \<open>b\<close>.
\<close>

definition attached :: "net \<Rightarrow> Path \<Rightarrow> Forwarder list \<Rightarrow> nat \<Rightarrow> nat \<Rightarrow> bool" where
  "attached n p fs a b \<longleftrightarrow> length fs = Suc (length (Links p)) \<and>
     (\<forall>i < length (Links p). destinations (fs ! i) (l_id (links n (Links p ! i))) = Some (LinkDest (Links p ! i)) \<and>
        destinations (fs ! Suc i) (l_id (links n (Links p ! i))) = Some (LinkDest (Links p ! i))) \<and>
     destinations (fs ! 0) (IngressId p) = Some (XgressDest a) \<and>
     destinations (fs ! length (Links p)) (EgressId p) = Some (XgressDest b)"

lemma attached_addrs:
  assumes "attached n p fs a b" "i \<le> length (Links p)"
  shows "destinations (fs ! i) (path_addrs n p ! i) = Some (if i = 0 then XgressDest a else LinkDest (Links p ! (i - 1)))"
    "destinations (fs ! i) (path_addrs n p ! Suc i) = Some (if i = length (Links p) then XgressDest b else LinkDest (Links p ! i))"
proof -
  show "destinations (fs ! i) (path_addrs n p ! i) = Some (if i = 0 then XgressDest a else LinkDest (Links p ! (i - 1)))"
    using assms path_addrs_nth(1) [of n p] path_addrs_nth(2) [of "i - 1" p n] by (cases i) (auto simp: attached_def)
  show "destinations (fs ! i) (path_addrs n p ! Suc i) = Some (if i = length (Links p) then XgressDest b else LinkDest (Links p ! i))"
    using assms path_addrs_nth(2) [of i p n] path_addrs_nth(3) [of n p] by (auto simp: attached_def)
qed

definition install_all :: "string \<Rightarrow> int \<Rightarrow> Route list \<Rightarrow> Forwarder list \<Rightarrow> Forwarder list" where
  "install_all ctrlId now msgs fs = map2 (install ctrlId now) msgs fs"

lemma path_addrs_length: "length (path_addrs n p) = Suc (Suc (length (Links p)))"
  by (simp add: path_addrs_def)

lemma installed_hop:
  fixes n p att c bnd addr rem
  defines "msgs \<equiv> CreateRouteMessages n p att c bnd addr rem"
  assumes "attached n p fs a b" "distinct (path_addrs n p)" "i \<le> length (Links p)"
  shows "accepts ctrlId now (msgs ! i) (fs ! i) \<and>
    destinations (install_all ctrlId now msgs fs ! i) = destinations (fs ! i) \<and>
    routes_of (install_all ctrlId now msgs fs ! i) c (path_addrs n p ! i) = Some (path_addrs n p ! Suc i) \<and>
    routes_of (install_all ctrlId now msgs fs ! i) c (path_addrs n p ! Suc i) = Some (path_addrs n p ! i)"
proof -
  note nth = route_messages_nth [of n p att c bnd addr rem, folded msgs_def]
  have len: "length msgs = Suc (length (Links p))" "length fs = Suc (length (Links p))"
    using nth assms(2) by (simp_all add: attached_def)
  have ne: "path_addrs n p ! i \<noteq> path_addrs n p ! Suc i"
    using assms(3,4) by (simp add: nth_eq_iff_index_eq path_addrs_length)
  have "rt_circuitId (msgs ! i) = c" using len assms(4) route_messages_circuit nth_mem unfolding msgs_def by (metis less_Suc_eq_le)
  from install_hop [OF _ ne this, of "fs ! i" ctrlId now] nth assms(4) attached_addrs [OF assms(2,4)] len
  show ?thesis by (simp add: install_all_def)
qed

lemma installed_length:
  assumes "attached n p fs a b"
  shows "length (install_all ctrlId now (CreateRouteMessages n p att c bnd addr rem) fs) = Suc (length (Links p))"
  using assms route_messages_nth [of n p att c bnd addr rem] by (simp add: install_all_def attached_def)

lemma carried_forth:
  assumes at: "attached n p fs a b" and d: "distinct (path_addrs n p)"
    and s: "\<forall>d m. \<exists>k. send k d m = None \<and> (\<forall>j < k. \<exists>e. send j d m = Some e \<and> isTimeout e)"
  shows "send_along (\<lambda>l. l_id (links n l)) send isTimeout clock now' c ctrlId (IngressId p) x
    (install_all ctrlId now (CreateRouteMessages n p att c bnd addr rem) fs) = Some (b, x, 0)"
proof -
  let ?gs = "install_all ctrlId now (CreateRouteMessages n p att c bnd addr rem) fs"
  note len = installed_length [OF at, of ctrlId now att c bnd addr rem]
  note hop = installed_hop [OF at d, of _ ctrlId now att c bnd addr rem]
  have "last ?gs = ?gs ! length (Links p)" "last (path_addrs n p) = path_addrs n p ! Suc (length (Links p))"
    using len path_addrs_length [of n p] by (simp_all add: last_conv_nth flip: length_0_conv)
  then have "destinations (last ?gs) (last (path_addrs n p)) = Some (XgressDest b)"
    using hop [of "length (Links p)"] attached_addrs(2) [OF at] by simp
  moreover have "\<exists>l. destinations (?gs ! i) (path_addrs n p ! Suc i) = Some (LinkDest l) \<and> l_id (links n l) = path_addrs n p ! Suc i"
    if "Suc i < length ?gs" for i
    using that len hop [of i] attached_addrs(2) [OF at, of i] path_addrs_nth(2) [of i p n] by simp
  moreover have "\<forall>i < length ?gs. routes_of (?gs ! i) c (path_addrs n p ! i) = Some (path_addrs n p ! Suc i)"
    using hop len by simp
  ultimately have "send_along (\<lambda>l. l_id (links n l)) send isTimeout clock now' c ctrlId (hd (path_addrs n p)) x ?gs = Some (b, x, 0)"
    using len path_addrs_length [of n p] s by (intro send_chain) auto
  then show ?thesis by (simp add: path_addrs_def)
qed

lemma carried_back:
  assumes at: "attached n p fs a b" and d: "distinct (path_addrs n p)"
    and s: "\<forall>d m. \<exists>k. send k d m = None \<and> (\<forall>j < k. \<exists>e. send j d m = Some e \<and> isTimeout e)"
  shows "send_along (\<lambda>l. l_id (links n l)) send isTimeout clock now' c ctrlId (EgressId p) x
    (rev (install_all ctrlId now (CreateRouteMessages n p att c bnd addr rem) fs)) = Some (a, x, 0)"
proof -
  let ?gs = "install_all ctrlId now (CreateRouteMessages n p att c bnd addr rem) fs" and ?as = "path_addrs n p"
  note len = installed_length [OF at, of ctrlId now att c bnd addr rem] path_addrs_length [of n p]
  note hop = installed_hop [OF at d, of _ ctrlId now att c bnd addr rem]
  have r: "rev ?gs ! i = ?gs ! (length (Links p) - i)" "rev ?as ! i = ?as ! Suc (length (Links p) - i)"
    "rev ?as ! Suc i = ?as ! (length (Links p) - i)" if "i \<le> length (Links p)" for i
    using that len by (simp_all add: rev_nth Suc_diff_le)
  have "destinations (last (rev ?gs)) (last (rev ?as)) = Some (XgressDest a)"
    using hop [of 0] attached_addrs(1) [OF at, of 0] len by (simp add: last_rev hd_conv_nth flip: length_0_conv)
  moreover have "\<exists>l. destinations (rev ?gs ! i) (rev ?as ! Suc i) = Some (LinkDest l) \<and> l_id (links n l) = rev ?as ! Suc i"
    if "Suc i < length (rev ?gs)" for i
    using that len r [of i] hop [of "length (Links p) - i"] attached_addrs(1) [OF at, of "length (Links p) - i"]
      path_addrs_nth(2) [of "length (Links p) - i - 1" p n] by (simp add: Suc_diff_Suc)
  moreover have "\<forall>i < length (rev ?gs). routes_of (rev ?gs ! i) c (rev ?as ! i) = Some (rev ?as ! Suc i)"
    using hop len r by simp
  ultimately have "send_along (\<lambda>l. l_id (links n l)) send isTimeout clock now' c ctrlId (hd (rev ?as)) x (rev ?gs) = Some (a, x, 0)"
    using len s by (intro send_chain) auto
  then show ?thesis by (simp add: path_addrs_def)
qed

section \<open>A path of three routers\<close>

definition three_path :: Path where
  "three_path = \<lparr>Nodes = [0, 1, 2], Links = [0, 1], IngressId = ''in'', EgressId = ''out'', InitiatorLocalAddr = '''',
     InitiatorRemoteAddr = '''', TerminatorLocalAddr = '''', TerminatorRemoteAddr = ''''\<rparr>"

definition no_forwarder :: Forwarder where
  "no_forwarder = \<lparr>circuits = [], destinations = Map.empty, xgress_addrs = Map.empty\<rparr>"

definition three_routers :: "Forwarder list" where
  "three_routers =
     [RegisterLink ''l1'' 0 (RegisterDestination ''c'' ''in'' (XgressDest 4) no_forwarder),
      RegisterLink ''l2'' 1 (RegisterLink ''l1'' 0 no_forwarder),
      RegisterDestination ''c'' ''out'' (XgressDest 9) (RegisterLink ''l2'' 1 no_forwarder)]"

lemma three_attached: "attached demo_triangle three_path three_routers 4 9" "distinct (path_addrs demo_triangle three_path)"
proof -
  have ids: "l_id (links demo_triangle 0) = ''l1''" "l_id (links demo_triangle 1) = ''l2''" by code_simp+
  show "attached demo_triangle three_path three_routers 4 9"
    using ids by (simp add: attached_def three_path_def three_routers_def RegisterLink_def RegisterDestination_def addDestination_def
        linkDestinationToCircuit_def no_forwarder_def less_Suc_eq numeral_2_eq_2)
  show "distinct (path_addrs demo_triangle three_path)" using ids by (simp add: path_addrs_def three_path_def)
qed

lemma three_path_ingress: "IngressId three_path = ''in''"
  by (simp add: three_path_def)

end
