(* ===== verification/Terminator_Costs.thy ===== *)
theory Terminator_Costs
  imports Zt_Prelude
begin

text \<open>
  Terminator precedences and the global table of dynamic costs (\<open>controller/xt/costs.go\<close>),
  terminator events (\<open>xt/events.go\<close>) and the cost visitor that the cost based strategies embed
  (\<open>controller/xt_common/cost_visitor.go\<close>), with the stored form of a terminator
  (\<open>controller/model/terminator_model.go\<close>).

  A \<open>*TerminatorCosts\<close> is shared between the visitor and the global table, so cost objects live
  in a heap and both tables hold references into it. An operation that panics returns None.
\<close>

section \<open>Precedences\<close>

datatype precedence = PrecRequired | PrecDefault | PrecFailed | PrecUnknown

definition unknownMinCost :: "32 word" where "unknownMinCost = 65535 * 12"
definition failedMinCost :: "32 word" where "failedMinCost = 65535 * 8"
definition defaultMinCost :: "32 word" where "defaultMinCost = 65535 * 4"
definition requireMinCost :: "32 word" where "requireMinCost = 0"

lemmas min_costs = unknownMinCost_def failedMinCost_def defaultMinCost_def requireMinCost_def

fun prec_name :: "precedence \<Rightarrow> string" where
  "prec_name PrecRequired = ''required''"
| "prec_name PrecDefault = ''default''"
| "prec_name PrecFailed = ''failed''"
| "prec_name PrecUnknown = ''unknown''"

fun prec_minCost :: "precedence \<Rightarrow> 32 word" where
  "prec_minCost PrecRequired = requireMinCost"
| "prec_minCost PrecDefault = defaultMinCost"
| "prec_minCost PrecFailed = failedMinCost"
| "prec_minCost PrecUnknown = unknownMinCost"

fun prec_maxCost :: "precedence \<Rightarrow> 32 word" where
  "prec_maxCost PrecRequired = defaultMinCost - 1"
| "prec_maxCost PrecDefault = failedMinCost - 1"
| "prec_maxCost PrecFailed = unknownMinCost - 1"
| "prec_maxCost PrecUnknown = unknownMinCost + 65535 * 4 - 1"

definition Unbias :: "precedence \<Rightarrow> 32 word \<Rightarrow> 32 word" where
  "Unbias p cost = cost - prec_minCost p"

definition IsFailed :: "precedence \<Rightarrow> bool" where
  "IsFailed p = (prec_minCost p = failedMinCost)"

definition IsDefault :: "precedence \<Rightarrow> bool" where
  "IsDefault p = (prec_minCost p = defaultMinCost)"

definition IsRequired :: "precedence \<Rightarrow> bool" where
  "IsRequired p = (prec_minCost p = requireMinCost)"

definition GetBaseCost :: "precedence \<Rightarrow> 32 word" where
  "GetBaseCost p = prec_minCost p"

definition GetBiasedCost :: "precedence \<Rightarrow> 32 word \<Rightarrow> 32 word" where
  "GetBiasedCost p cost =
     (let result = prec_minCost p + cost in if result > prec_maxCost p then prec_maxCost p else result)"

definition GetPrecedenceForName :: "string \<Rightarrow> precedence" where
  "GetPrecedenceForName name =
     (if prec_name PrecRequired = name then PrecRequired
      else if prec_name PrecFailed = name then PrecFailed
      else PrecDefault)"

section \<open>The cost objects and the global table\<close>

type_synonym cost_ref = nat

record TerminatorCosts =
  CircuitCount :: "32 word"
  FailureCost :: "32 word"
  CachedCost :: "32 word"
  LastFailure :: int

record cost_store =
  cost_objs :: "cost_ref \<Rightarrow> TerminatorCosts"
  next_cost :: cost_ref
  costMap :: "string \<rightharpoonup> cost_ref"

definition no_costs :: TerminatorCosts where
  "no_costs = \<lparr>CircuitCount = 0, FailureCost = 0, CachedCost = 0, LastFailure = 0\<rparr>"

definition empty_costs :: cost_store where
  "empty_costs = \<lparr>cost_objs = (\<lambda>_. no_costs), next_cost = 0, costMap = Map.empty\<rparr>"

definition tc_cache :: "32 word \<Rightarrow> TerminatorCosts \<Rightarrow> TerminatorCosts" where
  "tc_cache circuitCost c =
     (let cost = ucast (CircuitCount c) * ucast circuitCost + ucast (FailureCost c) :: 64 word;
          cost' = if cost > 4294967295 then 4294967295 else cost
      in c\<lparr>CachedCost := ucast cost'\<rparr>)"

definition tc_Get :: "TerminatorCosts \<Rightarrow> 16 word" where
  "tc_Get c = (let val = CachedCost c in if val > 65535 then 65535 else ucast val)"

definition ClearCost :: "string \<Rightarrow> cost_store \<Rightarrow> cost_store" where
  "ClearCost terminatorId s = s\<lparr>costMap := (costMap s)(terminatorId := None)\<rparr>"

definition SetDynamicCost :: "string \<Rightarrow> cost_ref \<Rightarrow> cost_store \<Rightarrow> cost_store" where
  "SetDynamicCost terminatorId c s = s\<lparr>costMap := (costMap s)(terminatorId \<mapsto> c)\<rparr>"

definition GetDynamicCost :: "cost_store \<Rightarrow> string \<Rightarrow> 16 word" where
  "GetDynamicCost s terminatorId =
     (case costMap s terminatorId of Some c \<Rightarrow> tc_Get (cost_objs s c) | None \<Rightarrow> 0)"

definition costs_GetCost :: "cost_store \<Rightarrow> string \<Rightarrow> cost_ref option" where
  "costs_GetCost s terminatorId = (case costMap s terminatorId of Some c \<Rightarrow> Some c | None \<Rightarrow> None)"

section \<open>The cost visitor\<close>

record CostVisitor =
  Costs :: "(string \<times> cost_ref) list"
  cv_CircuitCost :: "32 word"
  cv_FailureCost :: "32 word"
  cv_SuccessCredit :: "32 word"

definition NewCostVisitor :: "16 word \<Rightarrow> 16 word \<Rightarrow> 16 word \<Rightarrow> CostVisitor" where
  "NewCostVisitor circuitCost failureCost successCredit =
     \<lparr>Costs = [], cv_CircuitCost = ucast circuitCost, cv_FailureCost = ucast failureCost,
      cv_SuccessCredit = ucast successCredit\<rparr>"

definition GetFailureCost :: "cost_store \<Rightarrow> CostVisitor \<Rightarrow> string \<Rightarrow> 32 word" where
  "GetFailureCost s v i = (case map_of (Costs v) i of None \<Rightarrow> 0 | Some r \<Rightarrow> FailureCost (cost_objs s r))"

definition GetCircuitCount :: "cost_store \<Rightarrow> CostVisitor \<Rightarrow> string \<Rightarrow> 32 word" where
  "GetCircuitCount s v i = (case map_of (Costs v) i of None \<Rightarrow> 0 | Some r \<Rightarrow> CircuitCount (cost_objs s r))"

definition visitor_GetCost :: "cost_store \<Rightarrow> CostVisitor \<Rightarrow> string \<Rightarrow> 32 word" where
  "visitor_GetCost s v i = (case map_of (Costs v) i of None \<Rightarrow> 0 | Some r \<Rightarrow> CachedCost (cost_objs s r))"

text \<open>
  Every visit goes through \<open>Costs.Upsert\<close> with a callback that allocates a cost object and
  enters it into the global table when the terminator has none; \<open>f\<close> is the rest of the callback,
  told whether the entry existed.
\<close>

definition cost_upsert ::
  "(bool \<Rightarrow> TerminatorCosts \<Rightarrow> TerminatorCosts) \<Rightarrow> string \<Rightarrow> cost_store \<times> CostVisitor \<Rightarrow> cost_store \<times> CostVisitor" where
  "cost_upsert f i sv =
     (let (s, v) = sv in
      case map_of (Costs v) i of
        Some r \<Rightarrow> (s\<lparr>cost_objs := (cost_objs s)(r := f True (cost_objs s r))\<rparr>, v)
      | None \<Rightarrow>
          let r = next_cost s;
              s1 = SetDynamicCost i r (s\<lparr>next_cost := r + 1\<rparr>)
          in (s1\<lparr>cost_objs := (cost_objs s1)(r := f False no_costs)\<rparr>,
              v\<lparr>Costs := AList.update i r (Costs v)\<rparr>))"

definition failed_cost :: "CostVisitor \<Rightarrow> int \<Rightarrow> TerminatorCosts \<Rightarrow> TerminatorCosts" where
  "failed_cost v now cost =
     (let cost1 = (if 4294967295 - FailureCost cost > cv_FailureCost v
                   then cost\<lparr>FailureCost := FailureCost cost + cv_FailureCost v\<rparr>
                   else cost\<lparr>FailureCost := 4294967295\<rparr>)
      in (tc_cache (cv_CircuitCost v) cost1)\<lparr>LastFailure := now\<rparr>)"

definition VisitDialFailed :: "string \<Rightarrow> int \<Rightarrow> cost_store \<times> CostVisitor \<Rightarrow> cost_store \<times> CostVisitor" where
  "VisitDialFailed i now sv = cost_upsert (\<lambda>_. failed_cost (snd sv) now) i sv"

definition succeeded_cost :: "CostVisitor \<Rightarrow> TerminatorCosts \<Rightarrow> TerminatorCosts" where
  "succeeded_cost v cost =
     (let cost1 = (if FailureCost cost > cv_SuccessCredit v
                   then cost\<lparr>FailureCost := FailureCost cost - cv_SuccessCredit v\<rparr>
                   else cost\<lparr>FailureCost := 0\<rparr>);
          cost2 = (if CircuitCount cost1 < 4294967295 div cv_CircuitCost v
                   then cost1\<lparr>CircuitCount := CircuitCount cost1 + 1\<rparr> else cost1)
      in tc_cache (cv_CircuitCost v) cost2)"

definition VisitDialSucceeded ::
  "string \<Rightarrow> cost_store \<times> CostVisitor \<Rightarrow> (cost_store \<times> CostVisitor) option" where
  "VisitDialSucceeded i sv =
     (if cv_CircuitCost (snd sv) = 0 then None
      else Some (cost_upsert (\<lambda>_. succeeded_cost (snd sv)) i sv))"

definition removed_cost :: "CostVisitor \<Rightarrow> TerminatorCosts \<Rightarrow> TerminatorCosts" where
  "removed_cost v cost =
     tc_cache (cv_CircuitCost v)
       (if CircuitCount cost > 0 then cost\<lparr>CircuitCount := CircuitCount cost - 1\<rparr> else cost)"

definition VisitCircuitRemoved :: "string \<Rightarrow> cost_store \<times> CostVisitor \<Rightarrow> cost_store \<times> CostVisitor" where
  "VisitCircuitRemoved i sv = cost_upsert (\<lambda>_. removed_cost (snd sv)) i sv"

definition credited_cost :: "CostVisitor \<Rightarrow> 8 word \<Rightarrow> TerminatorCosts \<Rightarrow> TerminatorCosts" where
  "credited_cost v credit cost =
     tc_cache (cv_CircuitCost v)
       (if FailureCost cost > ucast credit
        then cost\<lparr>FailureCost := FailureCost cost - ucast credit\<rparr> else cost)"

definition CreditAll ::
  "(string list \<Rightarrow> string list) \<Rightarrow> 8 word \<Rightarrow> cost_store \<times> CostVisitor \<Rightarrow> cost_store \<times> CostVisitor" where
  "CreditAll ord credit sv =
     (let keys = go_range ord (map fst (Costs (snd sv)))
      in fold (\<lambda>key sv. cost_upsert (\<lambda>_. credited_cost (snd sv) credit) key sv) keys sv)"

text \<open>
  \<open>uint64(math.Pow(2, float64(e)))\<close> for an integer exponent. The power is exact below 2 to the 64;
  beyond, the conversion of the float is left open by Go, and \<open>big\<close> is whatever it yields.
\<close>

definition pow2_u64 :: "64 word \<Rightarrow> int \<Rightarrow> 64 word" where
  "pow2_u64 big e = (if e < 0 then 0 else if e < 64 then push_bit (nat e) 1 else big)"

definition duration_since :: "int \<Rightarrow> int \<Rightarrow> int" where
  "duration_since now t = max (- (2 ^ 63)) (min MaxInt64 (now - t))"

definition exponential_credit :: "64 word \<Rightarrow> int \<Rightarrow> int \<Rightarrow> int \<Rightarrow> 32 word" where
  "exponential_credit big exponentBasis now lastFailure =
     (let credit64 = pow2_u64 big (i64 (duration_since now lastFailure sdiv exponentBasis));
          credit64 = (if credit64 > 4294967295 then 4294967295 else credit64);
          credit64 = (if credit64 < 10 then 10 else credit64)
      in ucast credit64)"

definition exp_credited_cost :: "CostVisitor \<Rightarrow> 64 word \<Rightarrow> int \<Rightarrow> int \<Rightarrow> bool \<Rightarrow> TerminatorCosts \<Rightarrow> TerminatorCosts" where
  "exp_credited_cost v big exponentBasis now exist cost =
     (if exist \<and> FailureCost cost > 0
      then let credit32 = exponential_credit big exponentBasis now (LastFailure cost)
           in tc_cache (cv_CircuitCost v)
                (if credit32 > FailureCost cost then cost\<lparr>FailureCost := 0\<rparr>
                 else cost\<lparr>FailureCost := FailureCost cost - credit32\<rparr>)
      else cost)"

definition CreditAllExponential ::
  "(string list \<Rightarrow> string list) \<Rightarrow> 64 word \<Rightarrow> int \<Rightarrow> int \<Rightarrow> cost_store \<times> CostVisitor \<Rightarrow>
   (cost_store \<times> CostVisitor) option" where
  "CreditAllExponential ord big exponentBasis now sv =
     (let keys = go_range ord (map fst (Costs (snd sv)))
      in if exponentBasis = 0 \<and> (\<exists>key \<in> set keys. GetFailureCost (fst sv) (snd sv) key > 0) then None
         else Some (fold (\<lambda>key sv. cost_upsert (exp_credited_cost (snd sv) big exponentBasis now) key sv) keys sv))"

definition HandleTerminatorChange :: "string list \<Rightarrow> CostVisitor \<Rightarrow> CostVisitor" where
  "HandleTerminatorChange removed v = v\<lparr>Costs := fold AList.delete removed (Costs v)\<rparr>"

section \<open>Terminator events\<close>

datatype terminator_event = DialFailedEvent string | DialSucceeded string | CircuitRemoved string

fun visitor_NotifyEvent ::
  "int \<Rightarrow> terminator_event \<Rightarrow> cost_store \<times> CostVisitor \<Rightarrow> (cost_store \<times> CostVisitor) option" where
  "visitor_NotifyEvent now (DialFailedEvent i) sv = Some (VisitDialFailed i now sv)"
| "visitor_NotifyEvent now (DialSucceeded i) sv = VisitDialSucceeded i sv"
| "visitor_NotifyEvent now (CircuitRemoved i) sv = Some (VisitCircuitRemoved i sv)"

section \<open>Terminators and their stored form\<close>

type_synonym PeerData = "(32 word \<times> string) list"

record BaseEntity =
  be_id :: string
  be_createdAt :: int
  be_updatedAt :: int
  be_tags :: "(string \<times> string) list"
  be_isSystem :: bool

record Terminator = BaseEntity +
  t_service :: string
  t_router :: string
  t_binding :: string
  t_address :: string
  t_instanceId :: string
  t_instanceSecret :: string
  t_cost :: "16 word"
  t_precedence :: "precedence option"
  t_peerData :: "PeerData option"
  t_hostId :: string
  t_savedPrecedence :: "precedence option"
  t_sourceCtrl :: string

record db_Terminator = BaseEntity +
  db_service :: string
  db_router :: string
  db_binding :: string
  db_address :: string
  db_instanceId :: string
  db_instanceSecret :: string
  db_cost :: "16 word"
  db_precedence :: string
  db_peerData :: "PeerData option"
  db_hostId :: string
  db_savedPrecedence :: "string option"
  db_sourceCtrl :: string

definition toBoltEntityForCreate :: "Terminator \<Rightarrow> db_Terminator" where
  "toBoltEntityForCreate entity =
     (let precedence = (case t_precedence entity of None \<Rightarrow> prec_name PrecDefault | Some p \<Rightarrow> prec_name p);
          savedPrecedence = (case t_savedPrecedence entity of None \<Rightarrow> None | Some p \<Rightarrow> Some (prec_name p))
      in \<lparr>be_id = be_id entity, be_createdAt = be_createdAt entity, be_updatedAt = be_updatedAt entity,
          be_tags = be_tags entity, be_isSystem = be_isSystem entity,
          db_service = t_service entity, db_router = t_router entity, db_binding = t_binding entity,
          db_address = t_address entity, db_instanceId = t_instanceId entity,
          db_instanceSecret = t_instanceSecret entity, db_cost = t_cost entity,
          db_precedence = precedence, db_peerData = t_peerData entity, db_hostId = t_hostId entity,
          db_savedPrecedence = savedPrecedence, db_sourceCtrl = t_sourceCtrl entity\<rparr>)"

definition fillFrom :: "db_Terminator \<Rightarrow> Terminator \<Rightarrow> Terminator" where
  "fillFrom b entity =
     (let entity1 = entity\<lparr>
            t_service := db_service b, t_router := db_router b, t_binding := db_binding b,
            t_address := db_address b, t_instanceId := db_instanceId b,
            t_instanceSecret := db_instanceSecret b, t_peerData := db_peerData b,
            t_cost := db_cost b, t_precedence := Some (GetPrecedenceForName (db_precedence b)),
            t_hostId := db_hostId b, t_sourceCtrl := db_sourceCtrl b,
            be_id := be_id b, be_createdAt := be_createdAt b, be_updatedAt := be_updatedAt b,
            be_tags := be_tags b, be_isSystem := be_isSystem b\<rparr>
      in case db_savedPrecedence b of
           None \<Rightarrow> entity1
         | Some p \<Rightarrow> entity1\<lparr>t_savedPrecedence := Some (GetPrecedenceForName p)\<rparr>)"

definition new_Terminator :: Terminator where
  "new_Terminator =
     \<lparr>be_id = '''', be_createdAt = 0, be_updatedAt = 0, be_tags = [], be_isSystem = False,
      t_service = '''', t_router = '''', t_binding = '''', t_address = '''', t_instanceId = '''',
      t_instanceSecret = '''', t_cost = 0, t_precedence = None, t_peerData = None, t_hostId = '''',
      t_savedPrecedence = None, t_sourceCtrl = ''''\<rparr>"

section \<open>Precedence bands\<close>

lemma prec_bands:
  "prec_minCost p \<le> prec_maxCost p"
  "unat (prec_maxCost p) < unat (prec_minCost q) \<longleftrightarrow> prec_minCost p < prec_minCost q"
  by (cases p; simp add: min_costs) (cases p; cases q; simp add: min_costs)

lemma prec_minCost_le: "unat (prec_minCost p) \<le> 786420"
  by (cases p) (simp_all add: min_costs)

lemma prec_minCost_inject: "prec_minCost p = prec_minCost q \<longleftrightarrow> p = q"
  by (cases p; cases q; simp add: min_costs)

lemma unat_add_small: "unat (a :: 'a::len word) + unat b < 2 ^ LENGTH('a) \<Longrightarrow> unat (a + b) = unat a + unat b"
  by (simp add: unat_word_ariths)

lemma GetBiasedCost_unat:
  assumes "unat c < 2 ^ 31"
  shows "unat (GetBiasedCost p c) = min (unat (prec_minCost p) + unat c) (unat (prec_maxCost p))"
proof -
  have "unat (prec_minCost p + c) = unat (prec_minCost p) + unat c"
    using assms prec_minCost_le [of p] by (intro unat_add_small) simp
  then show ?thesis by (simp add: GetBiasedCost_def Let_def word_less_nat_alt min_def)
qed

lemma GetBiasedCost_band:
  assumes "unat c < 2 ^ 31"
  shows "prec_minCost p \<le> GetBiasedCost p c" "GetBiasedCost p c \<le> prec_maxCost p"
  using GetBiasedCost_unat [OF assms, of p] prec_bands(1) [of p] by (simp_all add: word_le_nat_alt)

lemma biased_order:
  assumes "unat c < 2 ^ 31" "unat d < 2 ^ 31" "prec_minCost p < prec_minCost q"
  shows "GetBiasedCost p c < GetBiasedCost q d"
proof -
  have "unat (prec_maxCost p) < unat (prec_minCost q)" using assms(3) prec_bands(2) by blast
  with GetBiasedCost_band(2) [OF assms(1), of p] GetBiasedCost_band(1) [OF assms(2), of q]
  show ?thesis by (simp add: word_le_nat_alt word_less_nat_alt)
qed

section \<open>What the visitor computes\<close>

text \<open>
  The specification of the visitor: per terminator a number of open circuits, a failure
  penalty and the time of the last failure, as natural numbers with explicit ceilings.
\<close>

record cost_spec =
  sp_circuits :: nat
  sp_failures :: nat
  sp_last :: int

abbreviation MaxUint32 :: nat where
  "MaxUint32 \<equiv> 4294967295"

definition spec_failed :: "nat \<Rightarrow> int \<Rightarrow> cost_spec \<Rightarrow> cost_spec" where
  "spec_failed F now a = a\<lparr>sp_failures := min MaxUint32 (sp_failures a + F), sp_last := now\<rparr>"

definition spec_succeeded :: "nat \<Rightarrow> nat \<Rightarrow> cost_spec \<Rightarrow> cost_spec" where
  "spec_succeeded C S a =
     a\<lparr>sp_failures := sp_failures a - S, sp_circuits := min (MaxUint32 div C) (sp_circuits a + 1)\<rparr>"

definition spec_removed :: "cost_spec \<Rightarrow> cost_spec" where
  "spec_removed a = a\<lparr>sp_circuits := sp_circuits a - 1\<rparr>"

definition spec_credited :: "nat \<Rightarrow> cost_spec \<Rightarrow> cost_spec" where
  "spec_credited credit a = (if sp_failures a > credit then a\<lparr>sp_failures := sp_failures a - credit\<rparr> else a)"

definition spec_exp_credited :: "(int \<Rightarrow> nat) \<Rightarrow> cost_spec \<Rightarrow> cost_spec" where
  "spec_exp_credited credit a = a\<lparr>sp_failures := sp_failures a - credit (sp_last a)\<rparr>"

definition abs_cost :: "TerminatorCosts \<Rightarrow> cost_spec" where
  "abs_cost c = \<lparr>sp_circuits = unat (CircuitCount c), sp_failures = unat (FailureCost c), sp_last = LastFailure c\<rparr>"

definition no_spec :: cost_spec where
  "no_spec = \<lparr>sp_circuits = 0, sp_failures = 0, sp_last = 0\<rparr>"

definition tc_ok :: "32 word \<Rightarrow> TerminatorCosts \<Rightarrow> bool" where
  "tc_ok C c \<longleftrightarrow> unat (CircuitCount c) \<le> MaxUint32 div unat C \<and>
     unat (CachedCost c) = min MaxUint32 (unat (CircuitCount c) * unat C + unat (FailureCost c))"

lemma unat_u32_le: "unat (x :: 32 word) \<le> MaxUint32"
  using unsigned_less [of x, where 'a = nat] by simp

lemma unat_u64_of_u32: "unat (ucast (x :: 32 word) :: 64 word) = unat x"
  using unat_u32_le [of x] by (simp add: unsigned_ucast_eq take_bit_nat_eq_self)

lemma tc_cache_cached:
  "unat (CachedCost (tc_cache C c)) = min MaxUint32 (unat (CircuitCount c) * unat C + unat (FailureCost c))"
proof -
  let ?w = "ucast (CircuitCount c) * ucast C + ucast (FailureCost c) :: 64 word"
  have "unat (CircuitCount c) * unat C \<le> MaxUint32 * MaxUint32"
    by (intro mult_le_mono unat_u32_le)
  with unat_u32_le [of "FailureCost c"]
  have w: "unat ?w = unat (CircuitCount c) * unat C + unat (FailureCost c)"
    by (simp add: unat_word_ariths unat_u64_of_u32)
  show ?thesis
  proof (cases "?w > 4294967295")
    case True
    then show ?thesis using w by (simp add: tc_cache_def word_less_nat_alt)
  next
    case False
    then have "unat ?w \<le> MaxUint32" by (simp add: word_less_nat_alt)
    moreover from this have "unat (ucast ?w :: 32 word) = unat ?w" by (simp add: unsigned_ucast_eq take_bit_nat_eq_self)
    ultimately show ?thesis using False w by (simp add: tc_cache_def)
  qed
qed

lemma tc_cache_fields [simp]:
  "CircuitCount (tc_cache C c) = CircuitCount c" "FailureCost (tc_cache C c) = FailureCost c"
  "LastFailure (tc_cache C c) = LastFailure c"
  by (simp_all add: tc_cache_def Let_def)

lemma tc_ok_cache: "unat (CircuitCount c) \<le> MaxUint32 div unat C \<Longrightarrow> tc_ok C (tc_cache C c)"
  by (simp add: tc_ok_def tc_cache_cached)

lemma tc_Get_unat: "unat (tc_Get c) = min 65535 (unat (CachedCost c))"
  by (auto simp: tc_Get_def Let_def word_less_nat_alt unsigned_ucast_eq take_bit_nat_eq_self min_def)

lemma tc_ok_no_costs: "tc_ok C no_costs"
  by (simp add: tc_ok_def no_costs_def)

lemma abs_no_costs: "abs_cost no_costs = no_spec"
  by (simp add: abs_cost_def no_costs_def no_spec_def)

lemma failed_cost_refines:
  assumes "tc_ok (cv_CircuitCost v) c"
  shows "tc_ok (cv_CircuitCost v) (failed_cost v now c)"
    "abs_cost (failed_cost v now c) = spec_failed (unat (cv_FailureCost v)) now (abs_cost c)"
proof -
  have "tc_ok (cv_CircuitCost v) (tc_cache (cv_CircuitCost v) c')"
    if "CircuitCount c' = CircuitCount c" for c'
    using assms that by (intro tc_ok_cache) (simp add: tc_ok_def)
  then show "tc_ok (cv_CircuitCost v) (failed_cost v now c)"
    by (simp add: failed_cost_def tc_ok_def Let_def)
  have room: "unat (4294967295 - FailureCost c) = MaxUint32 - unat (FailureCost c)"
    using unat_u32_le [of "FailureCost c"] by (subst unat_sub) (simp_all add: word_le_nat_alt)
  have "unat (FailureCost c + cv_FailureCost v) = unat (FailureCost c) + unat (cv_FailureCost v)"
    if "4294967295 - FailureCost c > cv_FailureCost v"
    using that room by (intro unat_add_small) (simp add: word_less_nat_alt)
  then show "abs_cost (failed_cost v now c) = spec_failed (unat (cv_FailureCost v)) now (abs_cost c)"
    using room unat_u32_le [of "FailureCost c"]
    by (auto simp: failed_cost_def Let_def abs_cost_def spec_failed_def word_less_nat_alt)
qed

lemma sub_or_zero:
  fixes a :: "32 word"
  shows "unat (if a > b then a - b else 0) = unat a - unat b"
  by (auto simp: word_less_nat_alt unat_sub word_le_nat_alt)

lemma succeeded_cost_refines:
  assumes "tc_ok (cv_CircuitCost v) c" "cv_CircuitCost v \<noteq> 0"
  shows "tc_ok (cv_CircuitCost v) (succeeded_cost v c)"
    "abs_cost (succeeded_cost v c) = spec_succeeded (unat (cv_CircuitCost v)) (unat (cv_SuccessCredit v)) (abs_cost c)"
proof -
  let ?C = "cv_CircuitCost v"
  let ?n = "if CircuitCount c < 4294967295 div ?C then CircuitCount c + 1 else CircuitCount c"
  let ?f = "if FailureCost c > cv_SuccessCredit v then FailureCost c - cv_SuccessCredit v else 0"
  have lim: "unat (4294967295 div ?C) = MaxUint32 div unat ?C" by (simp add: unat_div_distrib)
  have "unat (CircuitCount c + 1) = unat (CircuitCount c) + 1"
    if "CircuitCount c < 4294967295 div ?C"
  proof -
    have "unat (CircuitCount c) < MaxUint32 div unat ?C" using that lim by (simp add: word_less_nat_alt)
    also have "\<dots> \<le> MaxUint32" by (rule div_le_dividend)
    finally show ?thesis by (subst unat_add_small) simp_all
  qed
  then have n: "unat ?n = min (MaxUint32 div unat ?C) (unat (CircuitCount c) + 1)"
    using assms(1) lim by (auto simp: word_less_nat_alt tc_ok_def)
  have eq: "succeeded_cost v c = tc_cache ?C (c\<lparr>FailureCost := ?f, CircuitCount := ?n\<rparr>)"
    by (simp add: succeeded_cost_def Let_def)
  show "tc_ok ?C (succeeded_cost v c)" unfolding eq using n by (intro tc_ok_cache) simp
  show "abs_cost (succeeded_cost v c) = spec_succeeded (unat ?C) (unat (cv_SuccessCredit v)) (abs_cost c)"
    unfolding eq using n sub_or_zero [of "cv_SuccessCredit v" "FailureCost c"]
    by (simp only: abs_cost_def spec_succeeded_def tc_cache_fields) simp
qed

lemma removed_cost_refines:
  assumes "tc_ok (cv_CircuitCost v) c"
  shows "tc_ok (cv_CircuitCost v) (removed_cost v c)" "abs_cost (removed_cost v c) = spec_removed (abs_cost c)"
proof -
  let ?n = "if CircuitCount c > 0 then CircuitCount c - 1 else CircuitCount c"
  have n: "unat ?n = unat (CircuitCount c) - 1"
    by (auto simp: word_less_nat_alt unat_sub word_le_nat_alt)
  have eq: "removed_cost v c = tc_cache (cv_CircuitCost v) (c\<lparr>CircuitCount := ?n\<rparr>)"
    by (simp add: removed_cost_def)
  show "tc_ok (cv_CircuitCost v) (removed_cost v c)"
    unfolding eq using n assms by (intro tc_ok_cache) (auto simp: tc_ok_def intro: le_trans [OF diff_le_self])
  show "abs_cost (removed_cost v c) = spec_removed (abs_cost c)"
    unfolding eq using n by (simp only: abs_cost_def spec_removed_def tc_cache_fields) simp
qed

lemma credited_cost_refines:
  assumes "tc_ok (cv_CircuitCost v) c"
  shows "tc_ok (cv_CircuitCost v) (credited_cost v credit c)"
    "abs_cost (credited_cost v credit c) = spec_credited (unat credit) (abs_cost c)"
proof -
  have w: "unat (ucast credit :: 32 word) = unat credit"
    using unsigned_less [of credit, where 'a = nat] by (simp add: unsigned_ucast_eq take_bit_nat_eq_self)
  show "tc_ok (cv_CircuitCost v) (credited_cost v credit c)"
    unfolding credited_cost_def using assms by (intro tc_ok_cache) (simp add: tc_ok_def)
  show "abs_cost (credited_cost v credit c) = spec_credited (unat credit) (abs_cost c)"
    using w by (auto simp: credited_cost_def abs_cost_def spec_credited_def word_less_nat_alt unat_sub word_le_nat_alt)
qed

lemma exp_credited_cost_refines:
  assumes "tc_ok (cv_CircuitCost v) c" "exist \<or> c = no_costs"
  shows "tc_ok (cv_CircuitCost v) (exp_credited_cost v big basis now exist c)"
    "abs_cost (exp_credited_cost v big basis now exist c) =
       spec_exp_credited (\<lambda>l. unat (exponential_credit big basis now l)) (abs_cost c)"
proof -
  show "tc_ok (cv_CircuitCost v) (exp_credited_cost v big basis now exist c)"
    using assms(1) by (auto simp: exp_credited_cost_def Let_def tc_ok_def tc_cache_cached)
  have "unat (if k > f then 0 else f - k) = unat f - unat k" for k f :: "32 word"
    by (auto simp: word_less_nat_alt unat_sub word_le_nat_alt)
  then show "abs_cost (exp_credited_cost v big basis now exist c) =
      spec_exp_credited (\<lambda>l. unat (exponential_credit big basis now l)) (abs_cost c)"
    using assms(2)
    by (auto simp: exp_credited_cost_def Let_def abs_cost_def spec_exp_credited_def no_costs_def
        word_less_nat_alt unat_sub word_le_nat_alt)
qed

section \<open>The visitor implements its specification\<close>

definition visitor_inv :: "cost_store \<times> CostVisitor \<Rightarrow> bool" where
  "visitor_inv sv \<longleftrightarrow>
     (let (s, v) = sv in
      cv_CircuitCost v \<noteq> 0 \<and> keys_distinct (Costs v) \<and> costMap s = map_of (Costs v) \<and>
      inj_on (costMap s) (dom (costMap s)) \<and>
      (\<forall>i r. costMap s i = Some r \<longrightarrow> r < next_cost s \<and> tc_ok (cv_CircuitCost v) (cost_objs s r)))"

definition visitor_abs :: "cost_store \<times> CostVisitor \<Rightarrow> string \<Rightarrow> cost_spec" where
  "visitor_abs sv i =
     (case map_of (Costs (snd sv)) i of None \<Rightarrow> no_spec | Some r \<Rightarrow> abs_cost (cost_objs (fst sv) r))"

definition visitor_params :: "CostVisitor \<Rightarrow> 32 word \<times> 32 word \<times> 32 word" where
  "visitor_params v = (cv_CircuitCost v, cv_FailureCost v, cv_SuccessCredit v)"

lemma visitor_params_eq:
  assumes "visitor_params v = visitor_params w"
  shows "cv_CircuitCost v = cv_CircuitCost w" "cv_FailureCost v = cv_FailureCost w"
    "cv_SuccessCredit v = cv_SuccessCredit w"
  using assms by (simp_all add: visitor_params_def)

lemma cost_upsert_refines:
  assumes inv: "visitor_inv sv" and C: "C = cv_CircuitCost (snd sv)"
    and f: "\<And>b c. tc_ok C c \<Longrightarrow> b \<or> c = no_costs \<Longrightarrow> tc_ok C (f b c) \<and> abs_cost (f b c) = g (abs_cost c)"
  shows "visitor_inv (cost_upsert f i sv)"
    "visitor_abs (cost_upsert f i sv) = (visitor_abs sv)(i := g (visitor_abs sv i))"
    "visitor_params (snd (cost_upsert f i sv)) = visitor_params (snd sv)"
    "set (map fst (Costs (snd (cost_upsert f i sv)))) = insert i (set (map fst (Costs (snd sv))))"
proof -
  obtain s v where sv: "sv = (s, v)" by (cases sv)
  have m: "costMap s = map_of (Costs v)" and kd: "keys_distinct (Costs v)" and C0: "cv_CircuitCost v \<noteq> 0"
    and inj: "inj_on (costMap s) (dom (costMap s))"
    and ok: "\<And>i r. costMap s i = Some r \<Longrightarrow> r < next_cost s \<and> tc_ok C (cost_objs s r)"
    using inv C by (auto simp: visitor_inv_def sv)
  have "visitor_inv (cost_upsert f i sv) \<and>
    visitor_abs (cost_upsert f i sv) = (visitor_abs sv)(i := g (visitor_abs sv i)) \<and>
    visitor_params (snd (cost_upsert f i sv)) = visitor_params (snd sv) \<and>
    set (map fst (Costs (snd (cost_upsert f i sv)))) = insert i (set (map fst (Costs (snd sv))))"
  proof (cases "map_of (Costs v) i")
    case None
    have new: "tc_ok C (f False no_costs)" "abs_cost (f False no_costs) = g no_spec"
      using f [of no_costs False] tc_ok_no_costs by (simp_all add: abs_no_costs)
    have fresh: "costMap s j \<noteq> Some (next_cost s)" for j using ok by blast
    then have "inj_on ((costMap s)(i \<mapsto> next_cost s)) (dom ((costMap s)(i \<mapsto> next_cost s)))"
      using inj None m by (force simp: inj_on_def dom_def)
    then have "visitor_inv (cost_upsert f i sv)"
      using None m kd C0 C ok new(1) fresh
      by (auto simp: visitor_inv_def sv cost_upsert_def SetDynamicCost_def Let_def keys_distinct_update less_Suc_eq)
    moreover have "visitor_abs (cost_upsert f i sv) = (visitor_abs sv)(i := g (visitor_abs sv i))"
      using None new(2) fresh m
      by (auto simp: visitor_abs_def sv cost_upsert_def SetDynamicCost_def Let_def fun_eq_iff split: option.split)
    ultimately show ?thesis
      using None by (auto simp: visitor_params_def sv cost_upsert_def SetDynamicCost_def Let_def update_keys dom_update)
  next
    case (Some r)
    have upd: "tc_ok C (f True (cost_objs s r))" "abs_cost (f True (cost_objs s r)) = g (abs_cost (cost_objs s r))"
      using f [of "cost_objs s r" True] ok [of i r] Some m by simp_all
    have other: "q \<noteq> r" if "j \<noteq> i" "map_of (Costs v) j = Some q" for j q
      using that inj Some m by (metis domI inj_onD)
    have "visitor_inv (cost_upsert f i sv)"
      using Some m kd C0 C ok upd(1) inj by (auto simp: visitor_inv_def sv cost_upsert_def)
    moreover have "visitor_abs (cost_upsert f i sv) = (visitor_abs sv)(i := g (visitor_abs sv i))"
      using Some upd(2) other
      by (auto simp: visitor_abs_def sv cost_upsert_def fun_eq_iff split: option.split)
    ultimately show ?thesis
      using Some by (auto simp: visitor_params_def sv cost_upsert_def dest: map_of_SomeD intro: rev_image_eqI)
  qed
  then show "visitor_inv (cost_upsert f i sv)"
    "visitor_abs (cost_upsert f i sv) = (visitor_abs sv)(i := g (visitor_abs sv i))"
    "visitor_params (snd (cost_upsert f i sv)) = visitor_params (snd sv)"
    "set (map fst (Costs (snd (cost_upsert f i sv)))) = insert i (set (map fst (Costs (snd sv))))"
    by blast+
qed

lemma cost_upsert_fold_refines:
  assumes "visitor_inv sv" "distinct keys"
    and f: "\<And>v b c. visitor_params v = P \<Longrightarrow> tc_ok (cv_CircuitCost v) c \<Longrightarrow> b \<or> c = no_costs \<Longrightarrow>
      tc_ok (cv_CircuitCost v) (f v b c) \<and> abs_cost (f v b c) = g (abs_cost c)"
    and "visitor_params (snd sv) = P"
  shows "visitor_inv (fold (\<lambda>k sv. cost_upsert (f (snd sv)) k sv) keys sv) \<and>
    visitor_abs (fold (\<lambda>k sv. cost_upsert (f (snd sv)) k sv) keys sv) =
      (\<lambda>i. if i \<in> set keys then g (visitor_abs sv i) else visitor_abs sv i) \<and>
    visitor_params (snd (fold (\<lambda>k sv. cost_upsert (f (snd sv)) k sv) keys sv)) = P"
  using assms(1,2,4)
proof (induction keys arbitrary: sv)
  case (Cons k ks)
  note step = cost_upsert_refines [where f = "f (snd sv)" and g = g and i = k, OF Cons.prems(1) refl f [OF Cons.prems(3)]]
  have "visitor_params (snd (cost_upsert (f (snd sv)) k sv)) = P" using step(3) Cons.prems(3) by simp
  from Cons.IH [OF step(1) _ this] step(2) Cons.prems(2) show ?case by auto
qed (simp add: fun_eq_iff)

datatype visitor_op =
    Notify int terminator_event
  | CreditTick "8 word" "string list \<Rightarrow> string list"
  | ExpCreditTick "64 word" int int "string list \<Rightarrow> string list"
  | TerminatorDeleted string

text \<open>
  Deleting a terminator notifies the strategy (\<open>terminatorStoreImpl.DeleteById\<close>) and clears the
  global cost (the entity listener registered by \<open>NewTerminatorManager\<close>).
\<close>

fun visitor_step :: "visitor_op \<Rightarrow> cost_store \<times> CostVisitor \<Rightarrow> (cost_store \<times> CostVisitor) option" where
  "visitor_step (Notify now e) sv = visitor_NotifyEvent now e sv"
| "visitor_step (CreditTick credit ord) sv = Some (CreditAll ord credit sv)"
| "visitor_step (ExpCreditTick big basis now ord) sv = CreditAllExponential ord big basis now sv"
| "visitor_step (TerminatorDeleted i) sv = Some (ClearCost i (fst sv), HandleTerminatorChange [i] (snd sv))"

fun visitor_run :: "visitor_op list \<Rightarrow> cost_store \<times> CostVisitor \<Rightarrow> (cost_store \<times> CostVisitor) option" where
  "visitor_run [] sv = Some sv"
| "visitor_run (op # ops) sv = (case visitor_step op sv of None \<Rightarrow> None | Some sv' \<Rightarrow> visitor_run ops sv')"

fun spec_step :: "nat \<times> nat \<times> nat \<Rightarrow> visitor_op \<Rightarrow> (string \<Rightarrow> cost_spec) \<Rightarrow> string \<Rightarrow> cost_spec" where
  "spec_step (C, F, S) (Notify now (DialFailedEvent i)) a = a(i := spec_failed F now (a i))"
| "spec_step (C, F, S) (Notify now (DialSucceeded i)) a = a(i := spec_succeeded C S (a i))"
| "spec_step (C, F, S) (Notify now (CircuitRemoved i)) a = a(i := spec_removed (a i))"
| "spec_step (C, F, S) (CreditTick credit ord) a = spec_credited (unat credit) \<circ> a"
| "spec_step (C, F, S) (ExpCreditTick big basis now ord) a =
     spec_exp_credited (\<lambda>l. unat (exponential_credit big basis now l)) \<circ> a"
| "spec_step (C, F, S) (TerminatorDeleted i) a = a(i := no_spec)"

fun op_ok :: "visitor_op \<Rightarrow> bool" where
  "op_ok (ExpCreditTick big basis now ord) = (basis \<noteq> 0)"
| "op_ok _ = True"

definition nat_params :: "CostVisitor \<Rightarrow> nat \<times> nat \<times> nat" where
  "nat_params v = (unat (cv_CircuitCost v), unat (cv_FailureCost v), unat (cv_SuccessCredit v))"

lemma credits_of_nothing: "spec_credited k no_spec = no_spec" "spec_exp_credited c no_spec = no_spec"
  by (simp_all add: spec_credited_def spec_exp_credited_def no_spec_def)

lemma visitor_abs_absent: "i \<notin> set (map fst (Costs (snd sv))) \<Longrightarrow> visitor_abs sv i = no_spec"
  by (metis map_of_eq_None_iff list.set_map option.simps(4) visitor_abs_def)

lemma credit_all_refines:
  assumes "visitor_inv sv" "g no_spec = no_spec" "keys = go_range ord (map fst (Costs (snd sv)))"
    and "\<And>v b c. visitor_params v = visitor_params (snd sv) \<Longrightarrow> tc_ok (cv_CircuitCost v) c \<Longrightarrow> b \<or> c = no_costs \<Longrightarrow>
      tc_ok (cv_CircuitCost v) (f v b c) \<and> abs_cost (f v b c) = g (abs_cost c)"
    and "sv' = fold (\<lambda>k sv. cost_upsert (f (snd sv)) k sv) keys sv"
  shows "visitor_inv sv' \<and> visitor_abs sv' = g \<circ> visitor_abs sv \<and> visitor_params (snd sv') = visitor_params (snd sv)"
proof -
  have "distinct keys" using assms(1,3) by (auto simp: visitor_inv_def Let_def split: prod.splits)
  from cost_upsert_fold_refines [where f = f and g = g, OF assms(1) this assms(4) refl] assms(2,3,5)
  show ?thesis by (auto simp: fun_eq_iff visitor_abs_absent)
qed

lemma visitor_delete_refines:
  assumes "visitor_inv (s, v)"
  shows "visitor_inv (ClearCost i s, HandleTerminatorChange [i] v)"
    "visitor_abs (ClearCost i s, HandleTerminatorChange [i] v) = (visitor_abs (s, v))(i := no_spec)"
    "visitor_params (HandleTerminatorChange [i] v) = visitor_params v"
proof -
  have "inj_on ((costMap s)(i := None)) (dom ((costMap s)(i := None)))"
    using assms by (auto simp: visitor_inv_def inj_on_def dom_def)
  then show "visitor_inv (ClearCost i s, HandleTerminatorChange [i] v)"
    using assms by (auto simp: visitor_inv_def ClearCost_def HandleTerminatorChange_def keys_distinct_delete)
qed (auto simp: visitor_abs_def ClearCost_def HandleTerminatorChange_def visitor_params_def fun_eq_iff split: option.split)

lemma visitor_step_refines:
  assumes inv: "visitor_inv sv" and "op_ok op"
  shows "\<exists>sv'. visitor_step op sv = Some sv' \<and> visitor_inv sv' \<and>
    visitor_abs sv' = spec_step (nat_params (snd sv)) op (visitor_abs sv) \<and>
    visitor_params (snd sv') = visitor_params (snd sv)"
proof (cases op)
  case (Notify now e)
  have C: "cv_CircuitCost (snd sv) \<noteq> 0" using inv by (auto simp: visitor_inv_def split: prod.splits)
  note up = cost_upsert_refines [OF inv refl]
  show ?thesis
  proof (cases e)
    case (DialFailedEvent i)
    with Notify up [where i = i and f = "\<lambda>_. failed_cost (snd sv) now"
        and g = "spec_failed (unat (cv_FailureCost (snd sv))) now"] show ?thesis
      by (simp add: VisitDialFailed_def nat_params_def failed_cost_refines)
  next
    case (DialSucceeded i)
    with Notify C up [where i = i and f = "\<lambda>_. succeeded_cost (snd sv)"
        and g = "spec_succeeded (unat (cv_CircuitCost (snd sv))) (unat (cv_SuccessCredit (snd sv)))"] show ?thesis
      by (simp add: VisitDialSucceeded_def nat_params_def succeeded_cost_refines)
  next
    case (CircuitRemoved i)
    with Notify up [where i = i and f = "\<lambda>_. removed_cost (snd sv)" and g = spec_removed] show ?thesis
      by (simp add: VisitCircuitRemoved_def nat_params_def removed_cost_refines)
  qed
next
  case (CreditTick credit ord)
  with credit_all_refines [where f = "\<lambda>v _. credited_cost v credit" and g = "spec_credited (unat credit)",
      OF inv credits_of_nothing(1) refl _ refl, of ord]
  show ?thesis by (simp add: CreditAll_def nat_params_def credited_cost_refines)
next
  case (ExpCreditTick big basis now ord)
  with assms(2) credit_all_refines [where f = "\<lambda>v. exp_credited_cost v big basis now"
      and g = "spec_exp_credited (\<lambda>l. unat (exponential_credit big basis now l))",
      OF inv credits_of_nothing(2) refl _ refl, of ord]
  show ?thesis by (simp add: CreditAllExponential_def nat_params_def exp_credited_cost_refines Let_def)
next
  case (TerminatorDeleted i)
  with visitor_delete_refines [of "fst sv" "snd sv" i] inv show ?thesis by (simp add: nat_params_def)
qed

lemma visitor_run_refines:
  assumes "visitor_inv sv" "\<forall>op \<in> set ops. op_ok op"
  shows "\<exists>sv'. visitor_run ops sv = Some sv' \<and> visitor_inv sv' \<and>
    visitor_abs sv' = fold (spec_step (nat_params (snd sv))) ops (visitor_abs sv) \<and>
    visitor_params (snd sv') = visitor_params (snd sv)"
  using assms
proof (induction ops arbitrary: sv)
  case (Cons op ops)
  from visitor_step_refines [OF Cons.prems(1), of op] Cons.prems(2)
  obtain sv1 where sv1: "visitor_step op sv = Some sv1" "visitor_inv sv1"
    "visitor_abs sv1 = spec_step (nat_params (snd sv)) op (visitor_abs sv)"
    "visitor_params (snd sv1) = visitor_params (snd sv)" by auto
  have "nat_params (snd sv1) = nat_params (snd sv)"
    using visitor_params_eq [OF sv1(4)] by (simp add: nat_params_def)
  with Cons.IH [OF sv1(2)] Cons.prems(2) sv1 show ?case by simp
qed simp

lemma visitor_inv_new: "circuitCost \<noteq> 0 \<Longrightarrow> visitor_inv (empty_costs, NewCostVisitor circuitCost f c)"
proof -
  assume "circuitCost \<noteq> 0"
  then have "(ucast circuitCost :: 32 word) \<noteq> 0"
    using unsigned_less [of circuitCost, where 'a = nat]
    by (simp add: unat_eq_0 [symmetric] unsigned_ucast_eq take_bit_nat_eq_self del: unat_eq_0)
  then show ?thesis by (simp add: visitor_inv_def NewCostVisitor_def empty_costs_def)
qed

lemma visitor_abs_new: "visitor_abs (empty_costs, NewCostVisitor circuitCost f c) = (\<lambda>_. no_spec)"
  by (simp add: visitor_abs_def NewCostVisitor_def fun_eq_iff)

lemma dynamic_cost_abs:
  assumes "visitor_inv (s, v)"
  shows "unat (GetDynamicCost s i) =
    min 65535 (sp_circuits (visitor_abs (s, v) i) * unat (cv_CircuitCost v) + sp_failures (visitor_abs (s, v) i))"
proof (cases "costMap s i")
  case None
  with assms show ?thesis by (simp add: visitor_inv_def GetDynamicCost_def visitor_abs_def no_spec_def)
next
  case (Some r)
  with assms have "map_of (Costs v) i = Some r" "tc_ok (cv_CircuitCost v) (cost_objs s r)"
    by (auto simp: visitor_inv_def)
  with Some show ?thesis by (simp add: GetDynamicCost_def visitor_abs_def abs_cost_def tc_Get_unat tc_ok_def)
qed

section \<open>Properties\<close>

text \<open>
  C8. The cost visitor implements its specification: after any sequence of dial and circuit
  events, credit ticks and terminator deletions no operation has failed, the visitor's circuit
  count and failure cost of a terminator are those of the specification, and the dynamic cost
  path selection reads is the cost of the open circuits plus the failure penalty, capped at
  \<open>math.MaxUint16\<close>.
\<close>

theorem dynamic_cost_refines_spec:
  assumes "circuitCost \<noteq> 0" "\<forall>op \<in> set ops. op_ok op"
  shows "\<exists>s v. visitor_run ops (empty_costs, NewCostVisitor circuitCost failureCost successCredit) = Some (s, v) \<and>
    (\<forall>i. let a = fold (spec_step (unat circuitCost, unat failureCost, unat successCredit)) ops (\<lambda>_. no_spec) i
         in unat (GetDynamicCost s i) = min 65535 (sp_circuits a * unat circuitCost + sp_failures a) \<and>
            unat (GetCircuitCount s v i) = sp_circuits a \<and> unat (GetFailureCost s v i) = sp_failures a)"
proof -
  let ?v = "NewCostVisitor circuitCost failureCost successCredit"
  have w: "unat (ucast x :: 32 word) = unat x" for x :: "16 word"
    using unsigned_less [of x, where 'a = nat] by (simp add: unsigned_ucast_eq take_bit_nat_eq_self)
  from visitor_run_refines [OF visitor_inv_new [OF assms(1)] assms(2), of failureCost successCredit]
  obtain s v where run: "visitor_run ops (empty_costs, ?v) = Some (s, v)" "visitor_inv (s, v)"
    "visitor_abs (s, v) = fold (spec_step (nat_params ?v)) ops (\<lambda>_. no_spec)" "visitor_params v = visitor_params ?v"
    by (auto simp: visitor_abs_new)
  have "nat_params ?v = (unat circuitCost, unat failureCost, unat successCredit)"
    by (simp add: nat_params_def NewCostVisitor_def w)
  moreover have "unat (cv_CircuitCost v) = unat circuitCost"
    using visitor_params_eq(1) [OF run(4)] by (simp add: NewCostVisitor_def w)
  moreover have "unat (GetCircuitCount s v i) = sp_circuits (visitor_abs (s, v) i)"
    "unat (GetFailureCost s v i) = sp_failures (visitor_abs (s, v) i)" for i
    by (simp_all add: GetCircuitCount_def GetFailureCost_def visitor_abs_def abs_cost_def no_spec_def split: option.split)
  ultimately show ?thesis using run(1,3) dynamic_cost_abs [OF run(2)] by (simp add: Let_def)
qed

theorem dynamic_cost_refines_spec_witness:
  "\<exists>s v. visitor_run [Notify 5 (DialFailedEvent ''t''), Notify 6 (DialSucceeded ''t''), CreditTick 3 rev,
        ExpCreditTick 0 300 900 id, Notify 7 (DialSucceeded ''u''), TerminatorDeleted ''u'']
      (empty_costs, NewCostVisitor 2 40 2) = Some (s, v) \<and>
     unat (GetDynamicCost s ''t'') = 27 \<and> unat (GetDynamicCost s ''u'') = 0"
proof -
  let ?ops = "[Notify 5 (DialFailedEvent ''t''), Notify 6 (DialSucceeded ''t''), CreditTick 3 rev,
      ExpCreditTick 0 300 900 id, Notify 7 (DialSucceeded ''u''), TerminatorDeleted ''u'']"
  let ?a = "fold (spec_step (unat (2 :: 16 word), unat (40 :: 16 word), unat (2 :: 16 word))) ?ops (\<lambda>_. no_spec)"
  have credit: "exponential_credit 0 300 900 5 = 10" by code_simp
  have "sp_circuits (?a ''t'') = 1" "sp_failures (?a ''t'') = 25" "?a ''u'' = no_spec"
    by (simp_all add: spec_failed_def spec_succeeded_def spec_credited_def spec_exp_credited_def no_spec_def credit)
  moreover have "\<exists>s v. visitor_run ?ops (empty_costs, NewCostVisitor 2 40 2) = Some (s, v) \<and>
    (\<forall>i. let a = ?a i
         in unat (GetDynamicCost s i) = min 65535 (sp_circuits a * unat (2 :: 16 word) + sp_failures a) \<and>
            unat (GetCircuitCount s v i) = sp_circuits a \<and> unat (GetFailureCost s v i) = sp_failures a)"
    by (rule dynamic_cost_refines_spec) simp_all
  ultimately show ?thesis by (auto simp: Let_def no_spec_def simp del: visitor_run.simps fold_simps)
qed

text \<open>
  C27. A biased cost stays in the band of its precedence, so that terminators of a better
  precedence are always cheaper, and removing the bias gives the cost back, capped at the width
  of the band.
\<close>

theorem biased_costs_keep_precedence:
  assumes "unat c < 2 ^ 31" "unat d < 2 ^ 31"
  shows "prec_minCost p \<le> GetBiasedCost p c \<and> GetBiasedCost p c \<le> prec_maxCost p \<and>
    (GetBaseCost p < GetBaseCost q \<longrightarrow> GetBiasedCost p c < GetBiasedCost q d) \<and>
    unat (Unbias p (GetBiasedCost p c)) = min (unat c) 262139"
proof (intro conjI impI)
  show low: "prec_minCost p \<le> GetBiasedCost p c" and "GetBiasedCost p c \<le> prec_maxCost p"
    by (rule GetBiasedCost_band [OF assms(1)])+
  show "GetBiasedCost p c < GetBiasedCost q d" if "GetBaseCost p < GetBaseCost q"
    using that biased_order [OF assms] by (simp add: GetBaseCost_def)
  have "unat (prec_maxCost p) = unat (prec_minCost p) + 262139" by (cases p) (simp_all add: min_costs)
  with low show "unat (Unbias p (GetBiasedCost p c)) = min (unat c) 262139"
    by (simp add: Unbias_def unat_sub GetBiasedCost_unat [OF assms(1)])
qed

theorem biased_costs_keep_precedence_witness:
  "GetBiasedCost PrecRequired 70000 < GetBiasedCost PrecDefault 12 \<and>
   unat (Unbias PrecDefault (GetBiasedCost PrecDefault 1048576)) = 262139"
proof -
  have "GetBiasedCost PrecRequired 70000 < GetBiasedCost PrecDefault 12"
    using biased_costs_keep_precedence [of 70000 12 PrecRequired PrecDefault] by (simp add: GetBaseCost_def min_costs)
  moreover have "unat (Unbias PrecDefault (GetBiasedCost PrecDefault 1048576)) = 262139"
    using biased_costs_keep_precedence [of 1048576 0 PrecDefault PrecDefault] by simp
  ultimately show ?thesis ..
qed

text \<open>
  The conversion to the stored form and the one from it are inverse: a missing precedence becomes
  the default one, and every precedence a terminator can be given survives the detour through its
  name.
\<close>

lemma terminator_conversion_roundtrip:
  assumes "t_precedence t \<noteq> Some PrecUnknown" "t_savedPrecedence t \<noteq> Some PrecUnknown"
  shows "fillFrom (toBoltEntityForCreate t) new_Terminator =
    t\<lparr>t_precedence := Some (case t_precedence t of None \<Rightarrow> PrecDefault | Some p \<Rightarrow> p)\<rparr>"
proof -
  have name: "GetPrecedenceForName (prec_name p) = p" if "p \<noteq> PrecUnknown" for p
    using that by (cases p) (simp_all add: GetPrecedenceForName_def)
  have default: "GetPrecedenceForName ''default'' = PrecDefault" by (simp add: GetPrecedenceForName_def)
  show ?thesis
    using assms name default
    by (cases "t_precedence t"; cases "t_savedPrecedence t")
      (simp_all add: fillFrom_def toBoltEntityForCreate_def new_Terminator_def Let_def)
qed

end
