(* ===== verification/Terminators.thy ===== *)
theory Terminators
  imports Terminator_Costs Routing
begin

text \<open>
  Terminator strategies (\<open>controller/xt/registry.go\<close>, \<open>xt_random\<close>, \<open>xt_smartrouting\<close>, \<open>xt_sticky\<close>,
  \<open>xt_weighted\<close>) and the choice of terminator and path for a dial (\<open>Network.selectPath\<close>).

  A strategy object is held in the registry and named there by its key. Random numbers and the
  arithmetic of \<open>float32\<close> are arguments; nothing is assumed of either.
\<close>

section \<open>Costed terminators\<close>

record RoutingTerminator =
  RouteCost :: "32 word"
  routing_terminator :: Terminator

abbreviation term_prec :: "RoutingTerminator \<Rightarrow> precedence option" where
  "term_prec t \<equiv> t_precedence (routing_terminator t)"

fun GetRelatedTerminators :: "RoutingTerminator list \<Rightarrow> RoutingTerminator list option" where
  "GetRelatedTerminators [] = None"
| "GetRelatedTerminators (first # rest) =
     Some (first # takeWhile (\<lambda>t. term_prec t = term_prec first) rest)"

section \<open>Strategies\<close>

record TokenId =
  tk_token :: string
  tk_data :: PeerData

record 'f float32_ops =
  f_of_u32 :: "32 word \<Rightarrow> 'f"
  f_add :: "'f \<Rightarrow> 'f \<Rightarrow> 'f"
  f_sub :: "'f \<Rightarrow> 'f \<Rightarrow> 'f"
  f_div :: "'f \<Rightarrow> 'f \<Rightarrow> 'f"
  f_less :: "'f \<Rightarrow> 'f \<Rightarrow> bool"
  f_eq :: "'f \<Rightarrow> 'f \<Rightarrow> bool"

definition XtStickinessToken :: "32 word" where
  "XtStickinessToken = 1114"

text \<open>\<open>rand.Intn(n)\<close> is the random value \<open>raw\<close> reduced modulo \<open>n\<close>.\<close>

definition random_Select ::
  "nat \<Rightarrow> RoutingTerminator list \<Rightarrow> (RoutingTerminator \<times> PeerData option) option" where
  "random_Select raw terminators =
     (case GetRelatedTerminators terminators of
        None \<Rightarrow> None
      | Some ts \<Rightarrow>
          let count = length ts in
          if count = 1 then Some (ts ! 0, None)
          else let selected = raw mod count in Some (ts ! selected, None))"

definition smartrouting_Select :: "RoutingTerminator list \<Rightarrow> (RoutingTerminator \<times> PeerData option) option" where
  "smartrouting_Select terminators = (case terminators of [] \<Rightarrow> None | t # _ \<Rightarrow> Some (t, None))"

definition sticky_Select ::
  "TokenId option \<Rightarrow> RoutingTerminator list \<Rightarrow> (RoutingTerminator \<times> PeerData option) option" where
  "sticky_Select clientId terminators =
     (case GetRelatedTerminators terminators of
        None \<Rightarrow> None
      | Some ts \<Rightarrow>
          let result =
                (case clientId of
                   None \<Rightarrow> None
                 | Some i \<Rightarrow>
                     (case map_of (tk_data i) XtStickinessToken of
                        None \<Rightarrow> None
                      | Some strId \<Rightarrow> List.find (\<lambda>t. be_id (routing_terminator t) = strId) ts));
              result = (case result of None \<Rightarrow> ts ! 0 | Some t \<Rightarrow> t)
          in Some (result, Some [(XtStickinessToken, be_id (routing_terminator result))]))"

definition unbiased_costs :: "'f float32_ops \<Rightarrow> RoutingTerminator list \<Rightarrow> 'f list option" where
  "unbiased_costs fl ts =
     (if \<exists>t \<in> set ts. term_prec t = None then None
      else Some (map (\<lambda>t. let u = f_of_u32 fl (Unbias (the (term_prec t)) (RouteCost t))
                          in if f_eq fl u (f_of_u32 fl 0) then f_of_u32 fl 1 else u) ts))"

fun cumulated :: "'f float32_ops \<Rightarrow> 'f \<Rightarrow> 'f \<Rightarrow> 'f list \<Rightarrow> 'f list" where
  "cumulated fl totalCost acc [] = []"
| "cumulated fl totalCost acc (cost # costs) =
     (let acc' = f_add fl acc (f_sub fl (f_of_u32 fl 1) (f_div fl cost totalCost))
      in acc' # cumulated fl totalCost acc' costs)"

fun first_above :: "'f float32_ops \<Rightarrow> 'f \<Rightarrow> 'f list \<Rightarrow> RoutingTerminator list \<Rightarrow> RoutingTerminator option" where
  "first_above fl selected (cost # costs) (t # ts) =
     (if f_less fl selected cost then Some t else first_above fl selected costs ts)"
| "first_above fl selected _ _ = None"

definition weighted_Select ::
  "'f float32_ops \<Rightarrow> 'f \<Rightarrow> RoutingTerminator list \<Rightarrow> (RoutingTerminator \<times> PeerData option) option" where
  "weighted_Select fl selected terminators =
     (case GetRelatedTerminators terminators of
        None \<Rightarrow> None
      | Some ts \<Rightarrow>
          if length ts = 1 then Some (ts ! 0, None)
          else
            (case unbiased_costs fl ts of
               None \<Rightarrow> None
             | Some costIdx \<Rightarrow>
                 let totalCost = fold (\<lambda>c acc. f_add fl acc c) costIdx (f_of_u32 fl 0);
                     costIdx = cumulated fl totalCost (f_of_u32 fl 0) costIdx
                 in (case first_above fl selected costIdx ts of
                       Some t \<Rightarrow> Some (t, None)
                     | None \<Rightarrow> Some (ts ! 0, None))))"

datatype strategy_kind = RandomKind | SmartRoutingKind | StickyKind | WeightedKind

datatype strategy =
    RandomStrategy
  | SmartRoutingStrategy CostVisitor
  | StickyStrategy CostVisitor
  | WeightedStrategy CostVisitor

fun GetStrategyName :: "strategy_kind \<Rightarrow> string" where
  "GetStrategyName RandomKind = ''random''"
| "GetStrategyName SmartRoutingKind = ''smartrouting''"
| "GetStrategyName StickyKind = ''sticky''"
| "GetStrategyName WeightedKind = ''weighted''"

fun NewStrategy :: "strategy_kind \<Rightarrow> strategy" where
  "NewStrategy RandomKind = RandomStrategy"
| "NewStrategy SmartRoutingKind = SmartRoutingStrategy (NewCostVisitor 2 20 2)"
| "NewStrategy StickyKind = StickyStrategy (NewCostVisitor 2 20 2)"
| "NewStrategy WeightedKind = WeightedStrategy (NewCostVisitor 2 20 2)"

text \<open>The random choices of one selection: a raw integer and a \<open>float32\<close> with its arithmetic.\<close>

record 'f chance =
  ch_intn :: nat
  ch_float :: 'f
  ch_ops :: "'f float32_ops"

fun strategy_Select ::
  "strategy \<Rightarrow> 'f chance \<Rightarrow> TokenId option \<Rightarrow> RoutingTerminator list \<Rightarrow>
   (RoutingTerminator \<times> PeerData option) option" where
  "strategy_Select RandomStrategy ch client ts = random_Select (ch_intn ch) ts"
| "strategy_Select (SmartRoutingStrategy v) ch client ts = smartrouting_Select ts"
| "strategy_Select (StickyStrategy v) ch client ts = sticky_Select client ts"
| "strategy_Select (WeightedStrategy v) ch client ts = weighted_Select (ch_ops ch) (ch_float ch) ts"

section \<open>The strategy registry\<close>

record xt_state =
  xt_factories :: "string \<rightharpoonup> strategy_kind"
  xt_strategies :: "string \<rightharpoonup> strategy"
  xt_costs :: cost_store

definition empty_xt :: xt_state where
  "empty_xt = \<lparr>xt_factories = Map.empty, xt_strategies = Map.empty, xt_costs = empty_costs\<rparr>"

definition RegisterFactory :: "strategy_kind \<Rightarrow> xt_state \<Rightarrow> xt_state" where
  "RegisterFactory k x = x\<lparr>xt_factories := (xt_factories x)(GetStrategyName k \<mapsto> k)\<rparr>"

definition registerXts :: "xt_state \<Rightarrow> xt_state" where
  "registerXts x =
     RegisterFactory StickyKind (RegisterFactory WeightedKind
       (RegisterFactory RandomKind (RegisterFactory SmartRoutingKind x)))"

text \<open>The strategy is returned as its key in the registry; None stands for the not-found error.\<close>

definition GetStrategy :: "string \<Rightarrow> xt_state \<Rightarrow> string option \<times> xt_state" where
  "GetStrategy name x =
     (case xt_strategies x name of
        Some _ \<Rightarrow> (Some name, x)
      | None \<Rightarrow>
          (case xt_factories x name of
             None \<Rightarrow> (None, x)
           | Some k \<Rightarrow>
               (Some (GetStrategyName k),
                x\<lparr>xt_strategies := (xt_strategies x)(GetStrategyName k \<mapsto> NewStrategy k)\<rparr>)))"

definition notify_visitor ::
  "string \<Rightarrow> (CostVisitor \<Rightarrow> strategy) \<Rightarrow> CostVisitor \<Rightarrow> int \<Rightarrow> terminator_event \<Rightarrow> xt_state \<Rightarrow> xt_state option" where
  "notify_visitor name mk v now e x =
     (case visitor_NotifyEvent now e (xt_costs x, v) of
        None \<Rightarrow> None
      | Some (s, v') \<Rightarrow> Some (x\<lparr>xt_costs := s, xt_strategies := (xt_strategies x)(name \<mapsto> mk v')\<rparr>))"

definition NotifyEvent :: "string \<Rightarrow> int \<Rightarrow> terminator_event \<Rightarrow> xt_state \<Rightarrow> xt_state option" where
  "NotifyEvent name now e x =
     (case xt_strategies x name of
        None \<Rightarrow> None
      | Some RandomStrategy \<Rightarrow> Some x
      | Some (SmartRoutingStrategy v) \<Rightarrow> notify_visitor name SmartRoutingStrategy v now e x
      | Some (StickyStrategy v) \<Rightarrow> notify_visitor name StickyStrategy v now e x
      | Some (WeightedStrategy v) \<Rightarrow> notify_visitor name WeightedStrategy v now e x)"

section \<open>Selecting a terminator and a path\<close>

record Service =
  svc_id :: string
  svc_name :: string
  svc_strategy :: string
  svc_terminators :: "Terminator list"

record PathAndCost =
  pc_path :: "router_ref list"
  pc_cost :: "32 word"

definition newPathAndCost :: "router_ref list \<Rightarrow> int \<Rightarrow> PathAndCost" where
  "newPathAndCost path cost =
     (let cost = (if cost > 1048576 then 1048576 else cost)
      in \<lparr>pc_path = path, pc_cost = word_of_int cost\<rparr>)"

definition parseInstanceIdAndService :: "string \<Rightarrow> string \<times> string" where
  "parseInstanceIdAndService service =
     (if CHR ''@'' \<in> set service
      then (takeWhile (\<lambda>c. c \<noteq> CHR ''@'') service, tl (dropWhile (\<lambda>c. c \<noteq> CHR ''@'') service))
      else ('''', service))"

record select_acc =
  sa_paths :: "string \<rightharpoonup> PathAndCost"
  sa_weighted :: "RoutingTerminator list"
  sa_offline :: bool
  sa_pathError :: bool

definition weigh :: "cost_store \<Rightarrow> Terminator \<Rightarrow> PathAndCost \<Rightarrow> precedence \<Rightarrow> RoutingTerminator" where
  "weigh s terminator pathAndCost p =
     (let dynamicCost = GetDynamicCost s (be_id terminator);
          unbiasedCost = ucast (t_cost terminator) + ucast dynamicCost + pc_cost pathAndCost;
          biasedCost = GetBiasedCost p unbiasedCost
      in \<lparr>RouteCost = biasedCost, routing_terminator = terminator\<rparr>)"

text \<open>
  One round of the loop over the service's terminators. None is a nil precedence, on which the
  code panics, or a path search that does not return. \<open>ords\<close> gives the map orders the path
  search sees for a router.
\<close>

definition select_round ::
  "(string \<Rightarrow> router_ref list \<Rightarrow> router_ref list) \<Rightarrow> net \<Rightarrow> 16 word \<Rightarrow> cost_store \<Rightarrow> router_ref option \<Rightarrow> string \<Rightarrow>
   Terminator \<Rightarrow> select_acc \<Rightarrow> select_acc option" where
  "select_round ords n minRouterCost s src instanceId terminator acc =
     (let append = (\<lambda>pathAndCost acc.
            case t_precedence terminator of
              None \<Rightarrow> None
            | Some p \<Rightarrow> Some (acc\<lparr>sa_weighted := sa_weighted acc @ [weigh s terminator pathAndCost p]\<rparr>))
      in if t_instanceId terminator \<noteq> instanceId then Some acc
         else
           (case sa_paths acc (t_router terminator) of
              Some pathAndCost \<Rightarrow> append pathAndCost acc
            | None \<Rightarrow>
                (case GetConnected n (t_router terminator) of
                   None \<Rightarrow> Some (acc\<lparr>sa_offline := True\<rparr>)
                 | Some dstR \<Rightarrow>
                     (case shortestPath (ords (t_router terminator)) n minRouterCost src (Some dstR) of
                        None \<Rightarrow> None
                      | Some (Inl err) \<Rightarrow> Some (acc\<lparr>sa_pathError := True\<rparr>)
                      | Some (Inr (path, cost)) \<Rightarrow>
                          let pathAndCost = newPathAndCost path cost
                          in append pathAndCost
                               (acc\<lparr>sa_paths := (sa_paths acc)(t_router terminator \<mapsto> pathAndCost)\<rparr>)))))"

fun select_loop ::
  "(Terminator \<Rightarrow> select_acc \<Rightarrow> select_acc option) \<Rightarrow> Terminator list \<Rightarrow> select_acc \<Rightarrow> select_acc option" where
  "select_loop step [] acc = Some acc"
| "select_loop step (t # ts) acc = (case step t acc of None \<Rightarrow> None | Some acc' \<Rightarrow> select_loop step ts acc')"

record selection =
  sel_strategy :: string
  sel_terminator :: RoutingTerminator
  sel_path :: "router_ref list"
  sel_peerData :: "PeerData option"

definition selectPath ::
  "(string \<Rightarrow> router_ref list \<Rightarrow> router_ref list) \<Rightarrow> (RoutingTerminator list \<Rightarrow> RoutingTerminator list) \<Rightarrow> 'f chance \<Rightarrow>
   net \<Rightarrow> 16 word \<Rightarrow> router_ref option \<Rightarrow> TokenId option \<Rightarrow> Service \<Rightarrow> string \<Rightarrow> xt_state \<Rightarrow>
   ((CircuitFailureCause + selection) \<times> xt_state) option" where
  "selectPath ords srt ch n minRouterCost src client svc instanceId x =
     (case select_loop (select_round ords n minRouterCost (xt_costs x) src instanceId) (svc_terminators svc)
             \<lparr>sa_paths = Map.empty, sa_weighted = [], sa_offline = False, sa_pathError = False\<rparr> of
        None \<Rightarrow> None
      | Some acc \<Rightarrow>
          if length (svc_terminators svc) = 0 then Some (Inl CircuitFailureNoTerminators, x)
          else if length (sa_weighted acc) = 0 then
            (if sa_pathError acc then Some (Inl CircuitFailureNoPath, x)
             else if sa_offline acc then Some (Inl CircuitFailureNoOnlineTerminators, x)
             else Some (Inl CircuitFailureNoTerminators, x))
          else
            (case GetStrategy (svc_strategy svc) x of
               (None, x1) \<Rightarrow> Some (Inl CircuitFailureInvalidStrategy, x1)
             | (Some strat, x1) \<Rightarrow>
                 (case xt_strategies x1 strat of
                    None \<Rightarrow> None
                  | Some st \<Rightarrow>
                      (case strategy_Select st ch client (go_sort srt RouteCost (sa_weighted acc)) of
                         None \<Rightarrow> None
                       | Some (terminator, peerData) \<Rightarrow>
                           (case sa_paths acc (t_router (routing_terminator terminator)) of
                              None \<Rightarrow> None
                            | Some pathAndCost \<Rightarrow>
                                Some (Inr \<lparr>sel_strategy = strat, sel_terminator = terminator,
                                        sel_path = pc_path pathAndCost, sel_peerData = peerData\<rparr>, x1))))))"

section \<open>What every strategy promises\<close>

definition banded :: "RoutingTerminator \<Rightarrow> bool" where
  "banded t \<longleftrightarrow> (\<exists>p c. term_prec t = Some p \<and> unat c < 2 ^ 31 \<and> RouteCost t = GetBiasedCost p c)"

definition prec_rank :: "RoutingTerminator \<Rightarrow> 32 word" where
  "prec_rank t = (case term_prec t of None \<Rightarrow> 0 | Some p \<Rightarrow> prec_minCost p)"

lemma banded_order:
  assumes "banded t" "banded u" "RouteCost t \<le> RouteCost u"
  shows "prec_rank t \<le> prec_rank u"
proof (rule ccontr)
  from assms obtain p c q d where tu: "term_prec t = Some p" "unat c < 2 ^ 31" "RouteCost t = GetBiasedCost p c"
    "term_prec u = Some q" "unat d < 2 ^ 31" "RouteCost u = GetBiasedCost q d"
    by (auto simp: banded_def)
  assume "\<not> prec_rank t \<le> prec_rank u"
  then have "prec_minCost q < prec_minCost p" using tu by (simp add: prec_rank_def)
  from biased_order [OF tu(5) tu(2) this] assms(3) tu(3,6) show False by simp
qed

locale strategy_contract =
  fixes sel :: "RoutingTerminator list \<Rightarrow> (RoutingTerminator \<times> PeerData option) option"
  assumes sel_total: "ts \<noteq> [] \<Longrightarrow> \<forall>t \<in> set ts. term_prec t \<noteq> None \<Longrightarrow> sel ts \<noteq> None"
    and sel_related: "sel ts = Some (t, pd) \<Longrightarrow> t \<in> set ts \<and> term_prec t = term_prec (hd ts)"
begin

lemma selects_best_precedence:
  assumes "sorted (map RouteCost ts)" "\<forall>t \<in> set ts. banded t" "sel ts = Some (t, pd)" "u \<in> set ts"
  shows "prec_rank t \<le> prec_rank u"
proof -
  have "hd ts \<in> set ts" using assms(4) by (cases ts) auto
  moreover have "RouteCost (hd ts) \<le> RouteCost u" using assms(1,4) by (cases ts) auto
  ultimately have "prec_rank (hd ts) \<le> prec_rank u" using assms(2,4) by (intro banded_order) auto
  moreover have "prec_rank t = prec_rank (hd ts)"
    using sel_related [OF assms(3)] by (simp add: prec_rank_def)
  ultimately show ?thesis by simp
qed

end

lemma related_terminators:
  assumes "GetRelatedTerminators ts = Some rs"
  shows "rs \<noteq> []" "t \<in> set rs \<Longrightarrow> t \<in> set ts \<and> term_prec t = term_prec (hd ts)"
  using assms by (cases ts; auto dest: set_takeWhileD)+

lemma related_total: "ts \<noteq> [] \<Longrightarrow> \<exists>rs. GetRelatedTerminators ts = Some rs"
  by (cases ts) auto

interpretation random: strategy_contract "random_Select raw" for raw
proof
  show "random_Select raw ts \<noteq> None" if "ts \<noteq> []" for ts
    using related_total [OF that] by (auto simp: random_Select_def Let_def)
  show "t \<in> set ts \<and> term_prec t = term_prec (hd ts)" if sel: "random_Select raw ts = Some (t, pd)" for ts t pd
  proof -
    from sel obtain rs where rs: "GetRelatedTerminators ts = Some rs" by (auto simp: random_Select_def split: option.splits)
    from related_terminators(1) [OF rs] have "raw mod length rs < length rs" by simp
    with sel rs related_terminators(1) [OF rs] have "t \<in> set rs"
      by (auto simp: random_Select_def Let_def split: if_splits)
    then show ?thesis by (rule related_terminators(2) [OF rs])
  qed
qed

interpretation smartrouting: strategy_contract smartrouting_Select
  by unfold_locales (auto simp: smartrouting_Select_def split: list.splits)

interpretation sticky: strategy_contract "sticky_Select client" for client
proof
  show "sticky_Select client ts \<noteq> None" if "ts \<noteq> []" for ts
    using related_total [OF that] by (auto simp: sticky_Select_def Let_def)
  show "t \<in> set ts \<and> term_prec t = term_prec (hd ts)" if sel: "sticky_Select client ts = Some (t, pd)" for ts t pd
  proof -
    from sel obtain rs where rs: "GetRelatedTerminators ts = Some rs" by (auto simp: sticky_Select_def split: option.splits)
    with sel related_terminators(1) [OF rs] have "t \<in> set rs"
      by (auto simp: sticky_Select_def Let_def find_Some_iff split: option.splits)
    then show ?thesis by (rule related_terminators(2) [OF rs])
  qed
qed

lemma first_above_mem: "first_above fl selected costs ts = Some t \<Longrightarrow> t \<in> set ts"
  by (induction fl selected costs ts rule: first_above.induct) (auto split: if_splits)

interpretation weighted: strategy_contract "weighted_Select fl selected" for fl selected
proof
  show "weighted_Select fl selected ts \<noteq> None" if ts: "ts \<noteq> []" "\<forall>t \<in> set ts. term_prec t \<noteq> None" for ts
  proof -
    from related_total [OF ts(1)] obtain rs where rs: "GetRelatedTerminators ts = Some rs" by blast
    have "\<forall>t \<in> set rs. term_prec t \<noteq> None" using related_terminators(2) [OF rs] ts(2) by blast
    then have "unbiased_costs fl rs \<noteq> None" by (simp add: unbiased_costs_def)
    then show ?thesis using rs by (auto simp: weighted_Select_def Let_def split: option.splits)
  qed
  show "t \<in> set ts \<and> term_prec t = term_prec (hd ts)" if sel: "weighted_Select fl selected ts = Some (t, pd)" for ts t pd
  proof -
    from sel obtain rs where rs: "GetRelatedTerminators ts = Some rs" by (auto simp: weighted_Select_def split: option.splits)
    with sel related_terminators(1) [OF rs] have "t \<in> set rs"
      by (auto simp: weighted_Select_def Let_def dest: first_above_mem split: option.splits if_splits)
    then show ?thesis by (rule related_terminators(2) [OF rs])
  qed
qed

lemma strategy_Select_total:
  assumes "ts \<noteq> []" "\<forall>t \<in> set ts. term_prec t \<noteq> None"
  shows "strategy_Select st ch client ts \<noteq> None"
  using random.sel_total [OF assms] smartrouting.sel_total [OF assms] sticky.sel_total [OF assms]
    weighted.sel_total [OF assms]
  by (cases st) (simp_all only: strategy_Select.simps not_False_eq_True)

lemma strategy_Select_related:
  assumes "strategy_Select st ch client ts = Some (t, pd)"
  shows "t \<in> set ts \<and> term_prec t = term_prec (hd ts)"
proof (cases st)
  case RandomStrategy
  with assms show ?thesis by (intro random.sel_related) (simp only: strategy_Select.simps)
next
  case (SmartRoutingStrategy v)
  with assms show ?thesis by (intro smartrouting.sel_related) (simp only: strategy_Select.simps)
next
  case (StickyStrategy v)
  with assms show ?thesis by (intro sticky.sel_related) (simp only: strategy_Select.simps)
next
  case (WeightedStrategy v)
  with assms show ?thesis by (intro weighted.sel_related) (simp only: strategy_Select.simps)
qed

interpretation registered: strategy_contract "strategy_Select st ch client" for st ch client
  by unfold_locales (rule strategy_Select_total, assumption+, rule strategy_Select_related)

section \<open>What the selection loop collects\<close>

definition route_to ::
  "(string \<Rightarrow> router_ref list \<Rightarrow> router_ref list) \<Rightarrow> net \<Rightarrow> 16 word \<Rightarrow> router_ref option \<Rightarrow> string \<Rightarrow> PathAndCost option" where
  "route_to ords n minRouterCost src r =
     (case GetConnected n r of
        None \<Rightarrow> None
      | Some dstR \<Rightarrow>
          (case shortestPath (ords r) n minRouterCost src (Some dstR) of
             Some (Inr (path, cost)) \<Rightarrow> Some (newPathAndCost path cost)
           | _ \<Rightarrow> None))"

definition weighed ::
  "(string \<Rightarrow> PathAndCost option) \<Rightarrow> cost_store \<Rightarrow> Terminator list \<Rightarrow> RoutingTerminator list" where
  "weighed route s ts =
     concat (map (\<lambda>t. case route (t_router t) of
                          None \<Rightarrow> []
                        | Some pc \<Rightarrow> [weigh s t pc (the (t_precedence t))]) ts)"

definition loop_spec ::
  "(string \<Rightarrow> PathAndCost option) \<Rightarrow> (string \<Rightarrow> bool) \<Rightarrow> cost_store \<Rightarrow> Terminator list \<Rightarrow> select_acc \<Rightarrow> select_acc \<Rightarrow> bool" where
  "loop_spec route online s cs acc acc' \<longleftrightarrow>
     (sa_paths acc' \<subseteq>\<^sub>m route) \<and> (sa_paths acc \<subseteq>\<^sub>m sa_paths acc') \<and>
     (\<forall>t \<in> set cs. route (t_router t) \<noteq> None \<longrightarrow> sa_paths acc' (t_router t) \<noteq> None) \<and>
     sa_weighted acc' = sa_weighted acc @ weighed route s cs \<and>
     (sa_offline acc' \<longleftrightarrow> sa_offline acc \<or> (\<exists>t \<in> set cs. \<not> online (t_router t))) \<and>
     (sa_pathError acc' \<longleftrightarrow>
        sa_pathError acc \<or> (\<exists>t \<in> set cs. online (t_router t) \<and> route (t_router t) = None))"

lemma loop_spec_refl: "sa_paths acc \<subseteq>\<^sub>m route \<Longrightarrow> loop_spec route online s [] acc acc"
  by (simp add: loop_spec_def weighed_def)

lemma loop_spec_trans:
  assumes "loop_spec route online s cs acc acc1" "loop_spec route online s ds acc1 acc2"
  shows "loop_spec route online s (cs @ ds) acc acc2"
proof -
  note one = assms(1) [unfolded loop_spec_def] and two = assms(2) [unfolded loop_spec_def]
  have keep: "sa_paths acc2 r \<noteq> None" if "sa_paths acc1 r \<noteq> None" for r
    using that two by (metis domI domD map_le_def not_None_eq)
  have "sa_paths acc \<subseteq>\<^sub>m sa_paths acc2" using one two map_le_trans by blast
  moreover have "\<forall>t \<in> set (cs @ ds). route (t_router t) \<noteq> None \<longrightarrow> sa_paths acc2 (t_router t) \<noteq> None"
    unfolding set_append using one two keep by blast
  moreover have "weighed route s (cs @ ds) = weighed route s cs @ weighed route s ds"
    by (simp add: weighed_def)
  moreover have "(sa_offline acc2 \<longleftrightarrow> sa_offline acc \<or> (\<exists>t \<in> set (cs @ ds). \<not> online (t_router t))) \<and>
     (sa_pathError acc2 \<longleftrightarrow>
        sa_pathError acc \<or> (\<exists>t \<in> set (cs @ ds). online (t_router t) \<and> route (t_router t) = None))"
    unfolding set_append using one two by blast
  ultimately show ?thesis using one two by (simp add: loop_spec_def del: not_None_eq set_append)
qed

lemma loop_spec_one:
  assumes "sa_paths acc' \<subseteq>\<^sub>m route" "sa_paths acc \<subseteq>\<^sub>m sa_paths acc'"
    "route (t_router t) \<noteq> None \<Longrightarrow> sa_paths acc' (t_router t) \<noteq> None"
    "sa_weighted acc' = sa_weighted acc @
       (case route (t_router t) of None \<Rightarrow> [] | Some pc \<Rightarrow> [weigh s t pc (the (t_precedence t))])"
    "sa_offline acc' \<longleftrightarrow> sa_offline acc \<or> \<not> online (t_router t)"
    "sa_pathError acc' \<longleftrightarrow> sa_pathError acc \<or> online (t_router t) \<and> route (t_router t) = None"
  shows "loop_spec route online s [t] acc acc'"
  using assms by (simp add: loop_spec_def weighed_def split: option.split)

lemma select_round_spec:
  assumes total: "\<And>ord d. shortestPath ord n m src d \<noteq> None"
    and prec: "t_precedence t \<noteq> None" and memo: "sa_paths acc \<subseteq>\<^sub>m route_to ords n m src"
  shows "\<exists>acc'. select_round ords n m s src inst t acc = Some acc' \<and>
    loop_spec (route_to ords n m src) (\<lambda>r. GetConnected n r \<noteq> None) s
      (if t_instanceId t = inst then [t] else []) acc acc'"
proof (cases "t_instanceId t = inst")
  case False
  with memo show ?thesis by (simp add: select_round_def loop_spec_refl)
next
  case True
  from prec obtain p where p: "t_precedence t = Some p" by blast
  let ?r = "t_router t" and ?route = "route_to ords n m src"
  show ?thesis
  proof (cases "sa_paths acc ?r")
    case (Some pc)
    then have route: "?route ?r = Some pc" using memo by (metis domI map_le_def)
    then have "GetConnected n ?r \<noteq> None" by (cases "GetConnected n ?r") (simp_all add: route_to_def)
    with True Some p route memo show ?thesis
      by (simp add: select_round_def loop_spec_one del: not_None_eq)
  next
    case None
    show ?thesis
    proof (cases "GetConnected n ?r")
      case None
      then have "?route ?r = None" by (simp add: route_to_def)
      with True \<open>sa_paths acc ?r = None\<close> None memo show ?thesis
        by (simp add: select_round_def del: not_None_eq) (rule loop_spec_one; simp)
    next
      case (Some d)
      obtain res where res: "shortestPath (ords ?r) n m src (Some d) = Some res" using total by blast
      show ?thesis
      proof (cases res)
        case (Inl e)
        then have "?route ?r = None" using Some res by (simp add: route_to_def)
        with True \<open>sa_paths acc ?r = None\<close> Some res Inl memo show ?thesis
          by (simp add: select_round_def del: not_None_eq) (rule loop_spec_one; simp)
      next
        case (Inr pc)
        obtain path cost where pc: "pc = (path, cost)" by (cases pc)
        then have route: "?route ?r = Some (newPathAndCost path cost)" using Some res Inr by (simp add: route_to_def)
        have "(sa_paths acc)(?r \<mapsto> newPathAndCost path cost) \<subseteq>\<^sub>m ?route"
          using memo route by (auto simp: map_le_def)
        moreover have "sa_paths acc \<subseteq>\<^sub>m (sa_paths acc)(?r \<mapsto> newPathAndCost path cost)"
          using None by (auto simp: map_le_def dom_def)
        ultimately show ?thesis using True None Some res Inr pc p route
          by (simp add: select_round_def Let_def del: not_None_eq) (rule loop_spec_one; simp)
      qed
    qed
  qed
qed

lemma select_loop_spec:
  assumes total: "\<And>ord d. shortestPath ord n m src d \<noteq> None"
    and "\<forall>t \<in> set ts. t_precedence t \<noteq> None" "sa_paths acc \<subseteq>\<^sub>m route_to ords n m src"
  shows "\<exists>acc'. select_loop (select_round ords n m s src inst) ts acc = Some acc' \<and>
    loop_spec (route_to ords n m src) (\<lambda>r. GetConnected n r \<noteq> None) s
      (filter (\<lambda>t. t_instanceId t = inst) ts) acc acc'"
  using assms(2,3)
proof (induction ts arbitrary: acc)
  case Nil
  then show ?case by (simp add: loop_spec_refl)
next
  case (Cons t ts)
  from select_round_spec [OF total, of t acc ords s inst] Cons.prems
  obtain acc1 where acc1: "select_round ords n m s src inst t acc = Some acc1"
    "loop_spec (route_to ords n m src) (\<lambda>r. GetConnected n r \<noteq> None) s
      (if t_instanceId t = inst then [t] else []) acc acc1" by auto
  then have "sa_paths acc1 \<subseteq>\<^sub>m route_to ords n m src" by (simp add: loop_spec_def)
  from Cons.IH [OF _ this] Cons.prems(1) obtain acc2 where acc2:
    "select_loop (select_round ords n m s src inst) ts acc1 = Some acc2"
    "loop_spec (route_to ords n m src) (\<lambda>r. GetConnected n r \<noteq> None) s
      (filter (\<lambda>t. t_instanceId t = inst) ts) acc1 acc2" by auto
  have "filter (\<lambda>t. t_instanceId t = inst) (t # ts) =
      (if t_instanceId t = inst then [t] else []) @ filter (\<lambda>t. t_instanceId t = inst) ts" by simp
  with acc1(1) acc2(1) loop_spec_trans [OF acc1(2) acc2(2)] show ?case by (simp only: select_loop.simps option.case) blast
qed

lemma shortestPath_returns:
  assumes "net_reachable n" "costs_bounded n"
  shows "shortestPath ord n m src dst \<noteq> None"
proof (cases "src = None \<or> dst = None")
  case True
  then show ?thesis by (auto simp: shortestPath_def split: option.split)
next
  case False
  then obtain s d where sd: "src = Some s" "dst = Some d" by auto
  show ?thesis
  proof (cases "s = d")
    case True
    then show ?thesis by (simp add: sd shortestPath_def)
  next
    case False
    show ?thesis
      by (cases rule: shortestPath_result [OF index_inv_reachable [OF assms(1)] assms(2) False, of ord m])
        (simp_all add: sd)
  qed
qed

lemma pc_cost_bound: "unat (pc_cost (newPathAndCost path cost)) \<le> 1048576" if "0 \<le> cost"
proof -
  have "0 \<le> (if cost > 1048576 then 1048576 else cost)" "(if cost > 1048576 then 1048576 else cost) \<le> 1048576"
    using that by auto
  then show ?thesis
    by (simp add: newPathAndCost_def Let_def unat_eq_nat_uint uint_word_of_int_eq take_bit_int_eq_self)
qed

text \<open>A selection of a terminator and the contract it satisfies.\<close>

definition candidates :: "Service \<Rightarrow> string \<Rightarrow> Terminator list" where
  "candidates svc instanceId = filter (\<lambda>t. t_instanceId t = instanceId) (svc_terminators svc)"

definition usable ::
  "(string \<Rightarrow> router_ref list \<Rightarrow> router_ref list) \<Rightarrow> net \<Rightarrow> 16 word \<Rightarrow> router_ref option \<Rightarrow> Terminator \<Rightarrow> bool" where
  "usable ords n m src t \<longleftrightarrow> route_to ords n m src (t_router t) \<noteq> None"

lemma weighed_iff:
  "rt \<in> set (weighed route s ts) \<longleftrightarrow>
     (\<exists>t \<in> set ts. \<exists>pc. route (t_router t) = Some pc \<and> rt = weigh s t pc (the (t_precedence t)))"
proof (induction ts)
  case (Cons t ts)
  then show ?case by (cases "route (t_router t)") (auto simp: weighed_def)
qed (simp add: weighed_def)

lemma weighed_Nil: "weighed route s ts = [] \<longleftrightarrow> (\<forall>t \<in> set ts. route (t_router t) = None)"
  by (auto simp: weighed_def split: option.splits)

lemma routing_weigh [simp]: "routing_terminator (weigh s t pc p) = t"
  by (simp add: weigh_def Let_def)

lemma banded_weigh:
  assumes "t_precedence t = Some p" "unat (pc_cost pc) \<le> 1048576"
  shows "banded (weigh s t pc p)"
proof -
  let ?c = "ucast (t_cost t) + ucast (GetDynamicCost s (be_id t)) + pc_cost pc :: 32 word"
  have u16: "unat (ucast x :: 32 word) \<le> 65535" for x :: "16 word"
    using unsigned_less [of x, where 'a = nat] by (simp add: unsigned_ucast_eq take_bit_nat_eq_self)
  then have "unat (ucast (t_cost t) :: 32 word) + unat (ucast (GetDynamicCost s (be_id t)) :: 32 word) +
      unat (pc_cost pc) \<le> 65535 + 65535 + 1048576"
    by (intro add_le_mono u16 assms(2))
  then have "unat ?c < 2 ^ 31" by (simp add: unat_word_ariths)
  with assms(1) show ?thesis by (auto simp: banded_def weigh_def Let_def)
qed

lemma shortestPath_nonneg:
  assumes "net_reachable n" "costs_bounded n" "shortestPath ord n m src dst = Some (Inr (path, cost))"
  shows "0 \<le> cost"
proof -
  obtain s d where sd: "src = Some s" "dst = Some d"
    using assms(3) by (auto simp: shortestPath_def split: option.splits)
  note inv = index_inv_reachable [OF assms(1)]
  show ?thesis
  proof (cases "s = d")
    case True
    with assms(3) sd show ?thesis by (simp add: shortestPath_def)
  next
    case False
    show ?thesis
    proof (cases rule: shortestPath_result [OF inv assms(2) False, of ord m])
      case (1 nodes c)
      from 1(1) assms(3) have "c = cost" unfolding sd by simp
      with 1(6) have "cost = walk_cost (edge_cost n m s d) nodes" by simp
      with walk_cost_nonneg [OF cost_ok_edge_cost [OF inv assms(2)], of m s d nodes] show ?thesis by simp
    qed (use assms(3) sd in simp)
  qed
qed

lemma is_walk_subset: "is_walk nbrs V vs \<Longrightarrow> set vs \<subseteq> V"
  by (induction nbrs V vs rule: is_walk.induct) auto

lemma shortestPath_walk:
  assumes "index_inv n" "costs_bounded n" "shortestPath ord n m (Some s) (Some d) = Some (Inr (path, cost))"
  shows "path \<noteq> [] \<and> hd path = s \<and> last path = d \<and> (s = d \<longrightarrow> path = [s]) \<and>
    (s \<noteq> d \<longrightarrow> set path \<subseteq> set (AllConnected n))"
proof (cases "s = d")
  case True
  with assms(3) show ?thesis by (auto simp: shortestPath_def)
next
  case False
  show ?thesis
  proof (cases rule: shortestPath_result [OF assms(1,2) False, of ord m])
    case (1 nodes c)
    then have "nodes = path" using assms(3) by simp
    with 1(2-4) False is_walk_subset [of _ _ path] show ?thesis by (cases path) auto
  qed (use assms(3) in simp)
qed

lemma route_to_SomeD:
  assumes "route_to ords n m src r = Some pc"
  obtains d path cost where "GetConnected n r = Some d" "pc = newPathAndCost path cost"
    "shortestPath (ords r) n m src (Some d) = Some (Inr (path, cost))"
  using assms by (auto simp: route_to_def split: option.splits sum.splits)

lemma GetStrategy_registered: "GetStrategy name x = (Some strat, x1) \<Longrightarrow> xt_strategies x1 strat \<noteq> None"
  by (auto simp: GetStrategy_def split: option.splits)

lemma selectPath_cases:
  fixes ch :: "'f chance" and ords m src inst x
  assumes "net_reachable n" "costs_bounded n" and prec: "\<forall>t \<in> set (svc_terminators svc). t_precedence t \<noteq> None"
  defines "route \<equiv> route_to ords n m src" and "cs \<equiv> candidates svc inst"
    and "W \<equiv> weighed (route_to ords n m src) (xt_costs x) (candidates svc inst)"
  obtains (none) "\<forall>t \<in> set cs. route (t_router t) = None"
      "selectPath ords srt ch n m src client svc inst x =
         Some (Inl (if cs = [] then CircuitFailureNoTerminators
                    else if \<exists>t \<in> set cs. GetConnected n (t_router t) \<noteq> None then CircuitFailureNoPath
                    else CircuitFailureNoOnlineTerminators), x)"
    | (strategy) x1 where "W \<noteq> []" "GetStrategy (svc_strategy svc) x = (None, x1)"
      "selectPath ords srt ch n m src client svc inst x = Some (Inl CircuitFailureInvalidStrategy, x1)"
    | (found) strat x1 st rt pd pc where "W \<noteq> []" "GetStrategy (svc_strategy svc) x = (Some strat, x1)"
      "xt_strategies x1 strat = Some st" "strategy_Select st ch client (go_sort srt RouteCost W) = Some (rt, pd)"
      "rt \<in> set W" "route (t_router (routing_terminator rt)) = Some pc"
      "selectPath ords srt ch n m src client svc inst x =
         Some (Inr \<lparr>sel_strategy = strat, sel_terminator = rt, sel_path = pc_path pc, sel_peerData = pd\<rparr>, x1)"
proof -
  let ?acc = "\<lparr>sa_paths = Map.empty, sa_weighted = [], sa_offline = False, sa_pathError = False\<rparr> :: select_acc"
  let ?loop = "select_loop (select_round ords n m (xt_costs x) src inst) (svc_terminators svc) ?acc"
  from select_loop_spec [OF shortestPath_returns [OF assms(1,2)] prec, where acc = ?acc and ords = ords and s = "xt_costs x" and inst = inst]
  obtain acc where loop: "?loop = Some acc"
    and spec: "loop_spec route (\<lambda>r. GetConnected n r \<noteq> None) (xt_costs x) cs ?acc acc"
    by (auto simp: route_def cs_def candidates_def)
  have W: "sa_weighted acc = W" using spec by (simp add: loop_spec_def W_def route_def cs_def)
  show thesis
  proof (cases "W = []")
    case True
    then have no: "\<forall>t \<in> set cs. route (t_router t) = None" by (simp add: W_def weighed_Nil route_def cs_def)
    then have "sa_offline acc \<longleftrightarrow> (\<exists>t \<in> set cs. GetConnected n (t_router t) = None)"
      "sa_pathError acc \<longleftrightarrow> (\<exists>t \<in> set cs. GetConnected n (t_router t) \<noteq> None)"
      using spec by (auto simp: loop_spec_def simp del: not_None_eq)
    moreover have "cs = []" if "svc_terminators svc = []" using that by (simp add: cs_def candidates_def)
    ultimately have "selectPath ords srt ch n m src client svc inst x =
         Some (Inl (if cs = [] then CircuitFailureNoTerminators
                    else if \<exists>t \<in> set cs. GetConnected n (t_router t) \<noteq> None then CircuitFailureNoPath
                    else CircuitFailureNoOnlineTerminators), x)"
      using loop W True by (cases cs) (auto simp: selectPath_def simp del: not_None_eq)
    with no show thesis by (rule none)
  next
    case False
    then have ne: "svc_terminators svc \<noteq> []" by (auto simp: W_def weighed_def candidates_def)
    obtain so x1 where gs: "GetStrategy (svc_strategy svc) x = (so, x1)" by fastforce
    show thesis
    proof (cases so)
      case None
      with False gs loop W ne show thesis by (intro strategy) (simp_all add: selectPath_def)
    next
      case (Some strat)
      with gs GetStrategy_registered obtain st where st: "xt_strategies x1 strat = Some st" by blast
      let ?ts = "go_sort srt RouteCost W"
      have W_prec: "t_precedence (routing_terminator rt) \<noteq> None" if "rt \<in> set W" for rt
        using that prec by (auto simp: W_def weighed_iff candidates_def)
      have "strategy_Select st ch client ?ts \<noteq> None"
        by (rule registered.sel_total) (use False W_prec in \<open>auto simp del: not_None_eq\<close>)
      then obtain rt pd where sel: "strategy_Select st ch client ?ts = Some (rt, pd)" by auto
      from registered.sel_related [OF this] have rt: "rt \<in> set W" by simp
      then obtain t pc where t: "t \<in> set cs" "route (t_router t) = Some pc" "routing_terminator rt = t"
        by (auto simp: W_def weighed_iff route_def cs_def)
      then have "sa_paths acc (t_router t) \<noteq> None" using spec by (auto simp: loop_spec_def)
      moreover have "sa_paths acc \<subseteq>\<^sub>m route" using spec by (simp add: loop_spec_def)
      ultimately have "sa_paths acc (t_router t) = Some pc" using t(2) by (metis domIff map_le_def)
      then show thesis using False gs Some st sel rt t loop W ne
        by (intro found [of strat x1 st rt pd pc]) (simp_all add: selectPath_def)
    qed
  qed
qed

lemma weighed_banded:
  assumes "net_reachable n" "costs_bounded n" "\<forall>t \<in> set ts. t_precedence t \<noteq> None"
    and "rt \<in> set (weighed (route_to ords n m src) s ts)"
  shows "banded rt"
proof -
  from assms(4) obtain t pc where t: "t \<in> set ts" "route_to ords n m src (t_router t) = Some pc"
    "rt = weigh s t pc (the (t_precedence t))" by (auto simp: weighed_iff)
  from route_to_SomeD [OF t(2)] obtain d path cost where pc: "pc = newPathAndCost path cost"
    "shortestPath (ords (t_router t)) n m src (Some d) = Some (Inr (path, cost))" by metis
  from shortestPath_nonneg [OF assms(1,2) pc(2)] have "unat (pc_cost pc) \<le> 1048576"
    unfolding pc(1) by (rule pc_cost_bound)
  moreover from t(1) assms(3) obtain p where "t_precedence t = Some p" by blast
  ultimately show ?thesis unfolding t(3) by (simp add: banded_weigh)
qed

section \<open>A service with two terminators\<close>

definition demo_service :: "string \<Rightarrow> Service" where
  "demo_service strat =
     \<lparr>svc_id = ''svc'', svc_name = ''svc'', svc_strategy = strat,
      svc_terminators =
        [new_Terminator\<lparr>be_id := ''t1'', t_router := ''b'', t_precedence := Some PrecDefault\<rparr>,
         new_Terminator\<lparr>be_id := ''t2'', t_router := ''c'', t_precedence := Some PrecRequired, t_cost := 100\<rparr>,
         new_Terminator\<lparr>be_id := ''t3'', t_router := ''off'', t_precedence := Some PrecRequired\<rparr>]\<rparr>"

definition demo_chance :: "int chance" where
  "demo_chance = \<lparr>ch_intn = 5, ch_float = 0, ch_ops =
     \<lparr>f_of_u32 = uint, f_add = (+), f_sub = (-), f_div = (\<lambda>a b. if b = 0 then 0 else a div b),
      f_less = (<), f_eq = (=)\<rparr>\<rparr>"

lemma demo_service_prec: "\<forall>t \<in> set (svc_terminators (demo_service strat)). t_precedence t \<noteq> None"
  by (simp add: demo_service_def)

definition demo_selection :: "string \<Rightarrow> ((CircuitFailureCause + selection) \<times> xt_state) option" where
  "demo_selection strat =
     selectPath (\<lambda>_. id) id demo_chance demo_triangle 10 (Some 0) None (demo_service strat) '''' (registerXts empty_xt)"

section \<open>Properties\<close>

text \<open>
  C9. A successful \<open>selectPath\<close> gives a terminator of the service for the requested instance
  whose router is connected, with a shortest path from the source to that router, and no usable
  terminator of the instance has a better precedence, whichever strategy the service names and
  whatever the random choices. With the smart routing strategy none has a lower route cost.
\<close>

theorem selectPath_selects_best:
  fixes ch :: "'f chance"
  assumes "net_reachable n" "costs_bounded n" "\<forall>t \<in> set (svc_terminators svc). t_precedence t \<noteq> None"
    and sel: "selectPath ords srt ch n m src client svc inst x = Some (Inr c, x')"
  shows "routing_terminator (sel_terminator c) \<in> set (candidates svc inst) \<and>
    (\<exists>d cost. GetConnected n (t_router (routing_terminator (sel_terminator c))) = Some d \<and>
       shortestPath (ords (t_router (routing_terminator (sel_terminator c)))) n m src (Some d) =
         Some (Inr (sel_path c, cost))) \<and>
    (\<forall>u \<in> set (weighed (route_to ords n m src) (xt_costs x) (candidates svc inst)).
       prec_rank (sel_terminator c) \<le> prec_rank u) \<and>
    ((\<exists>v. xt_strategies x' (sel_strategy c) = Some (SmartRoutingStrategy v)) \<longrightarrow>
       (\<forall>u \<in> set (weighed (route_to ords n m src) (xt_costs x) (candidates svc inst)).
          RouteCost (sel_terminator c) \<le> RouteCost u))"
proof (cases rule: selectPath_cases [OF assms(1-3), where ords = ords and srt = srt and ch = ch and m = m
      and src = src and client = client and inst = inst and x = x])
  case (3 strat x1 st rt pd pc)
  let ?W = "weighed (route_to ords n m src) (xt_costs x) (candidates svc inst)"
  from sel 3(7) have c: "c = \<lparr>sel_strategy = strat, sel_terminator = rt, sel_path = pc_path pc, sel_peerData = pd\<rparr>"
    and x': "x' = x1" by simp_all
  have "\<forall>t \<in> set (candidates svc inst). t_precedence t \<noteq> None" using assms(3) by (simp add: candidates_def)
  then have banded: "\<forall>u \<in> set (go_sort srt RouteCost ?W). banded u"
    using weighed_banded [OF assms(1,2)] by (simp del: not_None_eq)
  have mem: "routing_terminator rt \<in> set (candidates svc inst)" using 3(5) by (auto simp: weighed_iff)
  have rank: "\<forall>u \<in> set ?W. prec_rank rt \<le> prec_rank u"
    using registered.selects_best_precedence [OF sorted_go_sort banded 3(4)] by simp
  have least: "(\<exists>v. st = SmartRoutingStrategy v) \<longrightarrow> (\<forall>u \<in> set ?W. RouteCost rt \<le> RouteCost u)"
  proof
    assume "\<exists>v. st = SmartRoutingStrategy v"
    with 3(4) obtain rest where "go_sort srt RouteCost ?W = rt # rest"
      by (auto simp: smartrouting_Select_def split: list.splits)
    with sorted_go_sort [of RouteCost srt ?W] set_go_sort [of srt RouteCost ?W]
    show "\<forall>u \<in> set ?W. RouteCost rt \<le> RouteCost u" by auto
  qed
  from route_to_SomeD [OF 3(6)] obtain d path cost where
    "GetConnected n (t_router (routing_terminator rt)) = Some d" "pc = newPathAndCost path cost"
    "shortestPath (ords (t_router (routing_terminator rt))) n m src (Some d) = Some (Inr (path, cost))" by metis
  then show ?thesis using mem rank least 3(3) by (simp add: c x' newPathAndCost_def Let_def)
qed (use sel in simp_all)

theorem selectPath_selects_best_witness:
  "\<exists>c x'. demo_selection ''smartrouting'' = Some (Inr c, x') \<and>
     be_id (routing_terminator (sel_terminator c)) = ''t2'' \<and> sel_path c = [0, 1, 2] \<and>
     routing_terminator (sel_terminator c) \<in> set (candidates (demo_service ''smartrouting'') '''')"
proof -
  let ?r = "demo_selection ''smartrouting''"
  have ev: "(case ?r of Some (Inr c, x') \<Rightarrow> be_id (routing_terminator (sel_terminator c)) = ''t2'' \<and> sel_path c = [0, 1, 2]
      | _ \<Rightarrow> False)"
    by code_simp
  then obtain c x' where c: "?r = Some (Inr c, x')" by (auto split: option.splits sum.splits prod.splits)
  from selectPath_selects_best [OF demo_triangle_reachable demo_triangle_costs demo_service_prec c [unfolded demo_selection_def]]
  have "routing_terminator (sel_terminator c) \<in> set (candidates (demo_service ''smartrouting'') '''')" by blast
  with ev c show ?thesis by simp
qed

text \<open>
  C28. \<open>selectPath\<close> always returns, and the cause of a failure says why: no terminators for the
  instance, none of them with a connected router, no path to any connected one, or an unknown
  strategy. With a usable ords n m src terminator and a registered strategy it succeeds.
\<close>

theorem selectPath_failure_cause:
  fixes ch :: "'f chance"
  assumes "net_reachable n" "costs_bounded n" "\<forall>t \<in> set (svc_terminators svc). t_precedence t \<noteq> None"
  shows "\<exists>r x'. selectPath ords srt ch n m src client svc inst x = Some (r, x') \<and>
    (r = Inl CircuitFailureNoTerminators \<longleftrightarrow> candidates svc inst = []) \<and>
    (r = Inl CircuitFailureNoOnlineTerminators \<longleftrightarrow>
       candidates svc inst \<noteq> [] \<and> (\<forall>t \<in> set (candidates svc inst). GetConnected n (t_router t) = None)) \<and>
    (r = Inl CircuitFailureNoPath \<longleftrightarrow>
       (\<exists>t \<in> set (candidates svc inst). GetConnected n (t_router t) \<noteq> None) \<and>
       (\<forall>t \<in> set (candidates svc inst). \<not> usable ords n m src t)) \<and>
    (r = Inl CircuitFailureInvalidStrategy \<longleftrightarrow>
       (\<exists>t \<in> set (candidates svc inst). usable ords n m src t) \<and> fst (GetStrategy (svc_strategy svc) x) = None) \<and>
    ((\<exists>c. r = Inr c) \<longleftrightarrow>
       (\<exists>t \<in> set (candidates svc inst). usable ords n m src t) \<and> fst (GetStrategy (svc_strategy svc) x) \<noteq> None)"
proof -
  let ?cs = "candidates svc inst"
  have online: "GetConnected n (t_router t) \<noteq> None" if "usable ords n m src t" for t
    using that unfolding usable_def by (metis not_None_eq route_to_SomeD)
  have some: "(\<exists>t \<in> set ?cs. usable ords n m src t) \<longleftrightarrow> weighed (route_to ords n m src) (xt_costs x) ?cs \<noteq> []"
    by (auto simp: weighed_Nil usable_def)
  show ?thesis
  proof (cases rule: selectPath_cases [OF assms(1-3), where ords = ords and srt = srt and ch = ch and m = m
        and src = src and client = client and inst = inst and x = x])
    case 1
    then have "\<not> (\<exists>t \<in> set ?cs. usable ords n m src t)" by (simp add: usable_def)
    with 1(2) show ?thesis by (cases ?cs) (auto simp del: not_None_eq)
  next
    case (2 x1)
    then obtain t where "t \<in> set ?cs" "usable ords n m src t" using some by blast
    with 2 online [of t] show ?thesis by (cases ?cs) (auto simp del: not_None_eq)
  next
    case (3 strat x1 st rt pd pc)
    then obtain t where "t \<in> set ?cs" "usable ords n m src t" using some by blast
    with 3(2,7) online [of t] show ?thesis by (cases ?cs) (auto simp del: not_None_eq)
  qed
qed

theorem selectPath_failure_cause_witness:
  "\<exists>x'. demo_selection ''nosuch'' = Some (Inl CircuitFailureInvalidStrategy, x')"
proof -
  have u: "\<exists>t \<in> set (candidates (demo_service ''nosuch'') ''''). usable (\<lambda>_. id) demo_triangle 10 (Some 0) t"
    by code_simp
  have s: "fst (GetStrategy (svc_strategy (demo_service ''nosuch'')) (registerXts empty_xt)) = None"
    by code_simp
  from selectPath_failure_cause [OF demo_triangle_reachable demo_triangle_costs demo_service_prec,
      of "\<lambda>_. id" id demo_chance 10 "Some 0" None "''nosuch''" "''''" "registerXts empty_xt"] u s
  show ?thesis unfolding demo_selection_def by blast
qed

end
