(* ===== verification/Route_Sender.thy ===== *)
theory Route_Sender
  imports Terminators
begin

text \<open>
  The controller's route sender (\<open>controller/network/routesender.go\<close>): one attempt to install
  the route messages of a path, waiting for a status from every router until the deadline.

  The statuses a sender receives and the passing of its deadline form a list of arrivals, in the
  order in which the \<open>select\<close> statement takes them; what an attempt does not consume is left for
  the next one. A wait that is not over yet, and a panic, is None. \<open>timed_arrivals\<close> is that list
  as the sender's deadline and timers make it, from the times at which the statuses come in.
\<close>

section \<open>State, messages and effects\<close>

record RouteStatus =
  rs_router :: string
  rs_circuitId :: string
  rs_attempt :: "32 word"
  rs_success :: bool
  rs_peerData :: "PeerData option"
  rs_errorCode :: "8 word option"

datatype arrival = Arrived int RouteStatus | DeadlinePassed int

datatype CircuitEventType = CircuitCreated | CircuitUpdated | CircuitDeleted

datatype net_effect =
    RouteMsg router_ref Route
  | UnrouteMsg router_ref string bool
  | ServiceDialSuccess string string
  | ServiceDialFail string string
  | ServiceDialTimeout string string
  | ServiceDialOtherError string
  | ServiceInvalidTerminator string string
  | ServiceMisconfiguredTerminator string string
  | ServiceTerminatorTimeout string string
  | ServiceTerminatorConnectionRefused string string
  | DeleteTerminator string
  | ChangePrecedence string precedence
  | CircuitEvent CircuitEventType string
  | CircuitFailedEvent string CircuitFailureCause
  | RerouteInBackground nat

definition ErrorTypeGeneric :: "8 word" where "ErrorTypeGeneric = 0"
definition ErrorTypeInvalidTerminator :: "8 word" where "ErrorTypeInvalidTerminator = 1"
definition ErrorTypeDialTimedOut :: "8 word" where "ErrorTypeDialTimedOut = 3"
definition ErrorTypeConnectionRefused :: "8 word" where "ErrorTypeConnectionRefused = 4"

record sender_state =
  attendance :: "(string \<times> bool) list"
  ss_xt :: xt_state
  ss_effects :: "net_effect list"

definition emit :: "net_effect list \<Rightarrow> sender_state \<Rightarrow> sender_state" where
  "emit es s = s\<lparr>ss_effects := ss_effects s @ es\<rparr>"

definition sender_notify :: "string \<Rightarrow> int \<Rightarrow> terminator_event \<Rightarrow> sender_state \<Rightarrow> sender_state option" where
  "sender_notify strat now e s =
     (case NotifyEvent strat now e (ss_xt s) of None \<Rightarrow> None | Some x \<Rightarrow> Some (s\<lparr>ss_xt := x\<rparr>))"

section \<open>The senders of the circuits being created\<close>

type_synonym senders = "string \<rightharpoonup> RouteStatus list"

definition forwardRouteResult :: "RouteStatus \<Rightarrow> senders \<Rightarrow> bool \<times> senders" where
  "forwardRouteResult rs senders =
     (case senders (rs_circuitId rs) of
        Some queue \<Rightarrow> (True, senders(rs_circuitId rs \<mapsto> queue @ [rs]))
      | None \<Rightarrow> (False, senders))"

definition addRouteSender :: "string \<Rightarrow> senders \<Rightarrow> senders" where
  "addRouteSender circuitId senders = senders(circuitId \<mapsto> [])"

definition removeRouteSender :: "string \<Rightarrow> senders \<Rightarrow> senders" where
  "removeRouteSender circuitId senders = senders(circuitId := None)"

definition newRouteSender :: "xt_state \<Rightarrow> sender_state" where
  "newRouteSender x = \<lparr>attendance = [], ss_xt = x, ss_effects = []\<rparr>"

section \<open>One attempt\<close>

definition cleanups :: "net \<Rightarrow> Path \<Rightarrow> sender_state \<Rightarrow> string list" where
  "cleanups n path s =
     filter (\<lambda>i. map_of (attendance s) i = Some True) (map (\<lambda>r. r_id (routers n r)) (Nodes path))"

text \<open>
  \<open>route_failure\<close> is the switch over the error code of a failed status: the failure cause and
  what is reported about the terminator.
\<close>

definition route_failure :: "Terminator \<Rightarrow> 8 word option \<Rightarrow> CircuitFailureCause \<times> net_effect list" where
  "route_failure terminator code =
     (let errorCode = (case code of None \<Rightarrow> 0 | Some c \<Rightarrow> c) in
      if errorCode = ErrorTypeGeneric then
        (CircuitFailureRouterErrGeneric, [ServiceDialOtherError (t_service terminator)])
      else if errorCode = ErrorTypeInvalidTerminator then
        (if t_binding terminator = ''edge'' \<or> t_binding terminator = ''tunnel''
         then (CircuitFailureRouterErrInvalidTerminator,
               [ServiceInvalidTerminator (t_service terminator) (be_id terminator),
                DeleteTerminator (be_id terminator)])
         else (CircuitFailureRouterErrMisconfiguredTerminator,
               [ServiceMisconfiguredTerminator (t_service terminator) (be_id terminator),
                ChangePrecedence (be_id terminator) PrecFailed]))
      else if errorCode = ErrorTypeDialTimedOut then
        (CircuitFailureRouterErrDialTimedOut,
         [ServiceTerminatorTimeout (t_service terminator) (be_id terminator)])
      else if errorCode = ErrorTypeConnectionRefused then
        (CircuitFailureRouterErrDialConnRefused,
         [ServiceTerminatorConnectionRefused (t_service terminator) (be_id terminator)])
      else (CircuitFailureRouterErrGeneric, []))"

type_synonym send_result = "PeerData option \<times> string list option \<times> CircuitFailureCause option"

definition handleRouteSend ::
  "net \<Rightarrow> 32 word \<Rightarrow> Path \<Rightarrow> string \<Rightarrow> int \<Rightarrow> RouteStatus \<Rightarrow> Terminator \<Rightarrow> sender_state \<Rightarrow>
   (send_result \<times> sender_state) option" where
  "handleRouteSend n attempt path strat now status terminator s =
     (if rs_success status then
        if rs_attempt status = attempt then
          let s1 = s\<lparr>attendance := AList.update (rs_router status) True (attendance s)\<rparr> in
          if rs_router status = t_router terminator then
            (case sender_notify strat now (DialSucceeded (be_id terminator)) s1 of
               None \<Rightarrow> None
             | Some s2 \<Rightarrow>
                 Some ((rs_peerData status, None, None),
                       emit [ServiceDialSuccess (t_service terminator) (be_id terminator)] s2))
          else Some ((None, None, None), s1)
        else Some ((None, None, None), s)
      else if rs_attempt status = attempt then
        let (cause, es) = route_failure terminator (rs_errorCode status);
            s1 = emit es s
        in if rs_router status = t_router terminator then
             (case sender_notify strat now (DialFailedEvent (be_id terminator)) s1 of
                None \<Rightarrow> None
              | Some s2 \<Rightarrow>
                  Some ((None, Some (cleanups n path s2), Some cause),
                        emit [ServiceDialFail (t_service terminator) (be_id terminator)] s2))
           else Some ((None, Some (cleanups n path s1), Some cause), s1)
      else Some ((None, None, None), s))"

fun route_wait ::
  "net \<Rightarrow> 32 word \<Rightarrow> Path \<Rightarrow> string \<Rightarrow> Terminator \<Rightarrow> arrival list \<Rightarrow> PeerData option \<Rightarrow> sender_state \<Rightarrow>
   (send_result \<times> arrival list \<times> sender_state) option" where
  "route_wait n attempt path strat terminator [] peerData s = None"
| "route_wait n attempt path strat terminator (DeadlinePassed now # rest) peerData s =
     (case sender_notify strat now (DialFailedEvent (be_id terminator)) s of
        None \<Rightarrow> None
      | Some s1 \<Rightarrow>
          Some ((None, Some (cleanups n path s), Some CircuitFailureRouterResponseTimeout), rest,
                emit [ServiceDialTimeout (t_service terminator) (be_id terminator)] s1))"
| "route_wait n attempt path strat terminator (Arrived now status # rest) peerData s =
     (case handleRouteSend n attempt path strat now status terminator s of
        None \<Rightarrow> None
      | Some ((tmpPeerData, cl, Some err), s1) \<Rightarrow> Some ((None, cl, Some err), rest, s1)
      | Some ((tmpPeerData, cl, None), s1) \<Rightarrow>
          let peerData1 = (if tmpPeerData \<noteq> None \<and> rs_attempt status = attempt \<and>
                              rs_router status = t_router terminator
                           then tmpPeerData else peerData)
          in if \<forall>(_, v) \<in> set (attendance s1). v then Some ((peerData1, None, None), rest, s1)
             else route_wait n attempt path strat terminator rest peerData1 s1)"

definition route_send :: "net \<Rightarrow> Path \<Rightarrow> Route list \<Rightarrow> sender_state \<Rightarrow> sender_state" where
  "route_send n path routeMsgs s =
     fold (\<lambda>(r, msg) s. (emit [RouteMsg r msg] s)\<lparr>attendance := AList.update (r_id (routers n r)) False (attendance s)\<rparr>)
       (zip (Nodes path) routeMsgs) s"

definition sender_route ::
  "net \<Rightarrow> 32 word \<Rightarrow> Path \<Rightarrow> Route list \<Rightarrow> string \<Rightarrow> Terminator \<Rightarrow> arrival list \<Rightarrow> sender_state \<Rightarrow>
   (send_result \<times> arrival list \<times> sender_state) option" where
  "sender_route n attempt path routeMsgs strat terminator arrivals s =
     (if length routeMsgs < length (Nodes path) then None
      else route_wait n attempt path strat terminator arrivals None (route_send n path routeMsgs s))"

text \<open>
  The clock of an attempt, in nanoseconds: what passes between setting the deadline and reading the
  clock for the first timeout, in each round between reading the clock and the \<open>select\<close>, and between
  taking a status and reading the clock again. When a status and the timer are ready at once, the
  \<open>select\<close> takes either. \<open>time.After\<close> of a negative duration fires at once.
\<close>

record wait_clock =
  wc_first :: int
  wc_lag :: "nat \<Rightarrow> int"
  wc_work :: "nat \<Rightarrow> int"
  wc_status :: "nat \<Rightarrow> bool"

fun timed_arrivals :: "wait_clock \<Rightarrow> int \<Rightarrow> nat \<Rightarrow> int \<Rightarrow> (int \<times> RouteStatus) list \<Rightarrow> arrival list" where
  "timed_arrivals ck deadline i now incoming =
     (let timeout = deadline - now; start = now + wc_lag ck i; fires = start + max 0 timeout
      in case incoming of
           [] \<Rightarrow> [DeadlinePassed fires]
         | (comes, status) # later \<Rightarrow>
             let ready = max start comes
             in if ready < fires \<or> ready = fires \<and> wc_status ck i
                then Arrived ready status # timed_arrivals ck deadline (Suc i) (ready + wc_work ck i) later
                else [DeadlinePassed fires])"

declare timed_arrivals.simps [simp del]

definition timed_route ::
  "net \<Rightarrow> 32 word \<Rightarrow> Path \<Rightarrow> Route list \<Rightarrow> string \<Rightarrow> Terminator \<Rightarrow> int \<Rightarrow> int \<Rightarrow> wait_clock \<Rightarrow> (int \<times> RouteStatus) list \<Rightarrow>
   sender_state \<Rightarrow> (send_result \<times> arrival list \<times> sender_state) option" where
  "timed_route n attempt path routeMsgs strat terminator now timeout ck incoming s =
     (let deadline = now + timeout
      in sender_route n attempt path routeMsgs strat terminator
           (timed_arrivals ck deadline 0 (now + wc_first ck) incoming) s)"

section \<open>What an attempt establishes\<close>

fun acks :: "32 word \<Rightarrow> string \<Rightarrow> arrival \<Rightarrow> bool" where
  "acks attempt r (Arrived now st) \<longleftrightarrow> rs_success st \<and> rs_attempt st = attempt \<and> rs_router st = r"
| "acks attempt r (DeadlinePassed now) \<longleftrightarrow> False"

abbreviation acked :: "32 word \<Rightarrow> arrival list \<Rightarrow> string \<Rightarrow> bool" where
  "acked attempt used r \<equiv> \<exists>a \<in> set used. acks attempt r a"

lemma attendance_emit [simp]: "attendance (emit es s) = attendance s"
  by (simp add: emit_def)

lemma attendance_notify: "sender_notify strat now e s = Some s' \<Longrightarrow> attendance s' = attendance s"
  by (auto simp: sender_notify_def split: option.splits)

lemma cleanups_cong: "attendance s' = attendance s \<Longrightarrow> cleanups n path s' = cleanups n path s"
  by (simp add: cleanups_def)

lemma handleRouteSend_cases:
  assumes "handleRouteSend n attempt path strat now status t s = Some ((pd, cl, err), s1)"
  obtains (ack) "acks attempt (rs_router status) (Arrived now status)" "cl = None" "err = None"
      "attendance s1 = AList.update (rs_router status) True (attendance s)"
      "pd = (if rs_router status = t_router t then rs_peerData status else None)"
    | (alien) "\<And>r. \<not> acks attempt r (Arrived now status)" "pd = None" "cl = None" "err = None" "s1 = s"
    | (failed) cause where "\<And>r. \<not> acks attempt r (Arrived now status)" "pd = None" "attendance s1 = attendance s"
      "cl = Some (cleanups n path s1)" "err = Some cause"
  using assms
  by (auto simp: handleRouteSend_def Let_def cleanups_def dest: attendance_notify
      split: if_splits option.splits prod.splits)

lemma handleRouteSend_attendance:
  assumes "handleRouteSend n attempt path strat now status t s = Some ((pd, cl, err), s1)"
  shows "map_of (attendance s1) =
    (\<lambda>r. if acks attempt r (Arrived now status) then Some True else map_of (attendance s) r)"
  using assms by (cases rule: handleRouteSend_cases) (auto simp: fun_eq_iff)

lemma handleRouteSend_keys:
  assumes "handleRouteSend n attempt path strat now status t s = Some ((pd, cl, err), s1)" "keys_distinct (attendance s)"
  shows "keys_distinct (attendance s1)"
  using assms by (cases rule: handleRouteSend_cases) (auto intro: keys_distinct_update)

definition wait_outcome ::
  "net \<Rightarrow> 32 word \<Rightarrow> Path \<Rightarrow> arrival list \<Rightarrow> sender_state \<Rightarrow> send_result \<Rightarrow> sender_state \<Rightarrow> bool" where
  "wait_outcome n attempt path used s res s' \<longleftrightarrow>
     keys_distinct (attendance s') \<and>
     map_of (attendance s') = (\<lambda>r. if acked attempt used r then Some True else map_of (attendance s) r) \<and>
     (case res of (pd, cl, err) \<Rightarrow>
        (err = None \<longrightarrow> cl = None \<and> (\<forall>r. map_of (attendance s') r \<noteq> Some False)) \<and>
        (err \<noteq> None \<longrightarrow> cl = Some (cleanups n path s')))"

lemma route_wait_outcome:
  assumes "route_wait n attempt path strat t arr pd0 s = Some (res, rest, s')" "keys_distinct (attendance s)"
  shows "\<exists>used. arr = used @ rest \<and> wait_outcome n attempt path used s res s'"
  using assms
proof (induction n attempt path strat t arr pd0 s rule: route_wait.induct)
  case (2 n attempt path strat t now arr pd0 s)
  then obtain s1 where s1: "sender_notify strat now (DialFailedEvent (be_id t)) s = Some s1" "rest = arr"
    "res = (None, Some (cleanups n path s), Some CircuitFailureRouterResponseTimeout)"
    "s' = emit [ServiceDialTimeout (t_service t) (be_id t)] s1"
    by (auto split: option.splits)
  have "wait_outcome n attempt path [DeadlinePassed now] s res s'"
    using s1 2(2) by (simp add: wait_outcome_def attendance_notify cleanups_def)
  then show ?case using s1(2) by (intro exI [of _ "[DeadlinePassed now]"]) simp
next
  case (3 n attempt path strat t now status arr pd0 s)
  from 3(2) obtain pd cl err s1 where h: "handleRouteSend n attempt path strat now status t s = Some ((pd, cl, err), s1)"
    by (auto split: option.splits)
  note att = handleRouteSend_attendance [OF h] and kd = handleRouteSend_keys [OF h 3(3)]
  show ?case
  proof (cases err)
    case (Some cause)
    with h 3(2) have eq: "rest = arr" "res = (None, cl, Some cause)" "s' = s1" by simp_all
    have "cl = Some (cleanups n path s1)" using h Some by (cases rule: handleRouteSend_cases) auto
    with att kd eq have "wait_outcome n attempt path [Arrived now status] s res s'" by (simp add: wait_outcome_def)
    then show ?thesis using eq(1) by (intro exI [of _ "[Arrived now status]"]) simp
  next
    case None
    let ?pd1 = "if pd \<noteq> None \<and> rs_attempt status = attempt \<and> rs_router status = t_router t then pd else pd0"
    show ?thesis
    proof (cases "\<forall>(_, v) \<in> set (attendance s1). v")
      case True
      then have "\<forall>r. map_of (attendance s1) r \<noteq> Some False" by (fastforce dest: map_of_SomeD)
      moreover from True None h 3(2) have "rest = arr" "res = (?pd1, None, None)" "s' = s1" by (simp_all add: Let_def)
      ultimately show ?thesis using att kd
        by (intro exI [of _ "[Arrived now status]"]) (simp add: wait_outcome_def)
    next
      case False
      with None h 3(2) have "route_wait n attempt path strat t arr ?pd1 s1 = Some (res, rest, s')"
        by (simp add: Let_def)
      from 3(1) [OF h refl refl refl None refl False this kd] obtain used where
        used: "arr = used @ rest" "wait_outcome n attempt path used s1 res s'" by blast
      have eq: "(\<lambda>r. if acked attempt used r then Some True else map_of (attendance s1) r) =
          (\<lambda>r. if acked attempt (Arrived now status # used) r then Some True else map_of (attendance s) r)"
        unfolding att by auto
      from used(2) [unfolded wait_outcome_def eq] have "wait_outcome n attempt path (Arrived now status # used) s res s'"
        unfolding wait_outcome_def .
      with used(1) show ?thesis by (intro exI [of _ "Arrived now status # used"]) simp
    qed
  qed
qed simp

lemma route_send_attendance:
  assumes "length (Nodes path) \<le> length msgs"
  shows "map_of (attendance (route_send n path msgs s)) =
    (\<lambda>i. if i \<in> (\<lambda>r. r_id (routers n r)) ` set (Nodes path) then Some False else map_of (attendance s) i)"
    (is "?L s = _")
proof -
  have "map_of (attendance (fold (\<lambda>(r, msg) s. (emit [RouteMsg r msg] s)\<lparr>attendance :=
      AList.update (r_id (routers n r)) False (attendance s)\<rparr>) (zip rs ms) s)) =
    (\<lambda>i. if i \<in> (\<lambda>r. r_id (routers n r)) ` set rs then Some False else map_of (attendance s) i)"
    if "length rs \<le> length ms" for rs ms
    using that
  proof (induction rs arbitrary: ms s)
    case (Cons r rs)
    then obtain m ms' where ms: "ms = m # ms'" by (cases ms) auto
    show ?case using Cons.prems by (simp add: ms Cons.IH fun_eq_iff)
  qed simp
  from this [OF assms] show ?thesis by (simp add: route_send_def)
qed

lemma route_send_keys:
  "keys_distinct (attendance s) \<Longrightarrow> keys_distinct (attendance (route_send n path msgs s))"
  unfolding route_send_def by (rule fold_keeps) (auto intro: keys_distinct_update)

abbreviation path_ids :: "net \<Rightarrow> Path \<Rightarrow> string set" where
  "path_ids n path \<equiv> (\<lambda>r. r_id (routers n r)) ` set (Nodes path)"

lemma set_cleanups: "set (cleanups n path s) = {i \<in> path_ids n path. map_of (attendance s) i = Some True}"
  by (auto simp: cleanups_def)

lemma sender_route_outcome:
  assumes "sender_route n attempt path msgs strat t arr s = Some ((pd, cl, err), rest, s')"
    and kd: "keys_distinct (attendance s)"
  obtains used where "arr = used @ rest" "keys_distinct (attendance s')"
    "map_of (attendance s') = (\<lambda>i. if acked attempt used i then Some True
       else if i \<in> path_ids n path then Some False else map_of (attendance s) i)"
    "err = None \<Longrightarrow> cl = None \<and> (\<forall>i. map_of (attendance s') i \<noteq> Some False)"
    "err \<noteq> None \<Longrightarrow> \<exists>cs. cl = Some cs \<and> set cs = {i \<in> path_ids n path. acked attempt used i}"
proof -
  have len: "length (Nodes path) \<le> length msgs"
    and w: "route_wait n attempt path strat t arr None (route_send n path msgs s) = Some ((pd, cl, err), rest, s')"
    using assms(1) by (auto simp: sender_route_def split: if_splits)
  from route_wait_outcome [OF w route_send_keys [OF kd]] obtain used where used: "arr = used @ rest"
    "wait_outcome n attempt path used (route_send n path msgs s) (pd, cl, err) s'" by blast
  note out = used(2) [unfolded wait_outcome_def route_send_attendance [OF len] prod.case]
  have "{i \<in> path_ids n path. map_of (attendance s') i = Some True} = {i \<in> path_ids n path. acked attempt used i}"
    using out by auto
  with out have err: "\<exists>cs. cl = Some cs \<and> set cs = {i \<in> path_ids n path. acked attempt used i}" if "err \<noteq> None"
    using that by (auto simp: set_cleanups)
  from out have "err = None \<Longrightarrow> cl = None \<and> (\<forall>i. map_of (attendance s') i \<noteq> Some False)" by blast
  with out used(1) err show thesis by (intro that [of used]) blast+
qed

section \<open>An attempt ends\<close>

text \<open>Strategies never divide by a zero circuit cost: every registered visitor has a positive one.\<close>

fun strategy_ok :: "strategy \<Rightarrow> bool" where
  "strategy_ok RandomStrategy = True"
| "strategy_ok (SmartRoutingStrategy v) = (cv_CircuitCost v \<noteq> 0)"
| "strategy_ok (StickyStrategy v) = (cv_CircuitCost v \<noteq> 0)"
| "strategy_ok (WeightedStrategy v) = (cv_CircuitCost v \<noteq> 0)"

definition xt_ok :: "xt_state \<Rightarrow> bool" where
  "xt_ok x \<longleftrightarrow> (\<forall>name st. xt_strategies x name = Some st \<longrightarrow> strategy_ok st)"

lemma upsert_circuitCost: "cv_CircuitCost (snd (cost_upsert f i sv)) = cv_CircuitCost (snd sv)"
  by (cases sv) (simp add: cost_upsert_def Let_def split: option.split)

lemma visitor_NotifyEvent_ok:
  assumes "cv_CircuitCost v \<noteq> 0"
  shows "\<exists>s' v'. visitor_NotifyEvent now e (s, v) = Some (s', v') \<and> cv_CircuitCost v' \<noteq> 0"
proof (cases e)
  case (DialFailedEvent i)
  have "cv_CircuitCost (snd (VisitDialFailed i now (s, v))) \<noteq> 0"
    using assms by (simp add: VisitDialFailed_def upsert_circuitCost)
  with DialFailedEvent show ?thesis by (metis prod.collapse visitor_NotifyEvent.simps(1))
next
  case (DialSucceeded i)
  have "cv_CircuitCost (snd (cost_upsert (\<lambda>_. succeeded_cost (snd (s, v))) i (s, v))) \<noteq> 0"
    using assms by (simp add: upsert_circuitCost)
  with DialSucceeded assms show ?thesis by (auto simp: VisitDialSucceeded_def) (metis prod.collapse)
next
  case (CircuitRemoved i)
  have "cv_CircuitCost (snd (VisitCircuitRemoved i (s, v))) \<noteq> 0"
    using assms by (simp add: VisitCircuitRemoved_def upsert_circuitCost)
  with CircuitRemoved show ?thesis by (metis prod.collapse visitor_NotifyEvent.simps(3))
qed

lemma notify_visitor_ok:
  assumes "xt_ok x" "cv_CircuitCost v \<noteq> 0" "\<And>v. strategy_ok (mk v) = (cv_CircuitCost v \<noteq> 0)"
  shows "\<exists>x'. notify_visitor strat mk v now e x = Some x' \<and> xt_ok x' \<and> xt_strategies x' strat \<noteq> None"
proof -
  from visitor_NotifyEvent_ok [OF assms(2)] obtain s' v' where
    "visitor_NotifyEvent now e (xt_costs x, v) = Some (s', v')" "cv_CircuitCost v' \<noteq> 0" by blast
  with assms(1,3) show ?thesis by (auto simp: notify_visitor_def xt_ok_def)
qed

lemma NotifyEvent_ok:
  assumes "xt_ok x" "xt_strategies x strat \<noteq> None"
  shows "\<exists>x'. NotifyEvent strat now e x = Some x' \<and> xt_ok x' \<and> xt_strategies x' strat \<noteq> None"
proof -
  from assms(2) obtain st where st: "xt_strategies x strat = Some st" by blast
  with assms(1) have "strategy_ok st" by (simp add: xt_ok_def)
  with st assms(1) show ?thesis
    by (cases st) (simp_all add: NotifyEvent_def notify_visitor_ok del: not_None_eq)
qed

lemma strategy_ok_new: "strategy_ok (NewStrategy k)"
  by (cases k) (simp_all add: NewCostVisitor_def)

lemma GetStrategy_ok: "xt_ok x \<Longrightarrow> GetStrategy name x = (so, x1) \<Longrightarrow> xt_ok x1"
  by (auto simp: GetStrategy_def xt_ok_def strategy_ok_new split: option.splits if_splits)

definition sender_ok :: "string \<Rightarrow> sender_state \<Rightarrow> bool" where
  "sender_ok strat s \<longleftrightarrow> xt_ok (ss_xt s) \<and> xt_strategies (ss_xt s) strat \<noteq> None"

lemma sender_ok_frame [simp]:
  "sender_ok strat (emit es s) = sender_ok strat s" "sender_ok strat (s\<lparr>attendance := a\<rparr>) = sender_ok strat s"
  by (simp_all add: sender_ok_def emit_def)

lemma sender_notify_ok: "sender_ok strat s \<Longrightarrow> \<exists>s'. sender_notify strat now e s = Some s' \<and> sender_ok strat s'"
  using NotifyEvent_ok [of "ss_xt s" strat now e] by (auto simp: sender_ok_def sender_notify_def)

lemma handleRouteSend_ok:
  assumes "sender_ok strat s"
  shows "\<exists>res s'. handleRouteSend n attempt path strat now status t s = Some (res, s') \<and> sender_ok strat s'"
proof -
  let ?s1 = "s\<lparr>attendance := AList.update (rs_router status) True (attendance s)\<rparr>"
  let ?s2 = "emit (snd (route_failure t (rs_errorCode status))) s"
  from sender_notify_ok [of strat ?s1] assms obtain a where
    a: "sender_notify strat now (DialSucceeded (be_id t)) ?s1 = Some a" "sender_ok strat a" by auto
  from sender_notify_ok [of strat ?s2] assms obtain b where
    b: "sender_notify strat now (DialFailedEvent (be_id t)) ?s2 = Some b" "sender_ok strat b" by auto
  obtain cause es where f: "route_failure t (rs_errorCode status) = (cause, es)" by fastforce
  show ?thesis
    by (cases "rs_success status"; cases "rs_attempt status = attempt"; cases "rs_router status = t_router t")
      (use a b f assms in \<open>simp_all add: handleRouteSend_def Let_def\<close>)
qed

lemma route_wait_ends:
  assumes "sender_ok strat s" "DeadlinePassed now \<in> set arr"
  shows "\<exists>res rest s'. route_wait n attempt path strat t arr pd s = Some (res, rest, s') \<and> sender_ok strat s'"
  using assms
proof (induction n attempt path strat t arr pd s rule: route_wait.induct)
  case (2 n attempt path strat t now' arr pd s)
  from sender_notify_ok [OF 2(1), of now' "DialFailedEvent (be_id t)"] show ?case by auto
next
  case (3 n attempt path strat t now' status arr pd s)
  from handleRouteSend_ok [OF 3(2)] obtain tpd cl err s1 where
    h: "handleRouteSend n attempt path strat now' status t s = Some ((tpd, cl, err), s1)" "sender_ok strat s1" by force
  have dl: "DeadlinePassed now \<in> set arr" using 3(3) by simp
  show ?case
  proof (cases err)
    case (Some cause)
    with h show ?thesis by simp
  next
    case None
    show ?thesis
    proof (cases "\<forall>(_, v) \<in> set (attendance s1). v")
      case True
      with None h show ?thesis by (simp add: Let_def)
    next
      case False
      from 3(1) [OF h(1) refl refl refl None refl False h(2) dl] None False h show ?thesis by (simp add: Let_def)
    qed
  qed
qed simp

lemma sender_ok_route_send: "sender_ok strat (route_send n path msgs s) = sender_ok strat s"
  unfolding route_send_def by (rule fold_frame) auto

lemma sender_route_ends:
  assumes "sender_ok strat s" "DeadlinePassed now \<in> set arr" "length (Nodes path) \<le> length msgs"
  shows "\<exists>res rest s'. sender_route n attempt path msgs strat t arr s = Some (res, rest, s') \<and> sender_ok strat s'"
  using route_wait_ends [of strat "route_send n path msgs s" now arr n attempt path t None] assms
  by (simp add: sender_route_def sender_ok_route_send)

lemma route_failure_no_timeout: "route_failure t code = (cause, es) \<Longrightarrow> cause \<noteq> CircuitFailureRouterResponseTimeout"
  by (auto simp: route_failure_def Let_def split: if_splits)

lemma handleRouteSend_no_timeout:
  "handleRouteSend n attempt path strat now status t s = Some ((pd, cl, err), s') \<Longrightarrow> err \<noteq> Some CircuitFailureRouterResponseTimeout"
  by (auto simp: handleRouteSend_def Let_def dest: route_failure_no_timeout split: if_splits option.splits prod.splits)

lemma route_wait_used:
  assumes "route_wait n attempt path strat t arr pd0 s = Some ((pd, cl, err), rest, s')"
  shows "\<exists>used. arr = used @ rest \<and> used \<noteq> [] \<and>
    (err = Some CircuitFailureRouterResponseTimeout \<longrightarrow> (\<exists>at. last used = DeadlinePassed at))"
  using assms
proof (induction n attempt path strat t arr pd0 s rule: route_wait.induct)
  case (2 n attempt path strat t now arr pd0 s)
  then show ?case by (intro exI [of _ "[DeadlinePassed now]"]) (auto split: option.splits)
next
  case (3 n attempt path strat t now status arr pd0 s)
  from 3(2) obtain tpd cl1 err1 s1 where
    h: "handleRouteSend n attempt path strat now status t s = Some ((tpd, cl1, err1), s1)" by (auto split: option.splits)
  show ?case
  proof (cases "err1 \<noteq> None \<or> (\<forall>(_, v) \<in> set (attendance s1). v)")
    case True
    with 3(2) h handleRouteSend_no_timeout [OF h] show ?thesis
      by (intro exI [of _ "[Arrived now status]"], cases err1) (auto simp: Let_def)
  next
    case False
    then have "err1 = None" "\<not> (\<forall>(_, v) \<in> set (attendance s1). v)" by auto
    with 3(1) [OF h refl refl refl _ refl] 3(2) h obtain used where "arr = used @ rest" "used \<noteq> []"
      "err = Some CircuitFailureRouterResponseTimeout \<longrightarrow> (\<exists>at. last used = DeadlinePassed at)" by (auto simp: Let_def)
    then show ?thesis by (intro exI [of _ "Arrived now status # used"]) simp
  qed
qed simp

section \<open>The deadline\<close>

text \<open>The time an attempt has spent otherwise than waiting, up to a round.\<close>

definition spent :: "wait_clock \<Rightarrow> nat \<Rightarrow> int" where
  "spent ck k = wc_first ck + (\<Sum>i<k. wc_lag ck i + wc_work ck i)"

definition clock_ok :: "wait_clock \<Rightarrow> bool" where
  "clock_ok ck \<longleftrightarrow> 0 \<le> wc_first ck \<and> (\<forall>i. 0 \<le> wc_lag ck i \<and> 0 \<le> wc_work ck i)"

fun arrival_time :: "arrival \<Rightarrow> int" where
  "arrival_time (Arrived now status) = now"
| "arrival_time (DeadlinePassed now) = now"

text \<open>What the select takes in round \<open>j\<close>, \<open>k\<close> rounds after the start of the attempt.\<close>

definition timely :: "wait_clock \<Rightarrow> int \<Rightarrow> (int \<times> RouteStatus) list \<Rightarrow> nat \<Rightarrow> nat \<Rightarrow> arrival \<Rightarrow> bool" where
  "timely ck deadline incoming j k a \<longleftrightarrow> arrival_time a \<le> deadline + spent ck (Suc k) \<and>
     (case a of
        Arrived now status \<Rightarrow> j < length incoming \<and> snd (incoming ! j) = status \<and> fst (incoming ! j) \<le> now
      | DeadlinePassed now \<Rightarrow> deadline \<le> now \<and> (\<forall>m \<in> set (drop j incoming). deadline \<le> fst m + spent ck (Suc k)))"

lemma spent_Suc: "spent ck (Suc k) = spent ck k + wc_lag ck k + wc_work ck k"
  by (simp add: spent_def)

lemma spent_nonneg: "clock_ok ck \<Longrightarrow> 0 \<le> spent ck k"
  unfolding spent_def clock_ok_def by (intro add_nonneg_nonneg sum_nonneg) auto

lemma timed_arrivals_timely:
  assumes "clock_ok ck" "sorted (map fst incoming)" "now \<le> deadline + spent ck i" "\<forall>m \<in> set incoming. now \<le> fst m + spent ck i"
    and "j < length (timed_arrivals ck deadline i now incoming)"
  shows "timely ck deadline incoming j (i + j) (timed_arrivals ck deadline i now incoming ! j)"
  using assms(2-)
proof (induction incoming arbitrary: i now j)
  case Nil
  have "0 \<le> wc_lag ck i" "0 \<le> wc_work ck i" using assms(1) by (simp_all add: clock_ok_def)
  with Nil spent_nonneg [OF assms(1), of i] show ?case by (simp add: timed_arrivals.simps [of _ _ _ _ "[]"] Let_def timely_def spent_Suc max_def)
next
  case (Cons m later)
  obtain comes status where m: "m = (comes, status)" by fastforce
  let ?start = "now + wc_lag ck i"
  let ?fires = "?start + max 0 (deadline - now)" and ?ready = "max ?start comes"
  have ck: "0 \<le> wc_lag ck i" "0 \<le> wc_work ck i" using assms(1) by (simp_all add: clock_ok_def)
  have le: "now \<le> comes + spent ck i" "\<forall>m' \<in> set later. comes \<le> fst m'" using Cons.prems(1,3) m by auto
  show ?case
  proof (cases "?ready < ?fires \<or> ?ready = ?fires \<and> wc_status ck i")
    case True
    then have ta: "timed_arrivals ck deadline i now (m # later) =
        Arrived ?ready status # timed_arrivals ck deadline (Suc i) (?ready + wc_work ck i) later"
      by (subst timed_arrivals.simps) (simp add: m Let_def)
    have f: "?ready \<le> ?fires" using True by auto
    have b: "?ready + wc_work ck i \<le> deadline + spent ck (Suc i)" "?ready + wc_work ck i \<le> comes + spent ck (Suc i)"
      using f Cons.prems(2) le(1) ck spent_nonneg [OF assms(1), of i] by (simp_all add: spent_Suc max_def split: if_splits)
    have b0: "?ready \<le> deadline + spent ck (Suc i)" using b(1) ck(2) by linarith
    show ?thesis
    proof (cases j)
      case 0
      then show ?thesis unfolding ta using b0 m by (simp add: timely_def)
    next
      case (Suc j')
      have "timely ck deadline later j' (Suc i + j') (timed_arrivals ck deadline (Suc i) (?ready + wc_work ck i) later ! j')"
        using Cons.prems(1,4) b le(2) Suc ta by (intro Cons.IH) (auto intro: order_trans)
      then show ?thesis unfolding ta using Suc by (auto simp: timely_def split: arrival.splits)
    qed
  next
    case False
    then have ta: "timed_arrivals ck deadline i now (m # later) = [DeadlinePassed ?fires]"
      by (subst timed_arrivals.simps) (simp add: m Let_def)
    have "deadline \<le> comes + spent ck (Suc i)"
      using False le(1) ck spent_nonneg [OF assms(1), of i] by (auto simp: spent_Suc max_def split: if_splits)
    moreover have "?fires \<le> deadline + spent ck (Suc i)" "deadline \<le> ?fires"
      using Cons.prems(2) ck spent_nonneg [OF assms(1), of i] by (simp_all add: spent_Suc max_def)
    ultimately show ?thesis using ta Cons.prems(4) m le(2) by (auto simp: timely_def intro: order_trans)
  qed
qed

lemma timed_arrivals_end: "\<exists>now. DeadlinePassed now \<in> set (timed_arrivals ck deadline i now0 incoming)"
proof (induction incoming arbitrary: i now0)
  case Nil
  show ?case by (subst timed_arrivals.simps) (simp add: Let_def)
next
  case (Cons m later)
  obtain comes status where m: "m = (comes, status)" by fastforce
  have if_keeps: "\<exists>now. DeadlinePassed now \<in> set xs \<Longrightarrow> \<exists>now. DeadlinePassed now \<in> set ys \<Longrightarrow>
      \<exists>now. DeadlinePassed now \<in> set (if c then xs else ys)" for c xs ys by simp
  show ?case
    unfolding m timed_arrivals.simps [of ck deadline i now0 "(comes, status) # later"] Let_def list.case prod.case
    by (rule if_keeps) (use Cons in auto)
qed

lemma route_attempt_acked:
  assumes "sender_route n attempt path msgs strat t arr s = Some ((pd, cl, None), rest, s')"
    and "keys_distinct (attendance s)"
  shows "\<exists>used. arr = used @ rest \<and> (\<forall>i \<in> path_ids n path. acked attempt used i) \<and>
    (\<forall>i. map_of (attendance s) i = Some False \<longrightarrow> acked attempt used i)"
proof (cases rule: sender_route_outcome [OF assms])
  case (1 used)
  have "acked attempt used i" if "i \<in> path_ids n path \<or> map_of (attendance s) i = Some False" for i
  proof (rule ccontr)
    assume "\<not> acked attempt used i"
    with that have "map_of (attendance s') i = Some False" unfolding 1(3) by (simp only: if_False) (simp split: if_split, blast)
    with 1(4) [OF refl] show False by simp
  qed
  with 1(1) show ?thesis by blast
qed

section \<open>Properties\<close>

text \<open>
  C10. An attempt to route a path succeeds only after every router of the path has reported
  success for this very attempt. A failed attempt hands exactly those routers of the path that
  did to the caller for cleanup, and statuses of other attempts change nothing.
  The attendance sheet is not cleared between attempts: a router of an earlier attempt that
  never answered it and is not on the new path has to report success for the new attempt too.
\<close>

theorem route_attempt_outcome:
  assumes "sender_route n attempt path msgs strat t arr s = Some ((pd, cl, err), rest, s')"
    and "keys_distinct (attendance s)"
  shows "\<exists>used. arr = used @ rest \<and>
    (err = None \<longrightarrow> (\<forall>i \<in> path_ids n path. acked attempt used i) \<and>
       (\<forall>i. map_of (attendance s) i = Some False \<longrightarrow> acked attempt used i)) \<and>
    (err \<noteq> None \<longrightarrow> (\<exists>cs. cl = Some cs \<and> set cs = {i \<in> path_ids n path. acked attempt used i}))"
proof (cases err)
  case None
  with route_attempt_acked [OF assms(1) [unfolded None] assms(2)] show ?thesis by auto
next
  case (Some cause)
  show ?thesis
    by (cases rule: sender_route_outcome [OF assms]) (use Some in \<open>blast intro: exI\<close>)
qed

definition demo_path :: Path where
  "demo_path = \<lparr>Nodes = [0, 1, 2], Links = [0, 1], IngressId = ''in'', EgressId = ''out'',
     InitiatorLocalAddr = '''', InitiatorRemoteAddr = '''', TerminatorLocalAddr = '''', TerminatorRemoteAddr = ''''\<rparr>"

definition demo_status :: "string \<Rightarrow> bool \<Rightarrow> arrival" where
  "demo_status r ok = Arrived 0 \<lparr>rs_router = r, rs_circuitId = ''c1'', rs_attempt = 0, rs_success = ok,
     rs_peerData = Some [], rs_errorCode = (if ok then None else Some 3)\<rparr>"

definition demo_sender :: sender_state where
  "demo_sender = newRouteSender (snd (GetStrategy ''smartrouting'' (registerXts empty_xt)))"

definition demo_msgs :: "Route list" where
  "demo_msgs = CreateRouteMessages demo_triangle demo_path 0 ''c1'' ''edge'' ''addr'' 1000"

definition demo_terminator :: Terminator where
  "demo_terminator = new_Terminator\<lparr>be_id := ''t2'', t_router := ''c'', t_precedence := Some PrecRequired\<rparr>"

definition demo_attempt :: "arrival list \<Rightarrow> (send_result \<times> arrival list \<times> sender_state) option" where
  "demo_attempt arr = sender_route demo_triangle 0 demo_path demo_msgs ''smartrouting'' demo_terminator arr demo_sender"

theorem route_attempt_outcome_witness:
  "\<exists>used. [demo_status ''b'' True, demo_status ''c'' False, demo_status ''a'' True] = used @ [demo_status ''a'' True] \<and>
     {i \<in> path_ids demo_triangle demo_path. acked 0 used i} = {''b''}"
proof -
  let ?arr = "[demo_status ''b'' True, demo_status ''c'' False, demo_status ''a'' True]"
  have ev: "(case demo_attempt ?arr of Some ((pd, cl, err), rest, s') \<Rightarrow>
      cl = Some [''b''] \<and> err = Some CircuitFailureRouterErrDialTimedOut \<and> rest = [demo_status ''a'' True] | None \<Rightarrow> False)"
    by code_simp
  then obtain pd s' where run: "demo_attempt ?arr =
      Some ((pd, Some [''b''], Some CircuitFailureRouterErrDialTimedOut), [demo_status ''a'' True], s')"
    by (auto split: option.splits)
  have "keys_distinct (attendance demo_sender)" by (simp add: demo_sender_def newRouteSender_def)
  from route_attempt_outcome [OF run [unfolded demo_attempt_def] this] show ?thesis by auto
qed

text \<open>
  C29. \<open>route\<close> returns at the deadline set when the attempt starts, the statuses that come in
  meanwhile do not put it off: no later than the deadline plus what the sender itself spent in its
  rounds, and with a response timeout only once the deadline has passed. Until then it has handled
  the statuses in the order in which they came in, and no status stays unhandled that came in early enough for
  the sender to get to it before the deadline.
\<close>

theorem route_attempt_ends:
  assumes "xt_ok (ss_xt s)" "xt_strategies (ss_xt s) strat \<noteq> None" "length (Nodes path) \<le> length msgs"
    and "clock_ok ck" "0 \<le> timeout" "sorted (map fst incoming)" "\<forall>m \<in> set incoming. now \<le> fst m"
  shows "\<exists>pd cl err rest s' used.
    timed_route n attempt path msgs strat t now timeout ck incoming s = Some ((pd, cl, err), rest, s') \<and>
    timed_arrivals ck (now + timeout) 0 (now + wc_first ck) incoming = used @ rest \<and> used \<noteq> [] \<and>
    arrival_time (last used) \<le> now + timeout + spent ck (length used) \<and>
    (err = Some CircuitFailureRouterResponseTimeout \<longrightarrow>
       now + timeout \<le> arrival_time (last used) \<and>
       (\<forall>m \<in> set (drop (length used - 1) incoming). now + timeout \<le> fst m + spent ck (length used))) \<and>
    (\<forall>i < length used. \<forall>at status. used ! i = Arrived at status \<longrightarrow>
       i < length incoming \<and> snd (incoming ! i) = status \<and> fst (incoming ! i) \<le> at)"
proof -
  let ?arr = "timed_arrivals ck (now + timeout) 0 (now + wc_first ck) incoming"
  obtain dl where dl: "DeadlinePassed dl \<in> set ?arr" using timed_arrivals_end by blast
  from sender_route_ends [of strat s dl ?arr path msgs n attempt t] assms(1-3) dl obtain pd cl err rest s' where
    run: "sender_route n attempt path msgs strat t ?arr s = Some ((pd, cl, err), rest, s')" by (auto simp: sender_ok_def)
  then obtain used where used: "?arr = used @ rest" "used \<noteq> []"
    "err = Some CircuitFailureRouterResponseTimeout \<longrightarrow> (\<exists>at. last used = DeadlinePassed at)"
    using route_wait_used by (fastforce simp: sender_route_def split: if_splits)
  have tm: "timely ck (now + timeout) incoming i i (used ! i)" if "i < length used" for i
    using timed_arrivals_timely [of ck incoming "now + wc_first ck" "now + timeout" 0 i] assms(4-7) that used(1)
    by (simp add: spent_def nth_append)
  from tm [of "length used - 1"] used(2) have l: "timely ck (now + timeout) incoming (length used - 1) (length used - 1) (last used)"
    by (simp add: last_conv_nth)
  then have "arrival_time (last used) \<le> now + timeout + spent ck (length used)" using used(2) by (simp add: timely_def)
  moreover have "now + timeout \<le> arrival_time (last used) \<and>
       (\<forall>m \<in> set (drop (length used - 1) incoming). now + timeout \<le> fst m + spent ck (length used))"
    if "err = Some CircuitFailureRouterResponseTimeout"
  proof -
    from that used(3) obtain at where "last used = DeadlinePassed at" by blast
    with l used(2) show ?thesis by (simp add: timely_def)
  qed
  moreover have "i < length incoming \<and> snd (incoming ! i) = status \<and> fst (incoming ! i) \<le> at"
    if "i < length used" "used ! i = Arrived at status" for i at status using tm [OF that(1)] that(2) by (simp add: timely_def)
  ultimately show ?thesis using run used(1,2) by (auto simp: timed_route_def)
qed

definition demo_clock :: wait_clock where
  "demo_clock = \<lparr>wc_first = 1, wc_lag = (\<lambda>_. 1), wc_work = (\<lambda>_. 2), wc_status = (\<lambda>_. True)\<rparr>"

definition demo_incoming :: "(int \<times> RouteStatus) list" where
  "demo_incoming = [(50, \<lparr>rs_router = ''b'', rs_circuitId = ''c1'', rs_attempt = 0, rs_success = True, rs_peerData = None, rs_errorCode = None\<rparr>)]"

theorem route_attempt_ends_witness:
  "\<exists>pd cl err rest s' used.
     timed_route demo_triangle 0 demo_path demo_msgs ''smartrouting'' demo_terminator 10 100 demo_clock demo_incoming demo_sender =
       Some ((pd, cl, err), rest, s') \<and>
     timed_arrivals demo_clock 110 0 11 demo_incoming = used @ rest \<and>
     arrival_time (last used) \<le> 110 + spent demo_clock (length used)"
proof -
  have "xt_strategies (ss_xt demo_sender) = [''smartrouting'' \<mapsto> SmartRoutingStrategy (NewCostVisitor 2 20 2)]"
    by (simp add: demo_sender_def newRouteSender_def GetStrategy_def registerXts_def RegisterFactory_def empty_xt_def)
  then have "xt_ok (ss_xt demo_sender)" "xt_strategies (ss_xt demo_sender) ''smartrouting'' \<noteq> None"
    by (simp_all add: xt_ok_def NewCostVisitor_def)
  moreover have "length (Nodes demo_path) \<le> length demo_msgs" by code_simp
  moreover have "clock_ok demo_clock" "sorted (map fst demo_incoming)" "\<forall>m \<in> set demo_incoming. 10 \<le> fst m"
    by (simp_all add: clock_ok_def demo_clock_def demo_incoming_def)
  ultimately have "\<exists>pd cl err rest s' used.
     timed_route demo_triangle 0 demo_path demo_msgs ''smartrouting'' demo_terminator 10 100 demo_clock demo_incoming demo_sender =
       Some ((pd, cl, err), rest, s') \<and>
     timed_arrivals demo_clock (10 + 100) 0 (10 + wc_first demo_clock) demo_incoming = used @ rest \<and>
     arrival_time (last used) \<le> 10 + 100 + spent demo_clock (length used)"
    using route_attempt_ends [of demo_sender "''smartrouting''" demo_path demo_msgs demo_clock 100 demo_incoming 10
      demo_triangle 0 demo_terminator] by auto
  then show ?thesis by (simp add: demo_clock_def)
qed

end
