(* ===== verification/Circuits.thy ===== *)
theory Circuits
  imports Route_Sender
begin

text \<open>
  Circuits of the controller: the circuit manager (\<open>controller/model/circuit_manager.go\<close>), circuit
  creation with retries, removal, rerouting after link and forwarding faults
  (\<open>controller/network/network.go\<close>, \<open>fault.go\<close>) and smart rerouting (\<open>smart.go\<close>).

  The circuit manager's map holds references to circuit objects. What the environment decides
  during a creation attempt (the network at that time, the service read, generated ids, random
  choices, map orders) is a record given per attempt. A circuit of the map has its path and
  terminator set, so these fields are not optional; the partly filled circuit that
  \<open>CreateCircuit\<close> returns beside an error is not modelled. None is a panic, or a wait or search
  that has not ended.
\<close>

section \<open>Circuits\<close>

type_synonym circuit_ref = nat

record Circuit =
  c_id :: string
  c_clientId :: string
  c_serviceId :: string
  c_terminator :: RoutingTerminator
  c_path :: Path
  c_tags :: "(string \<times> string) list"
  c_rerouting :: bool
  c_peerData :: "PeerData option"
  c_createdAt :: int
  c_updatedAt :: int

record cstate =
  circuits :: "(string \<times> circuit_ref) list"
  circuit_objs :: "circuit_ref \<Rightarrow> Circuit"
  next_circuit :: circuit_ref
  cs_xt :: xt_state
  cs_effects :: "net_effect list"

definition HasRouter :: "net \<Rightarrow> Circuit \<Rightarrow> string \<Rightarrow> bool" where
  "HasRouter n c routerId = (\<exists>node \<in> set (Nodes (c_path c)). r_id (routers n node) = routerId)"

definition IsEndpointRouter :: "net \<Rightarrow> Circuit \<Rightarrow> string \<Rightarrow> bool" where
  "IsEndpointRouter n c routerId =
     (if length (Nodes (c_path c)) = 0 then False
      else r_id (routers n (hd (Nodes (c_path c)))) = routerId \<or>
           r_id (routers n (last (Nodes (c_path c)))) = routerId)"

definition circuit_Add :: "Circuit \<Rightarrow> cstate \<Rightarrow> circuit_ref \<times> cstate" where
  "circuit_Add c s =
     (let r = next_circuit s
      in (r, s\<lparr>circuits := AList.update (c_id c) r (circuits s),
               circuit_objs := (circuit_objs s)(r := c), next_circuit := r + 1\<rparr>))"

definition circuit_Get :: "cstate \<Rightarrow> string \<Rightarrow> circuit_ref option" where
  "circuit_Get s i = map_of (circuits s) i"

definition circuit_All :: "(circuit_ref list \<Rightarrow> circuit_ref list) \<Rightarrow> cstate \<Rightarrow> circuit_ref list" where
  "circuit_All ord s = go_range ord (map snd (circuits s))"

definition circuit_Remove :: "circuit_ref \<Rightarrow> cstate \<Rightarrow> cstate" where
  "circuit_Remove c s = s\<lparr>circuits := AList.delete (c_id (circuit_objs s c)) (circuits s)\<rparr>"

definition cs_emit :: "net_effect list \<Rightarrow> cstate \<Rightarrow> cstate" where
  "cs_emit es s = s\<lparr>cs_effects := cs_effects s @ es\<rparr>"

definition set_circuit :: "circuit_ref \<Rightarrow> (Circuit \<Rightarrow> Circuit) \<Rightarrow> cstate \<Rightarrow> cstate" where
  "set_circuit c f s = s\<lparr>circuit_objs := (circuit_objs s)(c := f (circuit_objs s c))\<rparr>"

section \<open>Creating a circuit\<close>

record circuit_params =
  cp_source :: "router_ref option"
  cp_client :: TokenId
  cp_service :: string
  cp_tags :: "RoutingTerminator \<Rightarrow> (string \<times> string) list"

record 'f create_env =
  ce_net :: net
  ce_minRouterCost :: "16 word"
  ce_service :: "string \<Rightarrow> Service option"
  ce_ords :: "string \<Rightarrow> router_ref list \<Rightarrow> router_ref list"
  ce_sort :: "RoutingTerminator list \<Rightarrow> RoutingTerminator list"
  ce_chance :: "'f chance"
  ce_ingress :: "string option"
  ce_egress :: "string option"
  ce_remaining :: int
  ce_cleanupOrd :: "string list \<Rightarrow> string list"
  ce_now :: int

datatype create_error =
    CircuitIdFailed
  | ServiceReadFailed
  | SelectFailed CircuitFailureCause
  | PathFailed CircuitFailureCause path_error
  | RetriesExceeded CircuitFailureCause

datatype attempt_outcome =
    Aborted create_error
  | RouteFailed CircuitFailureCause "string list"
  | Routed Path RoutingTerminator "PeerData option" "PeerData option"

definition abort_create ::
  "string \<Rightarrow> string \<Rightarrow> CircuitFailureCause \<Rightarrow> create_error \<Rightarrow> arrival list \<Rightarrow> sender_state \<Rightarrow>
   (attempt_outcome \<times> arrival list \<times> sender_state) option" where
  "abort_create circuitId serviceId cause err arrivals s =
     Some (Aborted err, arrivals, emit [CircuitFailedEvent circuitId cause, ServiceDialOtherError serviceId] s)"

text \<open>Steps 2 to 5 of the loop body: service, terminator, path, route messages, routing.\<close>

definition create_attempt ::
  "circuit_params \<Rightarrow> 'f create_env \<Rightarrow> string \<Rightarrow> string \<Rightarrow> string \<Rightarrow> 32 word \<Rightarrow> arrival list \<Rightarrow> sender_state \<Rightarrow>
   (attempt_outcome \<times> arrival list \<times> sender_state) option" where
  "create_attempt params env circuitId serviceId instanceId attempt arrivals s =
     (let n = ce_net env in
      case ce_service env serviceId of
        None \<Rightarrow> abort_create circuitId serviceId CircuitFailureInvalidService ServiceReadFailed arrivals s
      | Some svc \<Rightarrow>
          (case selectPath (ce_ords env) (ce_sort env) (ce_chance env) n (ce_minRouterCost env)
                  (cp_source params) (Some (cp_client params)) svc instanceId (ss_xt s) of
             None \<Rightarrow> None
           | Some (Inl cause, x) \<Rightarrow>
               abort_create circuitId serviceId cause (SelectFailed cause) arrivals (s\<lparr>ss_xt := x\<rparr>)
           | Some (Inr sel, x) \<Rightarrow>
               (let s1 = s\<lparr>ss_xt := x\<rparr>; terminator = routing_terminator (sel_terminator sel) in
                case CreatePathWithNodes n (ce_ingress env) (ce_egress env) (sel_path sel) of
                  Inl (cause, err) \<Rightarrow> abort_create circuitId serviceId cause (PathFailed cause err) arrivals s1
                | Inr path \<Rightarrow>
                    (let rms = CreateRouteMessages n path attempt circuitId
                                 (t_binding terminator) (t_address terminator) (ce_remaining env) in
                     if rms = [] \<or> rt_egress (last rms) = None then None
                     else
                       (case sender_route n attempt path rms (sel_strategy sel) terminator arrivals s1 of
                          None \<Rightarrow> None
                        | Some ((peerData, cl, Some cause), rest, s2) \<Rightarrow>
                            Some (RouteFailed cause (case cl of None \<Rightarrow> [] | Some ids \<Rightarrow> ids), rest,
                                  emit [CircuitFailedEvent circuitId cause] s2)
                        | Some ((peerData, cl, None), rest, s2) \<Rightarrow>
                            Some (Routed path (sel_terminator sel) peerData (sel_peerData sel), rest, s2))))))"

definition unroute_all :: "net \<Rightarrow> (string list \<Rightarrow> string list) \<Rightarrow> string \<Rightarrow> string list \<Rightarrow> net_effect list" where
  "unroute_all n ord circuitId ids =
     concat (map (\<lambda>i. case GetConnected n i of Some r \<Rightarrow> [UnrouteMsg r circuitId True] | None \<Rightarrow> [])
       (go_range ord ids))"

definition TerminatorLocalAddressHeader :: "32 word" where "TerminatorLocalAddressHeader = 1110"
definition TerminatorRemoteAddressHeader :: "32 word" where "TerminatorRemoteAddressHeader = 1111"
definition InitiatorLocalAddressHeader :: "32 word" where "InitiatorLocalAddressHeader = 1112"
definition InitiatorRemoteAddressHeader :: "32 word" where "InitiatorRemoteAddressHeader = 1113"

definition header :: "PeerData \<Rightarrow> 32 word \<Rightarrow> string" where
  "header pd k = (case map_of pd k of None \<Rightarrow> '''' | Some v \<Rightarrow> v)"

text \<open>
  The peer data of the circuit: the address headers are taken out and the strategy's data is
  added. Adding to a nil map panics.
\<close>

definition circuit_peerData :: "PeerData option \<Rightarrow> PeerData option \<Rightarrow> PeerData option option" where
  "circuit_peerData peerData strategyData =
     (let stripped = map_option (\<lambda>pd. fold AList.delete
            [InitiatorLocalAddressHeader, InitiatorRemoteAddressHeader,
             TerminatorLocalAddressHeader, TerminatorRemoteAddressHeader] pd) peerData;
          extra = (case strategyData of None \<Rightarrow> [] | Some d \<Rightarrow> d)
      in if extra = [] then Some stripped
         else
           (case stripped of
              None \<Rightarrow> None
            | Some pd \<Rightarrow> Some (Some (fold (\<lambda>(k, v). AList.update k v) extra pd))))"

definition finish_create ::
  "circuit_params \<Rightarrow> 'f create_env \<Rightarrow> string \<Rightarrow> string \<Rightarrow> string list \<Rightarrow> Path \<Rightarrow> RoutingTerminator \<Rightarrow>
   PeerData option \<Rightarrow> PeerData option \<Rightarrow> sender_state \<Rightarrow> (Circuit \<times> sender_state) option" where
  "finish_create params env circuitId serviceId allCleanups path terminator peerData strategyData s =
     (let n = ce_net env;
          usedRouters = map (\<lambda>r. r_id (routers n r)) (Nodes path);
          abandoned = filter (\<lambda>i. i \<notin> set usedRouters) allCleanups;
          s1 = emit (unroute_all n (ce_cleanupOrd env) circuitId abandoned) s;
          client = tk_data (cp_client params);
          pd = (case peerData of None \<Rightarrow> [] | Some d \<Rightarrow> d);
          path1 = path\<lparr>InitiatorLocalAddr := header client InitiatorLocalAddressHeader,
                       InitiatorRemoteAddr := header client InitiatorRemoteAddressHeader,
                       TerminatorLocalAddr := header pd TerminatorLocalAddressHeader,
                       TerminatorRemoteAddr := header pd TerminatorRemoteAddressHeader\<rparr>
      in case circuit_peerData peerData strategyData of
           None \<Rightarrow> None
         | Some pd1 \<Rightarrow>
             Some (\<lparr>c_id = circuitId, c_clientId = tk_token (cp_client params), c_serviceId = serviceId,
                    c_terminator = terminator, c_path = path1, c_tags = cp_tags params terminator,
                    c_rerouting = False, c_peerData = pd1,
                    c_createdAt = ce_now env, c_updatedAt = ce_now env\<rparr>, s1))"

text \<open>
  The retry loop. \<open>attempt\<close> counts below the configured number of retries, a \<open>uint32\<close>, so it
  does not wrap; \<open>env\<close> is what the environment decides in each attempt.
\<close>

function create_loop ::
  "circuit_params \<Rightarrow> 32 word \<Rightarrow> (nat \<Rightarrow> 'f create_env) \<Rightarrow> string \<Rightarrow> string \<Rightarrow> string \<Rightarrow> nat \<Rightarrow> string list \<Rightarrow>
   arrival list \<Rightarrow> sender_state \<Rightarrow> ((create_error + Circuit) \<times> arrival list \<times> sender_state) option" where
  "create_loop params retries env circuitId serviceId instanceId attempt allCleanups arrivals s =
     (case create_attempt params (env attempt) circuitId serviceId instanceId (of_nat attempt) arrivals s of
        None \<Rightarrow> None
      | Some (Aborted err, rest, s1) \<Rightarrow> Some (Inl err, rest, s1)
      | Some (RouteFailed cause ids, rest, s1) \<Rightarrow>
          (let allCleanups1 = remdups (allCleanups @ ids) in
           if attempt + 1 < unat retries then
             create_loop params retries env circuitId serviceId instanceId (attempt + 1) allCleanups1 rest s1
           else Some (Inl (RetriesExceeded cause), rest,
                  emit (unroute_all (ce_net (env attempt)) (ce_cleanupOrd (env attempt)) circuitId allCleanups1) s1))
      | Some (Routed path terminator peerData strategyData, rest, s1) \<Rightarrow>
          (case finish_create params (env attempt) circuitId serviceId allCleanups path terminator
                  peerData strategyData s1 of
             None \<Rightarrow> None
           | Some (c, s2) \<Rightarrow> Some (Inr c, rest, s2)))"
  by pat_completeness auto
termination
  by (relation "measure (\<lambda>(_, retries, _, _, _, _, attempt, _, _, _). unat retries - attempt)") auto

declare create_loop.simps [simp del]

definition CreateCircuit ::
  "circuit_params \<Rightarrow> 32 word \<Rightarrow> (nat \<Rightarrow> 'f create_env) \<Rightarrow> string option \<Rightarrow> arrival list \<Rightarrow> cstate \<Rightarrow>
   ((create_error + circuit_ref) \<times> arrival list \<times> cstate) option" where
  "CreateCircuit params retries env newId arrivals c =
     (let (instanceId, serviceId) = parseInstanceIdAndService (cp_service params) in
      case newId of
        None \<Rightarrow> Some (Inl CircuitIdFailed, arrivals,
                  cs_emit [CircuitFailedEvent '''' CircuitFailureIdGenerationError] c)
      | Some circuitId \<Rightarrow>
          (case create_loop params retries env circuitId serviceId instanceId 0 [] arrivals (newRouteSender (cs_xt c)) of
             None \<Rightarrow> None
           | Some (res, rest, s) \<Rightarrow>
               (let c1 = cs_emit (ss_effects s) (c\<lparr>cs_xt := ss_xt s\<rparr>) in
                case res of
                  Inl err \<Rightarrow> Some (Inl err, rest, c1)
                | Inr circuit \<Rightarrow>
                    (let (r, c2) = circuit_Add circuit c1
                     in Some (Inr r, rest, cs_emit [CircuitEvent CircuitCreated circuitId] c2)))))"

section \<open>Removing a circuit\<close>

text \<open>\<open>readService\<close> is the service manager's read. The result is None when the circuit is unknown.\<close>

definition RemoveCircuit ::
  "(string \<Rightarrow> Service option) \<Rightarrow> int \<Rightarrow> string \<Rightarrow> bool \<Rightarrow> cstate \<Rightarrow> (bool \<times> cstate) option" where
  "RemoveCircuit readService time circuitId now s =
     (case circuit_Get s circuitId of
        None \<Rightarrow> Some (False, s)
      | Some c \<Rightarrow>
          (let circuit = circuit_objs s c;
               s1 = cs_emit (map (\<lambda>r. UnrouteMsg r (c_id circuit) now) (Nodes (c_path circuit))) s;
               s2 = cs_emit [CircuitEvent CircuitDeleted (c_id circuit)] (circuit_Remove c s1)
           in case readService (c_serviceId circuit) of
                None \<Rightarrow> Some (True, s2)
              | Some svc \<Rightarrow>
                  (case GetStrategy (svc_strategy svc) (cs_xt s2) of
                     (None, x) \<Rightarrow> Some (True, s2\<lparr>cs_xt := x\<rparr>)
                   | (Some strat, x) \<Rightarrow>
                       (case NotifyEvent strat time
                               (CircuitRemoved (be_id (routing_terminator (c_terminator circuit)))) x of
                          None \<Rightarrow> None
                        | Some x1 \<Rightarrow> Some (True, s2\<lparr>cs_xt := x1\<rparr>)))))"

section \<open>Rerouting\<close>

record reroute_env =
  re_net :: net
  re_minRouterCost :: "16 word"
  re_ord :: "router_ref list \<Rightarrow> router_ref list"
  re_remaining :: int
  re_now :: int
  re_service :: "string \<Rightarrow> Service option"

text \<open>A router's answer to a route message: a send error, or content type and headers.\<close>

datatype route_reply = SendError string | Reply int "(int \<times> string) list"

definition RouteResultType :: int where "RouteResultType = 1022"
definition RouteResultSuccessHeader :: int where "RouteResultSuccessHeader = 1102"
definition RouteResultErrorHeader :: int where "RouteResultErrorHeader = 1103"

definition sendRoute :: "route_reply \<Rightarrow> string + PeerData" where
  "sendRoute reply =
     (case reply of
        SendError e \<Rightarrow> Inl e
      | Reply contentType headers \<Rightarrow>
          if contentType = RouteResultType then
            (if map_of headers RouteResultSuccessHeader = None then
               Inl (case map_of headers RouteResultErrorHeader of
                      Some errMsg \<Rightarrow> errMsg
                    | None \<Rightarrow> ''route error, but no error message from router'')
             else Inr (map (\<lambda>(k, v). (word_of_int k, v)) (filter (\<lambda>(k, v). k > 0) headers)))
          else Inl ''unexpected response type'')"

definition reroute_msgs :: "reroute_env \<Rightarrow> Circuit \<Rightarrow> Path \<Rightarrow> Route list" where
  "reroute_msgs env circuit cq =
     CreateRouteMessages (re_net env) cq SmartRerouteAttempt (c_id circuit)
       (t_binding (routing_terminator (c_terminator circuit)))
       (t_address (routing_terminator (c_terminator circuit))) (re_remaining env)"

text \<open>
  \<open>rerouteCircuit\<close> returns whether it failed. The answers to its route messages are only
  logged. A circuit whose flag is set is being rerouted by someone else and left alone.
\<close>

definition rerouteCircuit :: "reroute_env \<Rightarrow> circuit_ref \<Rightarrow> cstate \<Rightarrow> (path_error option \<times> cstate) option" where
  "rerouteCircuit env c s =
     (if \<not> c_rerouting (circuit_objs s c) then
        let s1 = set_circuit c (\<lambda>x. x\<lparr>c_rerouting := True\<rparr>) s;
            unlock = set_circuit c (\<lambda>x. x\<lparr>c_rerouting := False\<rparr>)
        in case UpdatePath (re_ord env) (re_net env) (re_minRouterCost env) (c_path (circuit_objs s1 c)) of
             None \<Rightarrow> None
           | Some (Inl err) \<Rightarrow> Some (Some err, unlock s1)
           | Some (Inr cq) \<Rightarrow>
               (let s2 = set_circuit c (\<lambda>x. x\<lparr>c_path := cq, c_updatedAt := re_now env\<rparr>) s1;
                    rms = reroute_msgs env (circuit_objs s2 c) cq
                in if length rms < length (Nodes cq) then None
                   else
                     (let s3 = cs_emit (map (\<lambda>(r, m). RouteMsg r m) (zip (Nodes cq) rms)) s2;
                          s4 = cs_emit [CircuitEvent CircuitUpdated (c_id (circuit_objs s3 c))] s3
                      in Some (None, unlock s4)))
      else Some (None, s))"

definition remove_failed :: "reroute_env \<Rightarrow> circuit_ref \<Rightarrow> cstate \<Rightarrow> cstate option" where
  "remove_failed env c s =
     (case RemoveCircuit (re_service env) (re_now env) (c_id (circuit_objs s c)) True s of
        None \<Rightarrow> None
      | Some (_, s1) \<Rightarrow> Some s1)"

fun reroute_tries ::
  "(nat \<Rightarrow> reroute_env) \<Rightarrow> circuit_ref \<Rightarrow> nat \<Rightarrow> nat \<Rightarrow> cstate \<Rightarrow> (bool \<times> cstate) option" where
  "reroute_tries env c i 0 s =
     (case remove_failed (env i) c s of None \<Rightarrow> None | Some s1 \<Rightarrow> Some (False, s1))"
| "reroute_tries env c i (Suc k) s =
     (case rerouteCircuit (env i) c s of
        None \<Rightarrow> None
      | Some (None, s1) \<Rightarrow> Some (True, s1)
      | Some (Some err, s1) \<Rightarrow> reroute_tries env c (i + 1) k s1)"

definition rerouteCircuitWithTries ::
  "(nat \<Rightarrow> reroute_env) \<Rightarrow> circuit_ref \<Rightarrow> nat \<Rightarrow> cstate \<Rightarrow> (bool \<times> cstate) option" where
  "rerouteCircuitWithTries env c retries s = reroute_tries env c 0 retries s"

definition rerouteLink ::
  "(circuit_ref \<Rightarrow> reroute_env) \<Rightarrow> (circuit_ref list \<Rightarrow> circuit_ref list) \<Rightarrow> link_ref \<Rightarrow> cstate \<Rightarrow> cstate option" where
  "rerouteLink env ord l s =
     ofold (\<lambda>c s.
       if UsesLink (c_path (circuit_objs s c)) l then
         (case rerouteCircuit (env c) c s of
            None \<Rightarrow> None
          | Some (None, s1) \<Rightarrow> Some s1
          | Some (Some err, s1) \<Rightarrow> remove_failed (env c) c s1)
       else Some s) (circuit_All ord s) s"

definition fault :: "(nat \<Rightarrow> reroute_env) \<Rightarrow> router_ref \<Rightarrow> string list \<Rightarrow> bool \<Rightarrow> cstate \<Rightarrow> cstate option" where
  "fault env r circuitIds unknownOwner s =
     ofold (\<lambda>circuitId s.
       case circuit_Get s circuitId of
         Some c \<Rightarrow>
           (case rerouteCircuitWithTries env c 2 s of None \<Rightarrow> None | Some (_, s1) \<Rightarrow> Some s1)
       | None \<Rightarrow>
           if \<not> unknownOwner then Some (cs_emit [UnrouteMsg r circuitId True] s) else Some s) circuitIds s"

definition routerDeleted ::
  "reroute_env \<Rightarrow> (circuit_ref list \<Rightarrow> circuit_ref list) \<Rightarrow> string \<Rightarrow> cstate \<Rightarrow> cstate option" where
  "routerDeleted env ord routerId s =
     ofold (\<lambda>c s.
       let circuit = circuit_objs s c; n = re_net env; nodes = Nodes (c_path circuit) in
       if HasRouter n circuit routerId then
         (if r_id (routers n (hd nodes)) = routerId \<or> r_id (routers n (last nodes)) = routerId
          then remove_failed env c s else Some s)
       else Some s) (circuit_All ord s) s"

section \<open>Smart rerouting\<close>

text \<open>
  The replies of the routers decide whether the update is complete; the loop stops at the first
  router that refuses.
\<close>

fun smart_send :: "(router_ref \<Rightarrow> Route \<Rightarrow> route_reply) \<Rightarrow> (router_ref \<times> Route) list \<Rightarrow> cstate \<Rightarrow> bool \<times> cstate" where
  "smart_send replies [] s = (False, s)"
| "smart_send replies ((r, m) # rms) s =
     (let s1 = cs_emit [RouteMsg r m] s in
      case sendRoute (replies r m) of Inl err \<Rightarrow> (True, s1) | Inr _ \<Rightarrow> smart_send replies rms s1)"

definition smartReroute ::
  "(router_ref \<Rightarrow> Route \<Rightarrow> route_reply) \<Rightarrow> reroute_env \<Rightarrow> circuit_ref \<Rightarrow> Path \<Rightarrow> cstate \<Rightarrow> (bool \<times> cstate) option" where
  "smartReroute replies env c cq s =
     (if \<not> c_rerouting (circuit_objs s c) then
        let s1 = set_circuit c (\<lambda>x. x\<lparr>c_rerouting := True\<rparr>) s;
            s2 = set_circuit c (\<lambda>x. x\<lparr>c_path := cq, c_updatedAt := re_now env\<rparr>) s1;
            rms = reroute_msgs env (circuit_objs s2 c) cq
        in if length rms < length (Nodes cq) then None
           else
             (let (retry, s3) = smart_send replies (zip (Nodes cq) rms) s2;
                  s4 = (if \<not> retry then cs_emit [CircuitEvent CircuitUpdated (c_id (circuit_objs s3 c))] s3 else s3)
              in Some (retry, set_circuit c (\<lambda>x. x\<lparr>c_rerouting := False\<rparr>) s4))
      else Some (False, s))"

definition calculateCircuitCost :: "net \<Rightarrow> 16 word \<Rightarrow> Path \<Rightarrow> int" where
  "calculateCircuitCost n minRouterCost path =
     fold (\<lambda>r c.
       case GetConnected n (r_id (routers n r)) of
         Some currentRouter \<Rightarrow> i64 (c + router_cost n minRouterCost currentRouter)
       | None \<Rightarrow> i64 (c + router_cost n minRouterCost r)) (Nodes path)
       (fold (\<lambda>l c. i64 (c + l_cost (links n l))) (Links path) 0)"

text \<open>
  \<open>fraction\<close> is the number of circuits times the configured reroute fraction, a \<open>float32\<close>
  product truncated to an integer.
\<close>

definition reroute_ceiling :: "(nat \<Rightarrow> int) \<Rightarrow> 32 word \<Rightarrow> nat \<Rightarrow> int" where
  "reroute_ceiling fraction rerouteCap len =
     (let ceiling = fraction len;
          ceiling = (if ceiling < 1 then 1 else ceiling)
      in if ceiling > uint rerouteCap then uint rerouteCap else ceiling)"

fun candidate_loop ::
  "reroute_env \<Rightarrow> int \<Rightarrow> 32 word \<Rightarrow> cstate \<Rightarrow> (string \<Rightarrow> int) \<Rightarrow> string list \<Rightarrow> int \<Rightarrow>
   (circuit_ref \<times> Path) list \<Rightarrow> (circuit_ref \<times> Path) list option" where
  "candidate_loop env ceiling minCostDelta s costs [] cnt found = Some found"
| "candidate_loop env ceiling minCostDelta s costs (circuitId # ids) cnt found =
     (case circuit_Get s circuitId of
        None \<Rightarrow> candidate_loop env ceiling minCostDelta s costs ids cnt found
      | Some c \<Rightarrow>
          (case UpdatePath (re_ord env) (re_net env) (re_minRouterCost env) (c_path (circuit_objs s c)) of
             None \<Rightarrow> None
           | Some (Inl err) \<Rightarrow> candidate_loop env ceiling minCostDelta s costs ids cnt found
           | Some (Inr updatedPath) \<Rightarrow>
               (let pathChanged = \<not> EqualPath updatedPath (c_path (circuit_objs s c));
                    oldCost = costs circuitId;
                    newCost = Path_Cost (re_net env) (re_minRouterCost env) updatedPath;
                    costDelta = i64 (oldCost - newCost)
                in if cnt < ceiling \<and> pathChanged \<and> costDelta \<ge> uint minCostDelta
                   then candidate_loop env ceiling minCostDelta s costs ids (cnt + 1) (found @ [(c, updatedPath)])
                   else candidate_loop env ceiling minCostDelta s costs ids cnt found)))"

definition getRerouteCandidates ::
  "reroute_env \<Rightarrow> (circuit_ref list \<Rightarrow> circuit_ref list) \<Rightarrow> (nat \<Rightarrow> int) \<Rightarrow> 32 word \<Rightarrow> 32 word \<Rightarrow> cstate \<Rightarrow>
   (circuit_ref \<times> Path) list option" where
  "getRerouteCandidates env ord fraction rerouteCap minCostDelta s =
     (let all = circuit_All ord s;
          costOf = (\<lambda>c. calculateCircuitCost (re_net env) (re_minRouterCost env) (c_path (circuit_objs s c)));
          circuitCosts = map_of (rev (map (\<lambda>c. (c_id (circuit_objs s c), costOf c)) all));
          costs = lookup0 circuitCosts;
          orderedCircuits = sort_key (\<lambda>i. - costs i) (map (\<lambda>c. c_id (circuit_objs s c)) all)
      in candidate_loop env (reroute_ceiling fraction rerouteCap (length all)) minCostDelta s costs orderedCircuits 0 [])"

definition smart ::
  "(router_ref \<Rightarrow> Route \<Rightarrow> route_reply) \<Rightarrow> reroute_env \<Rightarrow> (circuit_ref list \<Rightarrow> circuit_ref list) \<Rightarrow> (nat \<Rightarrow> int) \<Rightarrow>
   32 word \<Rightarrow> 32 word \<Rightarrow> cstate \<Rightarrow> cstate option" where
  "smart replies env ord fraction rerouteCap minCostDelta s =
     (case getRerouteCandidates env ord fraction rerouteCap minCostDelta s of
        None \<Rightarrow> None
      | Some found \<Rightarrow>
          ofold (\<lambda>(c, path) s.
            case smartReroute replies env c path s of
              None \<Rightarrow> None
            | Some (retry, s1) \<Rightarrow>
                Some (if retry then cs_emit [RerouteInBackground c] s1 else s1)) found s)"

end
