(* ===== verification/Circuit_Create.thy ===== *)
theory Circuit_Create
  imports Circuits
begin

text \<open>
  What \<open>Network.CreateCircuit\<close> guarantees: which attempts it makes, what a created circuit has
  behind it, what is cleaned up after failures, and that it returns.
\<close>

section \<open>The attempts of one creation\<close>

text \<open>
  \<open>attempt_at\<close> is the result of the k-th attempt, which starts where the failed attempt before
  it left off, and \<open>collected\<close> the routers to clean up after the attempts below k.
\<close>

primrec attempt_at ::
  "circuit_params \<Rightarrow> (nat \<Rightarrow> 'f create_env) \<Rightarrow> string \<Rightarrow> string \<Rightarrow> string \<Rightarrow> arrival list \<Rightarrow> sender_state \<Rightarrow> nat \<Rightarrow>
   (attempt_outcome \<times> arrival list \<times> sender_state) option" where
  "attempt_at params env cid sid iid arr s 0 = create_attempt params (env 0) cid sid iid 0 arr s"
| "attempt_at params env cid sid iid arr s (Suc k) =
     (case attempt_at params env cid sid iid arr s k of
        Some (RouteFailed cause ids, rest, s1) \<Rightarrow> create_attempt params (env (Suc k)) cid sid iid (of_nat (Suc k)) rest s1
      | _ \<Rightarrow> None)"

fun failed_ids :: "(attempt_outcome \<times> arrival list \<times> sender_state) option \<Rightarrow> string list" where
  "failed_ids (Some (RouteFailed cause ids, rest, s)) = ids"
| "failed_ids _ = []"

primrec collected :: "(nat \<Rightarrow> (attempt_outcome \<times> arrival list \<times> sender_state) option) \<Rightarrow> nat \<Rightarrow> string list" where
  "collected at 0 = []"
| "collected at (Suc k) = remdups (collected at k @ failed_ids (at k))"

lemma set_collected: "set (collected at k) = (\<Union>j < k. set (failed_ids (at j)))"
  by (induction k) (auto simp: less_Suc_eq)

definition creation_ends ::
  "circuit_params \<Rightarrow> 32 word \<Rightarrow> (nat \<Rightarrow> 'f create_env) \<Rightarrow> string \<Rightarrow> string \<Rightarrow>
   (nat \<Rightarrow> (attempt_outcome \<times> arrival list \<times> sender_state) option) \<Rightarrow> nat \<Rightarrow>
   (create_error + Circuit) \<Rightarrow> arrival list \<Rightarrow> sender_state \<Rightarrow> bool" where
  "creation_ends params retries env cid sid at k res rest s' \<longleftrightarrow>
     (\<exists>s1. (\<exists>err. at k = Some (Aborted err, rest, s1) \<and> res = Inl err \<and> s' = s1) \<or>
       (\<exists>cause ids. at k = Some (RouteFailed cause ids, rest, s1) \<and> unat retries \<le> k + 1 \<and>
          res = Inl (RetriesExceeded cause) \<and>
          s' = emit (unroute_all (ce_net (env k)) (ce_cleanupOrd (env k)) cid (collected at (Suc k))) s1) \<or>
       (\<exists>path t pd sd c. at k = Some (Routed path t pd sd, rest, s1) \<and> res = Inr c \<and>
          finish_create params (env k) cid sid (collected at k) path t pd sd s1 = Some (c, s')))"

lemma create_loop_ends:
  fixes env :: "nat \<Rightarrow> 'f create_env"
  assumes "create_loop params retries env cid sid iid k all arr s = Some (res, rest, s')"
    and "at k = create_attempt params (env k) cid sid iid (of_nat k) arr s" "all = collected at k"
    and "\<forall>j cause ids rest s. at j = Some (RouteFailed cause ids, rest, s) \<longrightarrow>
      at (Suc j) = create_attempt params (env (Suc j)) cid sid iid (of_nat (Suc j)) rest s"
  shows "\<exists>m \<ge> k. (\<forall>j. k \<le> j \<and> j < m \<longrightarrow> (\<exists>cause ids rest s. at j = Some (RouteFailed cause ids, rest, s))) \<and>
    (k < m \<longrightarrow> m < unat retries) \<and> creation_ends params retries env cid sid at m res rest s'"
  using assms
proof (induction params retries env cid sid iid k all arr s rule: create_loop.induct)
  case (1 params retries env cid sid iid k all arr s)
  note run = 1(2) [unfolded create_loop.simps [of _ _ _ _ _ _ k]] and at = 1(3) and all = 1(4) and step = 1(5)
  show ?case
  proof (cases "at k")
    case None
    with run at show ?thesis by simp
  next
    case (Some r)
    obtain oc rest1 s1 where r: "r = (oc, rest1, s1)" by (cases r)
    have ca: "create_attempt params (env k) cid sid iid (of_nat k) arr s = Some (oc, rest1, s1)"
      using Some at r by simp
    show ?thesis
    proof (cases oc)
      case (Aborted err)
      with run ca Some r show ?thesis
        by (intro exI [of _ k]) (auto simp: creation_ends_def)
    next
      case (Routed path t pd sd)
      with run ca Some r all show ?thesis
        by (intro exI [of _ k]) (auto simp: creation_ends_def split: option.splits)
    next
      case (RouteFailed cause ids)
      let ?all = "remdups (all @ ids)"
      have coll: "collected at (Suc k) = ?all" using all Some r RouteFailed by simp
      show ?thesis
      proof (cases "k + 1 < unat retries")
        case False
        with run ca RouteFailed have "res = Inl (RetriesExceeded cause)" "rest = rest1"
          "s' = emit (unroute_all (ce_net (env k)) (ce_cleanupOrd (env k)) cid ?all) s1"
          by (simp_all add: Let_def)
        with False Some r RouteFailed coll show ?thesis
          by (intro exI [of _ k]) (auto simp: creation_ends_def simp del: collected.simps)
      next
        case True
        with run ca RouteFailed
        have next_run: "create_loop params retries env cid sid iid (k + 1) ?all rest1 s1 = Some (res, rest, s')"
          by (simp add: Let_def)
        have next_at: "at (k + 1) = create_attempt params (env (k + 1)) cid sid iid (of_nat (k + 1)) rest1 s1"
          using step Some r RouteFailed by simp
        have next_all: "?all = collected at (k + 1)" using coll by simp
        obtain m where m: "k + 1 \<le> m"
          "\<forall>j. k + 1 \<le> j \<and> j < m \<longrightarrow> (\<exists>cause ids rest s. at j = Some (RouteFailed cause ids, rest, s))"
          "k + 1 < m \<longrightarrow> m < unat retries" "creation_ends params retries env cid sid at m res rest s'"
          using 1(1) [OF ca refl RouteFailed refl refl True next_run next_at next_all step] by auto
        have "\<exists>cause ids rest s. at j = Some (RouteFailed cause ids, rest, s)" if "k \<le> j" "j < m" for j
          using m(2) that Some r RouteFailed by (cases "j = k") auto
        moreover have "m < unat retries" using m(1,3) True by (cases "k + 1 < m") auto
        ultimately show ?thesis using m(1,4) by (intro exI [of _ m]) auto
      qed
    qed
  qed
qed

section \<open>An attempt sends no unroutes\<close>

fun is_unroute :: "net_effect \<Rightarrow> bool" where
  "is_unroute (UnrouteMsg r i now) = True"
| "is_unroute _ = False"

definition quiet :: "sender_state \<Rightarrow> sender_state \<Rightarrow> bool" where
  "quiet s s' \<longleftrightarrow> filter is_unroute (ss_effects s') = filter is_unroute (ss_effects s)"

lemma quiet_simps [simp]:
  "quiet s s" "quiet s (s'\<lparr>attendance := a\<rparr>) = quiet s s'" "quiet s (s'\<lparr>ss_xt := x\<rparr>) = quiet s s'"
  by (simp_all add: quiet_def)

lemma quiet_trans: "quiet s s1 \<Longrightarrow> quiet s1 s2 \<Longrightarrow> quiet s s2"
  by (simp add: quiet_def)

lemma quiet_emit: "\<forall>e \<in> set es. \<not> is_unroute e \<Longrightarrow> quiet s (emit es s') = quiet s s'"
  by (simp add: quiet_def emit_def)

lemma quiet_notify: "sender_notify strat now e s1 = Some s2 \<Longrightarrow> quiet s s2 = quiet s s1"
  by (auto simp: sender_notify_def quiet_def split: option.splits)

lemma route_failure_quiet: "route_failure t code = (cause, es) \<Longrightarrow> \<forall>e \<in> set es. \<not> is_unroute e"
  by (auto simp: route_failure_def Let_def split: if_splits)

lemma handleRouteSend_quiet:
  assumes "handleRouteSend n attempt path strat now status t s = Some (res, s')"
  shows "quiet s s'"
proof -
  obtain cause es where f: "route_failure t (rs_errorCode status) = (cause, es)" by fastforce
  note quiets = quiet_emit quiet_emit [OF route_failure_quiet [OF f]]
  show ?thesis
    using assms f
    by (auto simp: handleRouteSend_def Let_def quiets quiet_notify split: if_splits option.splits)
qed

lemma route_wait_quiet:
  "route_wait n attempt path strat t arr pd s = Some (res, rest, s') \<Longrightarrow> quiet s s'"
proof (induction n attempt path strat t arr pd s rule: route_wait.induct)
  case (2 n attempt path strat t now arr pd s)
  then show ?case by (auto simp: quiet_emit quiet_notify split: option.splits)
next
  case (3 n attempt path strat t now status arr pd s)
  from 3(2) obtain tpd cl err s1 where h: "handleRouteSend n attempt path strat now status t s = Some ((tpd, cl, err), s1)"
    by (auto split: option.splits)
  note q = handleRouteSend_quiet [OF h]
  show ?case
  proof (cases err)
    case (Some cause)
    with 3(2) h q show ?thesis by simp
  next
    case None
    show ?thesis
    proof (cases "\<forall>(_, v) \<in> set (attendance s1). v")
      case True
      with None 3(2) h q show ?thesis by (simp add: Let_def)
    next
      case False
      with None 3(2) h have "route_wait n attempt path strat t arr
          (if tpd \<noteq> None \<and> rs_attempt status = attempt \<and> rs_router status = t_router t then tpd else pd) s1 = Some (res, rest, s')"
        by (simp add: Let_def)
      from 3(1) [OF h refl refl refl None refl False this] q show ?thesis by (rule quiet_trans [rotated])
    qed
  qed
qed simp

lemma route_send_quiet: "quiet s (route_send n path msgs s)"
  unfolding route_send_def by (rule fold_keeps) (auto simp: quiet_emit)

lemma sender_route_quiet:
  assumes "sender_route n attempt path msgs strat t arr s = Some (res, rest, s')"
  shows "quiet s s'"
proof -
  from assms have "route_wait n attempt path strat t arr None (route_send n path msgs s) = Some (res, rest, s')"
    by (simp add: sender_route_def split: if_splits)
  from route_wait_quiet [OF this] route_send_quiet [of s n path msgs] show ?thesis by (rule quiet_trans [rotated])
qed

text \<open>How an attempt ends, read off its definition once.\<close>

lemma create_attempt_cases:
  fixes env :: "'f create_env"
  assumes "create_attempt params env cid sid iid attempt arr s = Some (oc, rest, s')"
  obtains (aborted) err where "oc = Aborted err" "rest = arr" "quiet s s'" "\<And>cause. err \<noteq> RetriesExceeded cause"
    | (failed) svc sel x path rms pd cl cause s2 where "ce_service env sid = Some svc"
      "selectPath (ce_ords env) (ce_sort env) (ce_chance env) (ce_net env) (ce_minRouterCost env)
         (cp_source params) (Some (cp_client params)) svc iid (ss_xt s) = Some (Inr sel, x)"
      "CreatePathWithNodes (ce_net env) (ce_ingress env) (ce_egress env) (sel_path sel) = Inr path"
      "sender_route (ce_net env) attempt path rms (sel_strategy sel) (routing_terminator (sel_terminator sel))
         arr (s\<lparr>ss_xt := x\<rparr>) = Some ((pd, cl, Some cause), rest, s2)"
      "oc = RouteFailed cause (case cl of None \<Rightarrow> [] | Some ids \<Rightarrow> ids)" "s' = emit [CircuitFailedEvent cid cause] s2"
    | (routed) svc sel x path rms pd cl where "ce_service env sid = Some svc"
      "selectPath (ce_ords env) (ce_sort env) (ce_chance env) (ce_net env) (ce_minRouterCost env)
         (cp_source params) (Some (cp_client params)) svc iid (ss_xt s) = Some (Inr sel, x)"
      "CreatePathWithNodes (ce_net env) (ce_ingress env) (ce_egress env) (sel_path sel) = Inr path"
      "sender_route (ce_net env) attempt path rms (sel_strategy sel) (routing_terminator (sel_terminator sel))
         arr (s\<lparr>ss_xt := x\<rparr>) = Some ((pd, cl, None), rest, s')"
      "oc = Routed path (sel_terminator sel) pd (sel_peerData sel)"
  using assms
  by (auto simp: create_attempt_def abort_create_def Let_def quiet_emit
      split: option.splits sum.splits prod.splits if_splits)

lemma create_attempt_quiet:
  fixes env :: "'f create_env"
  assumes "create_attempt params env cid sid iid attempt arr s = Some (oc, rest, s')"
  shows "quiet s s'"
  using assms
proof (cases rule: create_attempt_cases)
  case (failed svc sel x path rms pd cl cause s2)
  from sender_route_quiet [OF failed(4)] have "quiet s s2" by (simp add: quiet_def)
  with failed(6) show ?thesis by (simp add: quiet_emit)
next
  case (routed svc sel x path rms pd cl)
  from sender_route_quiet [OF routed(4)] show ?thesis by (simp add: quiet_def)
qed

section \<open>The run of all attempts\<close>

lemma create_loop_start:
  fixes env :: "nat \<Rightarrow> 'f create_env"
  assumes "create_loop params retries env cid sid iid 0 [] arr s = Some (res, rest, s')"
    and at: "at = attempt_at params env cid sid iid arr s"
  obtains k where "\<forall>j < k. \<exists>cause ids rest s. at j = Some (RouteFailed cause ids, rest, s)"
    "k < max 1 (unat retries)" "creation_ends params retries env cid sid at k res rest s'"
proof -
  have "\<exists>m \<ge> 0. (\<forall>j. 0 \<le> j \<and> j < m \<longrightarrow> (\<exists>cause ids rest s. at j = Some (RouteFailed cause ids, rest, s))) \<and>
      (0 < m \<longrightarrow> m < unat retries) \<and> creation_ends params retries env cid sid at m res rest s'"
    by (rule create_loop_ends [OF assms(1)]) (simp_all add: at)
  then obtain k where "\<forall>j < k. \<exists>cause ids rest s. at j = Some (RouteFailed cause ids, rest, s)"
    "0 < k \<longrightarrow> k < unat retries" "creation_ends params retries env cid sid at k res rest s'" by auto
  moreover from this(2) have "k < max 1 (unat retries)" by (cases "k = 0") simp_all
  ultimately show thesis by (intro that [of k])
qed

text \<open>The part of the arrivals and of the state that an attempt leaves behind.\<close>

definition leaves :: "arrival list \<Rightarrow> sender_state \<Rightarrow> arrival list \<Rightarrow> sender_state \<Rightarrow> bool" where
  "leaves arr s rest s1 \<longleftrightarrow> (\<exists>used. arr = used @ rest) \<and> (keys_distinct (attendance s) \<longrightarrow> keys_distinct (attendance s1)) \<and> quiet s s1"

lemma create_attempt_leaves:
  fixes env :: "'f create_env"
  assumes "create_attempt params env cid sid iid attempt arr s = Some (oc, rest, s')" "keys_distinct (attendance s)"
  shows "leaves arr s rest s'"
proof -
  have "(\<exists>used. arr = used @ rest) \<and> keys_distinct (attendance s')"
    using assms(1)
  proof (cases rule: create_attempt_cases)
    case (aborted err)
    with assms show ?thesis
      by (auto simp: create_attempt_def abort_create_def Let_def split: option.splits sum.splits prod.splits if_splits)
  next
    case (failed svc sel x path rms pd cl cause s2)
    have kd: "keys_distinct (attendance (s\<lparr>ss_xt := x\<rparr>))" using assms(2) by simp
    show ?thesis using failed(6) by (cases rule: sender_route_outcome [OF failed(4) kd]) auto
  next
    case (routed svc sel x path rms pd cl)
    have kd: "keys_distinct (attendance (s\<lparr>ss_xt := x\<rparr>))" using assms(2) by simp
    show ?thesis by (cases rule: sender_route_outcome [OF routed(4) kd]) auto
  qed
  with create_attempt_quiet [OF assms(1)] show ?thesis by (simp add: leaves_def)
qed

lemma leaves_trans: "leaves arr s rest s1 \<Longrightarrow> leaves rest s1 rest' s2 \<Longrightarrow> leaves arr s rest' s2"
  by (auto simp: leaves_def intro: quiet_trans)

lemma attempt_input:
  fixes env :: "nat \<Rightarrow> 'f create_env"
  assumes "attempt_at params env cid sid iid arr s k = Some (oc, rest, s1)" "keys_distinct (attendance s)"
  shows "\<exists>arr0 s0. create_attempt params (env k) cid sid iid (of_nat k) arr0 s0 = Some (oc, rest, s1) \<and>
    leaves arr s arr0 s0 \<and> leaves arr s rest s1 \<and> keys_distinct (attendance s0)"
  using assms(1)
proof (induction k arbitrary: oc rest s1)
  case 0
  then have "create_attempt params (env 0) cid sid iid (of_nat 0) arr s = Some (oc, rest, s1)" by simp
  moreover have "leaves arr s arr s" using assms(2) by (simp add: leaves_def)
  ultimately show ?case using create_attempt_leaves [of params "env 0" cid sid iid "of_nat 0" arr s] assms(2) by blast
next
  case (Suc k)
  then obtain cause ids rest0 s0 where prev: "attempt_at params env cid sid iid arr s k = Some (RouteFailed cause ids, rest0, s0)"
    and ca: "create_attempt params (env (Suc k)) cid sid iid (of_nat (Suc k)) rest0 s0 = Some (oc, rest, s1)"
    by (auto split: option.splits attempt_outcome.splits)
  from Suc.IH [OF prev] have l: "leaves arr s rest0 s0" by blast
  with assms(2) have kd: "keys_distinct (attendance s0)" by (simp add: leaves_def)
  from leaves_trans [OF l create_attempt_leaves [OF ca kd]] ca l kd show ?case by blast
qed

lemma set_unroute_all: "set (unroute_all n ord cid ids) = {UnrouteMsg q cid True | q. \<exists>i \<in> set ids. GetConnected n i = Some q}"
  by (auto simp: unroute_all_def split: option.splits)

lemma filter_unroute_all: "filter is_unroute (unroute_all n ord cid ids) = unroute_all n ord cid ids"
  by (rule filter_True) (auto simp: set_unroute_all)

lemma finish_create_effects:
  assumes "finish_create params env cid sid all path t pd sd s = Some (c, s')"
  shows "ss_effects s' = ss_effects s @ unroute_all (ce_net env) (ce_cleanupOrd env) cid
      (filter (\<lambda>i. i \<notin> path_ids (ce_net env) path) all)"
    "c_id c = cid" "c_terminator c = t" "Nodes (c_path c) = Nodes path" "Links (c_path c) = Links path"
    "IngressId (c_path c) = IngressId path" "EgressId (c_path c) = EgressId path" "\<not> c_rerouting c" "ss_xt s' = ss_xt s"
  using assms by (auto simp: finish_create_def Let_def emit_def split: option.splits)

lemma CreateCircuit_run:
  fixes env :: "nat \<Rightarrow> 'f create_env"
  assumes "CreateCircuit params retries env (Some cid) arr c = Some (res, rest, c')"
    and at: "at = attempt_at params env cid (snd (parseInstanceIdAndService (cp_service params)))
      (fst (parseInstanceIdAndService (cp_service params))) arr (newRouteSender (cs_xt c))"
  obtains k res' s' where "\<forall>j < k. \<exists>cause ids rest s. at j = Some (RouteFailed cause ids, rest, s)"
    "k < max 1 (unat retries)"
    "creation_ends params retries env cid (snd (parseInstanceIdAndService (cp_service params))) at k res' rest s'"
    "\<And>err. res' = Inl err \<Longrightarrow> res = Inl err \<and> circuits c' = circuits c \<and> circuit_objs c' = circuit_objs c \<and>
       cs_effects c' = cs_effects c @ ss_effects s'"
    "\<And>circ. res' = Inr circ \<Longrightarrow> res = Inr (next_circuit c) \<and>
       circuits c' = AList.update (c_id circ) (next_circuit c) (circuits c) \<and>
       circuit_objs c' = (circuit_objs c)(next_circuit c := circ) \<and>
       cs_effects c' = cs_effects c @ ss_effects s' @ [CircuitEvent CircuitCreated cid]"
proof -
  let ?p = "parseInstanceIdAndService (cp_service params)"
  from assms(1) obtain res' s' where loop:
    "create_loop params retries env cid (snd ?p) (fst ?p) 0 [] arr (newRouteSender (cs_xt c)) = Some (res', rest, s')"
    by (auto simp: CreateCircuit_def Let_def split: option.splits sum.splits prod.splits)
  from create_loop_start [OF loop at] obtain k where k:
    "\<forall>j < k. \<exists>cause ids rest s. at j = Some (RouteFailed cause ids, rest, s)" "k < max 1 (unat retries)"
    "creation_ends params retries env cid (snd ?p) at k res' rest s'" by blast
  show thesis
    by (rule that [OF k]) (use assms(1) loop in \<open>auto simp: CreateCircuit_def Let_def cs_emit_def circuit_Add_def
        split: option.splits sum.splits prod.splits\<close>)
qed

section \<open>A creation returns\<close>

text \<open>What the environment of an attempt has to satisfy, and what the routers' answers carry.\<close>

definition env_ok :: "'f create_env \<Rightarrow> bool" where
  "env_ok env \<longleftrightarrow> net_reachable (ce_net env) \<and> costs_bounded (ce_net env) \<and>
     (\<forall>i svc. ce_service env i = Some svc \<longrightarrow> (\<forall>t \<in> set (svc_terminators svc). t_precedence t \<noteq> None))"

fun answer_ok :: "arrival \<Rightarrow> bool" where
  "answer_ok (Arrived now st) = (rs_success st \<longrightarrow> rs_peerData st \<noteq> None)"
| "answer_ok (DeadlinePassed now) = True"

fun is_deadline :: "arrival \<Rightarrow> bool" where
  "is_deadline (DeadlinePassed now) = True"
| "is_deadline _ = False"

definition deadlines :: "arrival list \<Rightarrow> nat" where
  "deadlines arr = length (filter is_deadline arr)"

lemma deadline_mem: "0 < deadlines arr \<Longrightarrow> \<exists>now. DeadlinePassed now \<in> set arr"
  unfolding deadlines_def by (metis filter_empty_conv is_deadline.elims(2) length_greater_0_conv)

lemma route_wait_deadlines:
  "route_wait n attempt path strat t arr pd s = Some (res, rest, s') \<Longrightarrow> deadlines arr \<le> deadlines rest + 1"
proof (induction n attempt path strat t arr pd s rule: route_wait.induct)
  case (2 n attempt path strat t now arr pd s)
  then show ?case by (auto simp: deadlines_def split: option.splits)
next
  case (3 n attempt path strat t now status arr pd s)
  from 3(2) obtain tpd cl err s1 where h: "handleRouteSend n attempt path strat now status t s = Some ((tpd, cl, err), s1)"
    by (auto split: option.splits)
  show ?case
  proof (cases "err = None \<and> \<not> (\<forall>(_, v) \<in> set (attendance s1). v)")
    case True
    then have None: "err = None" and False: "\<not> (\<forall>(_, v) \<in> set (attendance s1). v)" by blast+
    with 3(2) h have "route_wait n attempt path strat t arr
        (if tpd \<noteq> None \<and> rs_attempt status = attempt \<and> rs_router status = t_router t then tpd else pd) s1 = Some (res, rest, s')"
      by (simp add: Let_def)
    from 3(1) [OF h refl refl refl None refl False this] show ?thesis by (simp add: deadlines_def)
  next
    case False
    with 3(2) h have "rest = arr" by (auto simp: Let_def split: option.splits if_splits)
    then show ?thesis by (simp add: deadlines_def)
  qed
qed simp

lemma route_wait_peerData:
  assumes "route_wait n attempt path strat t arr pd0 s = Some ((pd, cl, None), rest, s')"
    and "\<forall>a \<in> set arr. answer_ok a" "map_of (attendance s) (t_router t) \<noteq> None"
    and "map_of (attendance s) (t_router t) = Some True \<longrightarrow> pd0 \<noteq> None"
  shows "pd \<noteq> None"
  using assms
proof (induction n attempt path strat t arr pd0 s rule: route_wait.induct)
  case (2 n attempt path strat t now arr pd0 s)
  then show ?case by (auto split: option.splits)
next
  case (3 n attempt path strat t now status arr pd0 s)
  from 3(2) obtain tpd cl' s1 where h: "handleRouteSend n attempt path strat now status t s = Some ((tpd, cl', None), s1)"
    by (auto split: option.splits)
  let ?pd1 = "if tpd \<noteq> None \<and> rs_attempt status = attempt \<and> rs_router status = t_router t then tpd else pd0"
  have known: "map_of (attendance s1) (t_router t) \<noteq> None"
    using handleRouteSend_attendance [OF h] 3(4) by auto
  have acked: "map_of (attendance s1) (t_router t) = Some True \<longrightarrow> ?pd1 \<noteq> None"
    using h
  proof (cases rule: handleRouteSend_cases)
    case ack
    then show ?thesis using 3(3,5) by auto
  qed (use 3(5) in auto)
  show ?case
  proof (cases "\<forall>(_, v) \<in> set (attendance s1). v")
    case True
    then have "map_of (attendance s1) (t_router t) = Some True" using known by (fastforce dest: map_of_SomeD)
    moreover from True h 3(2) have "pd = ?pd1" by (simp add: Let_def)
    ultimately show ?thesis using acked by simp
  next
    case False
    with h 3(2) have "route_wait n attempt path strat t arr ?pd1 s1 = Some ((pd, cl, None), rest, s')" by (simp add: Let_def)
    from 3(1) [OF h refl refl refl refl refl False this _ known acked] 3(3) show ?thesis by simp
  qed
qed simp

lemma selectPath_ok:
  fixes ch :: "'f chance"
  assumes "net_reachable n" "costs_bounded n" "\<forall>t \<in> set (svc_terminators svc). t_precedence t \<noteq> None" "xt_ok x"
  shows "\<exists>r x'. selectPath ords srt ch n m src client svc inst x = Some (r, x') \<and> xt_ok x' \<and>
    (\<forall>c. r = Inr c \<longrightarrow> xt_strategies x' (sel_strategy c) \<noteq> None \<and> sel_path c \<noteq> [] \<and>
       r_id (routers n (last (sel_path c))) = t_router (routing_terminator (sel_terminator c)))"
proof (cases rule: selectPath_cases [OF assms(1-3), where ords = ords and srt = srt and ch = ch and m = m
      and src = src and client = client and inst = inst and x = x])
  case 1
  with assms(4) show ?thesis by simp
next
  case (2 x1)
  with GetStrategy_ok [OF assms(4) 2(2)] show ?thesis by simp
next
  case (3 strat x1 st rt pd pc)
  from route_to_SomeD [OF 3(6)] obtain d path cost where d:
    "GetConnected n (t_router (routing_terminator rt)) = Some d" "pc = newPathAndCost path cost"
    "shortestPath (ords (t_router (routing_terminator rt))) n m src (Some d) = Some (Inr (path, cost))" by metis
  have inv: "index_inv n" by (rule index_inv_reachable [OF assms(1)])
  then have "connected_inv n" by (simp add: index_inv_def net_inv_def)
  from connected_invD(1) [OF this] d(1) have "r_id (routers n d) = t_router (routing_terminator rt)"
    by (simp add: GetConnected_def)
  moreover obtain s where "src = Some s" using d(3) by (auto simp: shortestPath_def split: option.splits)
  with shortestPath_walk [OF inv assms(2)] d(3) have "path \<noteq> [] \<and> last path = d" by blast
  ultimately show ?thesis using 3(3,7) d(2) GetStrategy_ok [OF assms(4) 3(2)]
    by (simp add: newPathAndCost_def Let_def)
qed

lemma CreatePathWithNodes_lengths:
  assumes "CreatePathWithNodes n i e nodes = Inr path" "nodes \<noteq> []"
  shows "Nodes path = nodes" "length nodes = Suc (length (Links path))"
proof -
  from assms(1) obtain ls where ls: "setLinks_loop n nodes [] = Inr ls" "path = \<lparr>Nodes = nodes, Links = ls,
      IngressId = the i, EgressId = the e, InitiatorLocalAddr = '''', InitiatorRemoteAddr = '''',
      TerminatorLocalAddr = '''', TerminatorRemoteAddr = ''''\<rparr>"
    by (auto simp: CreatePathWithNodes_def setLinks_def split: option.splits sum.splits)
  from setLinks_loop_joins [OF ls(1) assms(2)] have "links_join n nodes ls" by auto
  then have "length nodes = Suc (length ls)" by (simp add: links_join_def)
  with ls(2) show "Nodes path = nodes" "length nodes = Suc (length (Links path))" by simp_all
qed

lemma attendance_sent:
  assumes "length (Nodes path) \<le> length msgs" "i \<in> path_ids n path"
  shows "map_of (attendance (route_send n path msgs s)) i = Some False"
  using assms by (simp add: route_send_attendance)

lemma create_attempt_total:
  fixes env :: "'f create_env"
  assumes env: "env_ok env" and xt: "xt_ok (ss_xt s)" and arr: "0 < deadlines arr" "\<forall>a \<in> set arr. answer_ok a"
    and att: "attempt \<noteq> SmartRerouteAttempt"
  shows "\<exists>oc rest s'. create_attempt params env cid sid iid attempt arr s = Some (oc, rest, s') \<and> xt_ok (ss_xt s') \<and>
    deadlines arr \<le> deadlines rest + 1 \<and>
    (\<forall>path t pd sd. oc = Routed path t pd sd \<longrightarrow> pd \<noteq> None)"
proof (cases "ce_service env sid")
  case None
  with xt show ?thesis by (simp add: create_attempt_def abort_create_def emit_def)
next
  case (Some svc)
  let ?n = "ce_net env"
  from env Some selectPath_ok [of ?n svc "ss_xt s" "ce_ords env" "ce_sort env" "ce_chance env" "ce_minRouterCost env"
      "cp_source params" "Some (cp_client params)" iid] xt
  obtain r x' where sel: "selectPath (ce_ords env) (ce_sort env) (ce_chance env) ?n (ce_minRouterCost env)
      (cp_source params) (Some (cp_client params)) svc iid (ss_xt s) = Some (r, x')" and x': "xt_ok x'"
    and ok: "\<And>c. r = Inr c \<Longrightarrow> xt_strategies x' (sel_strategy c) \<noteq> None \<and> sel_path c \<noteq> [] \<and>
       r_id (routers ?n (last (sel_path c))) = t_router (routing_terminator (sel_terminator c))"
    by (auto simp: env_ok_def simp del: not_None_eq)
  show ?thesis
  proof (cases r)
    case (Inl cause)
    with Some sel x' show ?thesis by (simp add: create_attempt_def abort_create_def emit_def)
  next
    case (Inr c)
    note ok = ok [OF Inr]
    let ?t = "routing_terminator (sel_terminator c)"
    show ?thesis
    proof (cases "CreatePathWithNodes ?n (ce_ingress env) (ce_egress env) (sel_path c)")
      case (Inl e)
      with Some sel x' \<open>r = Inr c\<close> show ?thesis
        by (cases e) (simp add: create_attempt_def abort_create_def emit_def)
    next
      case (Inr path)
      note len = CreatePathWithNodes_lengths [OF this]
      let ?rms = "CreateRouteMessages ?n path attempt cid (t_binding ?t) (t_address ?t) (ce_remaining env)"
      note rm = route_messages_nth [of ?n path attempt cid "t_binding ?t" "t_address ?t" "ce_remaining env"]
      have lens: "length ?rms = Suc (length (Links path))" using rm by blast
      then have rms: "length ?rms = length (Nodes path)" "?rms \<noteq> []" using len ok by auto
      from rms(2) lens have "last ?rms = ?rms ! length (Links path)" by (simp add: last_conv_nth)
      with rm att have egress: "rt_egress (last ?rms) \<noteq> None" by (metis le_refl)
      let ?s1 = "s\<lparr>ss_xt := x'\<rparr>"
      have "sender_ok (sel_strategy c) ?s1" using ok x' by (simp add: sender_ok_def)
      moreover from deadline_mem [OF arr(1)] obtain now where "DeadlinePassed now \<in> set arr" by blast
      ultimately obtain pd cl err rest s' where
        send: "sender_route ?n attempt path ?rms (sel_strategy c) ?t arr ?s1 = Some ((pd, cl, err), rest, s')"
        and s': "sender_ok (sel_strategy c) s'"
        using sender_route_ends [of "sel_strategy c" ?s1 now arr path ?rms ?n attempt ?t] rms(1) by force
      have wait: "route_wait ?n attempt path (sel_strategy c) ?t arr None (route_send ?n path ?rms ?s1) =
          Some ((pd, cl, err), rest, s')"
        using send rms(1) by (simp add: sender_route_def)
      have "t_router ?t \<in> path_ids ?n path" using ok len by (metis imageI last_in_set)
      from attendance_sent [OF _ this, of ?rms ?s1] rms(1)
      have "map_of (attendance (route_send ?n path ?rms ?s1)) (t_router ?t) = Some False" by simp
      with route_wait_peerData wait arr(2) have "err = None \<longrightarrow> pd \<noteq> None" by fastforce
      moreover have "xt_ok (ss_xt s')" using s' by (simp add: sender_ok_def)
      ultimately show ?thesis using Some sel \<open>r = Inr c\<close> Inr rms egress send route_wait_deadlines [OF wait]
        by (cases err) (simp_all add: create_attempt_def Let_def emit_def)
    qed
  qed
qed

lemma finish_create_total:
  "pd \<noteq> None \<Longrightarrow> finish_create params env cid sid all path t pd sd s \<noteq> None"
  by (auto simp: finish_create_def circuit_peerData_def Let_def)

lemma small_attempt: "k < unat (r :: 32 word) \<Longrightarrow> unat r \<le> 99969996 \<Longrightarrow> of_nat k \<noteq> SmartRerouteAttempt"
proof
  assume "k < unat r" "unat r \<le> 99969996" "of_nat k = SmartRerouteAttempt"
  then have "unat (of_nat k :: 32 word) = 99969996" by (simp add: SmartRerouteAttempt_def)
  moreover have "unat (of_nat k :: 32 word) = k" using \<open>k < unat r\<close> \<open>unat r \<le> 99969996\<close>     by (simp add: unat_of_nat take_bit_nat_eq_self)
  ultimately show False using \<open>k < unat r\<close> \<open>unat r \<le> 99969996\<close> by simp
qed

lemma create_loop_total:
  fixes env :: "nat \<Rightarrow> 'f create_env"
  assumes "\<forall>k. env_ok (env k)" "xt_ok (ss_xt s)" "\<forall>a \<in> set arr. answer_ok a" "keys_distinct (attendance s)"
    and "unat retries - k \<le> deadlines arr" "k < unat retries" "unat retries \<le> 99969996"
  shows "create_loop params retries env cid sid iid k all arr s \<noteq> None"
  using assms
proof (induction params retries env cid sid iid k all arr s rule: create_loop.induct)
  case (1 params retries env cid sid iid k all arr s)
  note total = 1(2-8)
  have "env_ok (env k)" "0 < deadlines arr" "of_nat k \<noteq> SmartRerouteAttempt"
    using total(1,5,6,7) small_attempt by auto
  from create_attempt_total [OF this(1) total(2) this(2) total(3) this(3), of params cid sid iid]
  obtain oc rest s' where ca: "create_attempt params (env k) cid sid iid (of_nat k) arr s = Some (oc, rest, s')"
    and post: "xt_ok (ss_xt s')" "deadlines arr \<le> deadlines rest + 1"
      "\<And>path t pd sd. oc = Routed path t pd sd \<Longrightarrow> pd \<noteq> None" by blast
  from create_attempt_leaves [OF ca total(4)] total(4) have kd: "keys_distinct (attendance s')"
    and answers: "\<forall>a \<in> set rest. answer_ok a" using total(3) by (auto simp: leaves_def)
  show ?case
  proof (cases oc)
    case (Aborted err)
    with ca show ?thesis by (simp add: create_loop.simps [of params])
  next
    case (Routed path t pd sd)
    with post(3) have "pd \<noteq> None" by blast
    from finish_create_total [OF this, of params "env k" cid sid all path t sd s'] Routed ca show ?thesis
      by (auto simp: create_loop.simps [of params])
  next
    case (RouteFailed cause ids)
    show ?thesis
    proof (cases "k + 1 < unat retries")
      case True
      have "unat retries - (k + 1) \<le> deadlines rest" using total(5) post(2) by simp
      from 1(1) [OF ca refl RouteFailed refl refl True total(1) post(1) answers kd this True total(7)] RouteFailed ca True
      show ?thesis by (simp add: create_loop.simps [of params _ _ _ _ _ k] Let_def del: not_None_eq)
    next
      case False
      with RouteFailed ca show ?thesis by (simp add: create_loop.simps [of params] Let_def)
    qed
  qed
qed

section \<open>A creation with one failed attempt\<close>

definition demo_answer :: "32 word \<Rightarrow> string \<Rightarrow> bool \<Rightarrow> arrival" where
  "demo_answer attempt r ok = Arrived 0 \<lparr>rs_router = r, rs_circuitId = ''c1'', rs_attempt = attempt, rs_success = ok,
     rs_peerData = Some [], rs_errorCode = (if ok then None else Some 3)\<rparr>"

definition demo_env :: "nat \<Rightarrow> int create_env" where
  "demo_env k = \<lparr>ce_net = demo_triangle, ce_minRouterCost = 10,
     ce_service = (\<lambda>i. if i = ''svc'' then Some (demo_service ''smartrouting'') else None), ce_ords = (\<lambda>_. id), ce_sort = id,
     ce_chance = demo_chance, ce_ingress = Some ''in'', ce_egress = Some ''out'', ce_remaining = 1000,
     ce_cleanupOrd = id, ce_now = 7\<rparr>"

definition demo_params :: circuit_params where
  "demo_params = \<lparr>cp_source = Some 0, cp_client = \<lparr>tk_token = ''client'', tk_data = []\<rparr>, cp_service = ''svc'',
     cp_tags = (\<lambda>_. [])\<rparr>"

definition demo_circuits :: cstate where
  "demo_circuits = \<lparr>circuits = [], circuit_objs = (\<lambda>_. \<lparr>c_id = '''', c_clientId = '''', c_serviceId = '''',
     c_terminator = \<lparr>RouteCost = 0, routing_terminator = new_Terminator\<rparr>, c_path = demo_path, c_tags = [],
     c_rerouting = False, c_peerData = None, c_createdAt = 0, c_updatedAt = 0\<rparr>), next_circuit = 0,
     cs_xt = registerXts empty_xt, cs_effects = []\<rparr>"

definition demo_create :: "arrival list \<Rightarrow> ((create_error + circuit_ref) \<times> arrival list \<times> cstate) option" where
  "demo_create arr = CreateCircuit demo_params 2 demo_env (Some ''c1'') arr demo_circuits"

definition demo_failure :: "arrival list" where
  "demo_failure = [demo_answer 0 ''b'' True, demo_answer 0 ''c'' False]"

definition demo_success :: "arrival list" where
  "demo_success = [demo_answer 0 ''a'' True, demo_answer 1 ''a'' True, demo_answer 1 ''b'' True, demo_answer 1 ''c'' True]"

lemma demo_env_ok: "env_ok (demo_env k)"
  using demo_triangle_reachable demo_triangle_costs demo_service_prec [of "''smartrouting''"]
  by (simp add: env_ok_def demo_env_def)

lemma demo_create_ok:
  "\<exists>c'. demo_create (demo_failure @ demo_success) = Some (Inr 0, [], c') \<and> c_id (circuit_objs c' 0) = ''c1''"
proof -
  have ev: "(case demo_create (demo_failure @ demo_success) of
      Some (Inr r, rest, c') \<Rightarrow> r = 0 \<and> rest = [] \<and> c_id (circuit_objs c' 0) = ''c1'' | _ \<Rightarrow> False)"
    by code_simp
  then obtain res rest c' where "demo_create (demo_failure @ demo_success) = Some (res, rest, c')"
    by (cases "demo_create (demo_failure @ demo_success)") auto
  with ev show ?thesis by (cases res) auto
qed

lemma demo_create_fails:
  "\<exists>c' cause. demo_create (demo_failure @ [DeadlinePassed 5]) = Some (Inl (RetriesExceeded cause), [], c') \<and>
     filter is_unroute (cs_effects c') = [UnrouteMsg 1 ''c1'' True]"
proof -
  have ev: "(case demo_create (demo_failure @ [DeadlinePassed 5]) of
      Some (Inl (RetriesExceeded cause), rest, c') \<Rightarrow> rest = [] \<and>
        filter is_unroute (cs_effects c') = [UnrouteMsg 1 ''c1'' True] | _ \<Rightarrow> False)"
    by code_simp
  then obtain res rest c' where X: "demo_create (demo_failure @ [DeadlinePassed 5]) = Some (res, rest, c')"
    by (cases "demo_create (demo_failure @ [DeadlinePassed 5])") auto
  with ev obtain e where "res = Inl e" by (cases res) auto
  with ev X show ?thesis by (cases e) auto
qed

section \<open>Properties\<close>

text \<open>The attempts a call of \<open>CreateCircuit\<close> makes.\<close>

definition creation_attempts ::
  "circuit_params \<Rightarrow> (nat \<Rightarrow> 'f create_env) \<Rightarrow> string \<Rightarrow> arrival list \<Rightarrow> cstate \<Rightarrow> nat \<Rightarrow>
   (attempt_outcome \<times> arrival list \<times> sender_state) option" where
  "creation_attempts params env cid arr c =
     (let (iid, sid) = parseInstanceIdAndService (cp_service params)
      in attempt_at params env cid sid iid arr (newRouteSender (cs_xt c)))"

lemma creation_attempts_eq:
  "creation_attempts params env cid arr c = attempt_at params env cid (snd (parseInstanceIdAndService (cp_service params)))
     (fst (parseInstanceIdAndService (cp_service params))) arr (newRouteSender (cs_xt c))"
  by (simp add: creation_attempts_def split: prod.split)

lemma new_sender_keys: "keys_distinct (attendance (newRouteSender x))"
  by (simp add: newRouteSender_def)

lemma quiet_new_sender: "quiet (newRouteSender x) s \<Longrightarrow> filter is_unroute (ss_effects s) = []"
  by (simp add: quiet_def newRouteSender_def)

text \<open>
  C4. When \<open>CreateCircuit\<close> succeeds, the circuit is in the table under the new id and no other
  entry changed. Its path is that of the last attempt, every router on it has acknowledged the
  route of that very attempt, and all attempts before it failed. Exactly the connected routers
  that acknowledged one of those and are not on the path are told to drop their routes.
\<close>

theorem created_circuit_is_routed:
  fixes env :: "nat \<Rightarrow> 'f create_env"
  assumes "CreateCircuit params retries env (Some cid) arr c = Some (Inr r, rest, c')"
  shows "\<exists>k path t pd sd s1 used us.
    creation_attempts params env cid arr c k = Some (Routed path t pd sd, rest, s1) \<and> k < max 1 (unat retries) \<and>
    map_of (circuits c') = (map_of (circuits c))(cid \<mapsto> r) \<and>
    c_id (circuit_objs c' r) = cid \<and> c_terminator (circuit_objs c' r) = t \<and>
    Nodes (c_path (circuit_objs c' r)) = Nodes path \<and> Links (c_path (circuit_objs c' r)) = Links path \<and>
    set used \<subseteq> set arr \<and> (\<forall>i \<in> path_ids (ce_net (env k)) path. acked (of_nat k) used i) \<and>
    filter is_unroute (cs_effects c') = filter is_unroute (cs_effects c) @ us \<and>
    set us = {UnrouteMsg q cid True | q. \<exists>j < k. \<exists>i \<in> set (failed_ids (creation_attempts params env cid arr c j)).
      i \<notin> path_ids (ce_net (env k)) path \<and> GetConnected (ce_net (env k)) i = Some q}"
proof (cases rule: CreateCircuit_run [OF assms creation_attempts_eq])
  case (1 k res' s')
  let ?at = "creation_attempts params env cid arr c"
  from 1(4) obtain circ where circ: "res' = Inr circ" by (cases res') auto
  with 1(3) obtain path t pd sd s1 where at: "?at k = Some (Routed path t pd sd, rest, s1)"
    and fin: "finish_create params (env k) cid (snd (parseInstanceIdAndService (cp_service params)))
      (collected ?at k) path t pd sd s1 = Some (circ, s')"
    by (auto simp: creation_ends_def)
  note fc = finish_create_effects [OF fin] and up = 1(5) [OF circ]
  from attempt_input [OF at [unfolded creation_attempts_eq] new_sender_keys] obtain arr0 s0 where
    ca: "create_attempt params (env k) cid (snd (parseInstanceIdAndService (cp_service params)))
      (fst (parseInstanceIdAndService (cp_service params))) (of_nat k) arr0 s0 = Some (Routed path t pd sd, rest, s1)"
    and lv: "leaves arr (newRouteSender (cs_xt c)) arr0 s0" "leaves arr (newRouteSender (cs_xt c)) rest s1"
    and kd: "keys_distinct (attendance s0)" by blast
  obtain used where used: "set used \<subseteq> set arr" "\<forall>i \<in> path_ids (ce_net (env k)) path. acked (of_nat k) used i"
    using ca
  proof (cases rule: create_attempt_cases)
    case (routed svc sel x path' rms pd' cl)
    have "keys_distinct (attendance (s0\<lparr>ss_xt := x\<rparr>))" using kd by simp
    from route_attempt_acked [OF routed(4) this] obtain used where "arr0 = used @ rest"
      "\<forall>i \<in> path_ids (ce_net (env k)) path'. acked (of_nat k) used i" by blast
    with routed(5) lv(1) show ?thesis by (intro that [of used]) (auto simp: leaves_def)
  qed auto
  let ?us = "unroute_all (ce_net (env k)) (ce_cleanupOrd (env k)) cid
    (filter (\<lambda>i. i \<notin> path_ids (ce_net (env k)) path) (collected ?at k))"
  have "filter is_unroute (ss_effects s1) = []" using lv(2) by (auto simp: leaves_def intro: quiet_new_sender)
  then have us: "filter is_unroute (cs_effects c') = filter is_unroute (cs_effects c) @ ?us"
    using up fc(1) by (simp add: filter_unroute_all)
  have set_us: "set ?us = {UnrouteMsg q cid True | q. \<exists>j < k. \<exists>i \<in> set (failed_ids (?at j)).
      i \<notin> path_ids (ce_net (env k)) path \<and> GetConnected (ce_net (env k)) i = Some q}"
    unfolding set_unroute_all by (auto simp: set_collected)
  have "map_of (circuits c') = (map_of (circuits c))(cid \<mapsto> r)" "circuit_objs c' r = circ"
    using up fc(2) by auto
  with at 1(2) fc(2-5) used us set_us show ?thesis by (intro exI conjI) (assumption | simp only:)+
qed

theorem created_circuit_is_routed_witness:
  "\<exists>c'. demo_create (demo_failure @ demo_success) = Some (Inr 0, [], c') \<and>
     map_of (circuits c') ''c1'' = Some 0 \<and> c_id (circuit_objs c' 0) = ''c1''"
proof -
  from demo_create_ok obtain c' where c': "demo_create (demo_failure @ demo_success) = Some (Inr 0, [], c')" by blast
  from created_circuit_is_routed [OF c' [unfolded demo_create_def]] c' show ?thesis by auto
qed

text \<open>
  C30. When \<open>CreateCircuit\<close> fails, the circuit table is as before. If the retries are used up,
  exactly the connected routers that acknowledged one of the attempts are told to drop their
  routes. If instead a later attempt finds no service, no terminator or no path, the call returns
  at once and no router of the attempts before is told anything.
\<close>

theorem failed_creation_cleanup:
  fixes env :: "nat \<Rightarrow> 'f create_env"
  assumes "CreateCircuit params retries env (Some cid) arr c = Some (Inl err, rest, c')"
  shows "circuits c' = circuits c \<and> circuit_objs c' = circuit_objs c \<and>
    (\<exists>k us. (\<forall>j < k. \<exists>cause ids rest s. creation_attempts params env cid arr c j = Some (RouteFailed cause ids, rest, s)) \<and>
      filter is_unroute (cs_effects c') = filter is_unroute (cs_effects c) @ us \<and>
      (case err of
         RetriesExceeded cause \<Rightarrow> k + 1 = max 1 (unat retries) \<and>
           set us = {UnrouteMsg q cid True | q. \<exists>j \<le> k. \<exists>i \<in> set (failed_ids (creation_attempts params env cid arr c j)).
             GetConnected (ce_net (env k)) i = Some q}
       | _ \<Rightarrow> us = []))"
proof (cases rule: CreateCircuit_run [OF assms creation_attempts_eq])
  case (1 k res' s')
  let ?at = "creation_attempts params env cid arr c"
  have res': "res' = Inl err" using 1(4) 1(5) by (cases res') auto
  note up = 1(4) [OF this]
  have quiet: "filter is_unroute (ss_effects s1) = []" if "?at k = Some (oc, rest', s1)" for oc rest' s1
    using attempt_input [OF that [unfolded creation_attempts_eq] new_sender_keys]
    by (auto simp: leaves_def intro: quiet_new_sender)
  from 1(3) res' consider
      (abort) "?at k = Some (Aborted err, rest, s')"
    | (out) cause ids s1 where "?at k = Some (RouteFailed cause ids, rest, s1)" "unat retries \<le> k + 1"
        "err = RetriesExceeded cause"
        "s' = emit (unroute_all (ce_net (env k)) (ce_cleanupOrd (env k)) cid (collected ?at (Suc k))) s1"
    by (auto simp: creation_ends_def)
  then show ?thesis
  proof cases
    case abort
    from attempt_input [OF abort [unfolded creation_attempts_eq] new_sender_keys] obtain arr0 s0 where
      "create_attempt params (env k) cid (snd (parseInstanceIdAndService (cp_service params)))
        (fst (parseInstanceIdAndService (cp_service params))) (of_nat k) arr0 s0 = Some (Aborted err, rest, s')" by blast
    then have "err \<noteq> RetriesExceeded cause" for cause by (cases rule: create_attempt_cases) auto
    with up quiet [OF abort] 1(1) show ?thesis by (intro conjI exI [of _ k] exI [of _ "[]"]) (simp_all split: create_error.split)
  next
    case out
    let ?us = "unroute_all (ce_net (env k)) (ce_cleanupOrd (env k)) cid (collected ?at (Suc k))"
    have "filter is_unroute (cs_effects c') = filter is_unroute (cs_effects c) @ ?us"
      using up quiet [OF out(1)] out(4) by (simp add: emit_def filter_unroute_all del: collected.simps)
    moreover have "k + 1 = max 1 (unat retries)" using 1(2) out(2) by simp
    moreover have "set ?us = {UnrouteMsg q cid True | q. \<exists>j \<le> k. \<exists>i \<in> set (failed_ids (?at j)).
        GetConnected (ce_net (env k)) i = Some q}"
      unfolding set_unroute_all set_collected lessThan_Suc_atMost by blast
    ultimately show ?thesis using up 1(1) out(3) by (intro conjI exI [of _ k] exI [of _ ?us]) (simp_all del: collected.simps)
  qed
qed

theorem failed_creation_cleanup_witness:
  "\<exists>c' cause. demo_create (demo_failure @ [DeadlinePassed 5]) = Some (Inl (RetriesExceeded cause), [], c') \<and>
     circuits c' = [] \<and> filter is_unroute (cs_effects c') = [UnrouteMsg 1 ''c1'' True]"
proof -
  from demo_create_fails obtain c' cause where
    c': "demo_create (demo_failure @ [DeadlinePassed 5]) = Some (Inl (RetriesExceeded cause), [], c')"
      "filter is_unroute (cs_effects c') = [UnrouteMsg 1 ''c1'' True]" by blast
  have "circuits demo_circuits = []" by (simp add: demo_circuits_def)
  with failed_creation_cleanup [OF c'(1) [unfolded demo_create_def]] c' show ?thesis by auto
qed

text \<open>
  C31. \<open>CreateCircuit\<close> returns: in consistent networks with a positive number of retries, as many
  deadlines among the arrivals as there are retries are enough, and no step on the way panics.
  The routers' successful answers carry peer data, as the handler that decodes them provides.
\<close>

theorem creation_returns:
  fixes env :: "nat \<Rightarrow> 'f create_env"
  assumes "\<forall>k. env_ok (env k)" "xt_ok (cs_xt c)" "\<forall>a \<in> set arr. answer_ok a"
    and "0 < unat retries" "unat retries \<le> 99969996" "unat retries \<le> deadlines arr"
  shows "\<exists>res rest c'. CreateCircuit params retries env newId arr c = Some (res, rest, c')"
proof (cases newId)
  case None
  then show ?thesis by (simp add: CreateCircuit_def split: prod.split)
next
  case (Some cid)
  obtain iid sid where p: "parseInstanceIdAndService (cp_service params) = (iid, sid)" by fastforce
  have "create_loop params retries env cid sid iid 0 [] arr (newRouteSender (cs_xt c)) \<noteq> None"
    by (rule create_loop_total [OF assms(1) _ assms(3) new_sender_keys])
      (use assms in \<open>simp_all add: newRouteSender_def\<close>)
  then show ?thesis using Some p by (auto simp: CreateCircuit_def Let_def split: sum.split prod.split)
qed

theorem creation_returns_witness:
  "\<exists>res rest c'. CreateCircuit demo_params 2 demo_env (Some ''c1'') [DeadlinePassed 5, DeadlinePassed 6] demo_circuits =
     Some (res, rest, c')"
proof -
  have "xt_ok (cs_xt demo_circuits)"
    by (simp add: xt_ok_def demo_circuits_def registerXts_def RegisterFactory_def empty_xt_def)
  then show ?thesis
    by (intro creation_returns) (simp_all add: demo_env_ok deadlines_def)
qed

end
