(* ===== verification/Circuit_Reroute.thy ===== *)
theory Circuit_Reroute
  imports Circuits
begin

text \<open>
  What removal and rerouting of circuits guarantee: the invariant of the circuit table, that a
  circuit which cannot be rerouted is removed and unrouted, that no circuit is left on a lost link
  or on a deleted end point, and the limits of smart rerouting.
\<close>

section \<open>The circuit table\<close>

definition cs_inv :: "cstate \<Rightarrow> bool" where
  "cs_inv s \<longleftrightarrow> keys_distinct (circuits s) \<and>
     (\<forall>i r. map_of (circuits s) i = Some r \<longrightarrow> c_id (circuit_objs s r) = i \<and> r < next_circuit s)"

lemma cs_invD:
  assumes "cs_inv s" "map_of (circuits s) i = Some r"
  shows "c_id (circuit_objs s r) = i" "r < next_circuit s"
  using assms by (auto simp: cs_inv_def)

text \<open>An operation on circuit \<open>c\<close> that leaves the table and all other circuits alone.\<close>

definition only_circuit :: "circuit_ref \<Rightarrow> cstate \<Rightarrow> cstate \<Rightarrow> bool" where
  "only_circuit c s s' \<longleftrightarrow> circuits s' = circuits s \<and> next_circuit s' = next_circuit s \<and> cs_xt s' = cs_xt s \<and>
     c_id (circuit_objs s' c) = c_id (circuit_objs s c) \<and> (\<forall>r. r \<noteq> c \<longrightarrow> circuit_objs s' r = circuit_objs s r)"

lemma only_circuit_refl [simp]: "only_circuit c s s"
  by (simp add: only_circuit_def)

lemma only_circuit_trans: "only_circuit c s s1 \<Longrightarrow> only_circuit c s1 s2 \<Longrightarrow> only_circuit c s s2"
  by (simp add: only_circuit_def)

lemma only_circuit_emit [simp]: "only_circuit c s (cs_emit es s') = only_circuit c s s'"
  by (simp add: only_circuit_def cs_emit_def)

lemma only_circuit_set:
  "(\<And>x. c_id (f x) = c_id x) \<Longrightarrow> only_circuit c s s' \<Longrightarrow> only_circuit c s (set_circuit c f s')"
  by (auto simp: only_circuit_def set_circuit_def)

lemma only_circuit_id: "only_circuit c s s' \<Longrightarrow> c_id (circuit_objs s' r) = c_id (circuit_objs s r)"
  by (cases "r = c") (simp_all add: only_circuit_def)

lemma only_circuit_inv:
  assumes "only_circuit c s s'" "cs_inv s"
  shows "cs_inv s'"
proof -
  have "circuits s' = circuits s" "next_circuit s' = next_circuit s" using assms(1) by (simp_all add: only_circuit_def)
  with only_circuit_id [OF assms(1)] assms(2) show ?thesis by (simp add: cs_inv_def)
qed

lemma objs_set_circuit [simp]: "circuit_objs (set_circuit c f s) c = f (circuit_objs s c)"
  by (simp add: set_circuit_def)

lemma objs_emit [simp]: "circuit_objs (cs_emit es s) = circuit_objs s"
  by (simp add: cs_emit_def)

section \<open>Removal\<close>

lemma RemoveCircuit_cases:
  assumes "RemoveCircuit rd time i now s = Some (ok, s')"
  obtains (unknown) "circuit_Get s i = None" "\<not> ok" "s' = s"
    | (removed) c where "circuit_Get s i = Some c" "ok"
      "circuits s' = AList.delete (c_id (circuit_objs s c)) (circuits s)" "circuit_objs s' = circuit_objs s"
      "next_circuit s' = next_circuit s"
      "cs_effects s' = cs_effects s @ map (\<lambda>r. UnrouteMsg r (c_id (circuit_objs s c)) now) (Nodes (c_path (circuit_objs s c))) @
         [CircuitEvent CircuitDeleted (c_id (circuit_objs s c))]"
  using assms
  by (auto simp: RemoveCircuit_def Let_def circuit_Remove_def cs_emit_def split: option.splits prod.splits)

lemma RemoveCircuit_inv: "RemoveCircuit rd time i now s = Some (ok, s') \<Longrightarrow> cs_inv s \<Longrightarrow> cs_inv s'"
  by (cases rule: RemoveCircuit_cases, assumption)
    (auto simp: cs_inv_def circuit_Get_def keys_distinct_delete split: if_splits)

lemma RemoveCircuit_known:
  assumes "cs_inv s" "map_of (circuits s) i = Some c" "RemoveCircuit rd time i now s = Some (ok, s')"
  shows "ok" "map_of (circuits s') = (map_of (circuits s))(i := None)" "circuit_objs s' = circuit_objs s"
    "cs_effects s' = cs_effects s @ map (\<lambda>r. UnrouteMsg r i now) (Nodes (c_path (circuit_objs s c))) @
       [CircuitEvent CircuitDeleted i]"
proof -
  have *: "ok \<and> map_of (circuits s') = (map_of (circuits s))(i := None) \<and> circuit_objs s' = circuit_objs s \<and>
    cs_effects s' = cs_effects s @ map (\<lambda>r. UnrouteMsg r i now) (Nodes (c_path (circuit_objs s c))) @
       [CircuitEvent CircuitDeleted i]"
    using assms(3)
  proof (cases rule: RemoveCircuit_cases)
    case unknown
    with assms(2) show ?thesis by (simp add: circuit_Get_def)
  next
    case (removed d)
    with assms(2) have "d = c" by (simp add: circuit_Get_def)
    with removed cs_invD(1) [OF assms(1,2)] show ?thesis by simp
  qed
  then show "ok" "map_of (circuits s') = (map_of (circuits s))(i := None)" "circuit_objs s' = circuit_objs s"
    "cs_effects s' = cs_effects s @ map (\<lambda>r. UnrouteMsg r i now) (Nodes (c_path (circuit_objs s c))) @
       [CircuitEvent CircuitDeleted i]" by blast+
qed

section \<open>One reroute\<close>

lemma set_circuit_twice: "set_circuit c f (set_circuit c g s) = set_circuit c (\<lambda>x. f (g x)) s"
  by (simp add: set_circuit_def)

lemma set_circuit_id: "f (circuit_objs s c) = circuit_objs s c \<Longrightarrow> set_circuit c f s = s"
  by (simp add: set_circuit_def)

lemma set_circuit_emit: "set_circuit c f (cs_emit es s) = cs_emit es (set_circuit c f s)"
  by (simp add: set_circuit_def cs_emit_def)

lemma emit_emit: "cs_emit es (cs_emit fs s) = cs_emit (fs @ es) s"
  by (simp add: cs_emit_def)

lemmas circuit_updates = set_circuit_twice set_circuit_emit emit_emit objs_set_circuit objs_emit

lemma rerouteCircuit_fails:
  assumes "\<not> c_rerouting (circuit_objs s c)"
    "UpdatePath (re_ord env) (re_net env) (re_minRouterCost env) (c_path (circuit_objs s c)) = Some (Inl e)"
  shows "rerouteCircuit env c s = Some (Some e, s)"
proof -
  have "set_circuit c (\<lambda>x. x\<lparr>c_rerouting := True, c_rerouting := False\<rparr>) s = s"
    using assms(1) by (intro set_circuit_id) simp
  with assms show ?thesis by (simp add: rerouteCircuit_def Let_def circuit_updates)
qed

lemma reroute_msgs_same:
  "reroute_msgs env (x\<lparr>c_rerouting := b, c_path := p, c_updatedAt := t\<rparr>) cq = reroute_msgs env x cq"
  by (simp add: reroute_msgs_def)

lemma rerouteCircuit_succeeds:
  assumes "\<not> c_rerouting (circuit_objs s c)"
    "UpdatePath (re_ord env) (re_net env) (re_minRouterCost env) (c_path (circuit_objs s c)) = Some (Inr cq)"
    "rerouteCircuit env c s = Some (err, s')"
  shows "err = None \<and> only_circuit c s s' \<and>
    circuit_objs s' c = (circuit_objs s c)\<lparr>c_path := cq, c_updatedAt := re_now env, c_rerouting := False\<rparr> \<and>
    cs_effects s' = cs_effects s @ map (\<lambda>(r, m). RouteMsg r m) (zip (Nodes cq) (reroute_msgs env (circuit_objs s c) cq)) @
      [CircuitEvent CircuitUpdated (c_id (circuit_objs s c))]"
proof -
  let ?f = "\<lambda>x. x\<lparr>c_rerouting := True, c_path := cq, c_updatedAt := re_now env, c_rerouting := False\<rparr>"
  let ?es = "map (\<lambda>(r, m). RouteMsg r m) (zip (Nodes cq) (reroute_msgs env (circuit_objs s c) cq)) @
      [CircuitEvent CircuitUpdated (c_id (circuit_objs s c))]"
  from assms have "err = None" "s' = cs_emit ?es (set_circuit c ?f s)"
    by (simp_all add: rerouteCircuit_def Let_def circuit_updates reroute_msgs_same split: if_splits)
  then show ?thesis by (simp add: only_circuit_def set_circuit_def cs_emit_def)
qed

lemma rerouteCircuit_cases:
  assumes "rerouteCircuit env c s = Some (err, s')"
  obtains (busy) "c_rerouting (circuit_objs s c)" "err = None" "s' = s"
    | (failed) e where "\<not> c_rerouting (circuit_objs s c)" "err = Some e" "only_circuit c s s'" "cs_effects s' = cs_effects s"
      "circuit_objs s' c = circuit_objs s c"
      "UpdatePath (re_ord env) (re_net env) (re_minRouterCost env) (c_path (circuit_objs s c)) = Some (Inl e)"
    | (rerouted) cq where "\<not> c_rerouting (circuit_objs s c)" "err = None" "only_circuit c s s'"
      "UpdatePath (re_ord env) (re_net env) (re_minRouterCost env) (c_path (circuit_objs s c)) = Some (Inr cq)"
      "circuit_objs s' c = (circuit_objs s c)\<lparr>c_path := cq, c_updatedAt := re_now env, c_rerouting := False\<rparr>"
      "cs_effects s' = cs_effects s @ map (\<lambda>(r, m). RouteMsg r m) (zip (Nodes cq) (reroute_msgs env (circuit_objs s c) cq)) @
         [CircuitEvent CircuitUpdated (c_id (circuit_objs s c))]"
proof (cases "c_rerouting (circuit_objs s c)")
  case True
  with assms have "err = None" "s' = s" by (simp_all add: rerouteCircuit_def)
  with True show thesis by (rule busy)
next
  case False
  let ?U = "UpdatePath (re_ord env) (re_net env) (re_minRouterCost env) (c_path (circuit_objs s c))"
  have "?U \<noteq> None" using assms False by (cases ?U) (simp_all add: rerouteCircuit_def Let_def circuit_updates)
  then obtain u where u: "?U = Some u" by blast
  show thesis
  proof (cases u)
    case (Inl e)
    from rerouteCircuit_fails [OF False u [unfolded Inl]] assms have "err = Some e" "s' = s" by simp_all
    then show thesis by (intro failed [OF False _ _ _ _ u [unfolded Inl]]) simp_all
  next
    case (Inr cq)
    note new = rerouteCircuit_succeeds [OF False u [unfolded Inr] assms]
    show thesis by (rule rerouted [OF False _ _ u [unfolded Inr]]) (simp_all only: new)
  qed
qed

lemma rerouteCircuit_only: "rerouteCircuit env c s = Some (err, s') \<Longrightarrow> only_circuit c s s'"
  by (cases rule: rerouteCircuit_cases) auto

lemma remove_failed_SomeD: "remove_failed env c s = Some s' \<Longrightarrow>
    \<exists>ok. RemoveCircuit (re_service env) (re_now env) (c_id (circuit_objs s c)) True s = Some (ok, s')"
  by (auto simp: remove_failed_def split: option.splits prod.splits)

section \<open>Well-formed circuits\<close>

definition in_table :: "cstate \<Rightarrow> circuit_ref \<Rightarrow> bool" where
  "in_table s c \<longleftrightarrow> map_of (circuits s) (c_id (circuit_objs s c)) = Some c"

definition cs_ok :: "cstate \<Rightarrow> bool" where
  "cs_ok s \<longleftrightarrow> cs_inv s \<and> xt_ok (cs_xt s) \<and>
     (\<forall>c. in_table s c \<longrightarrow> Nodes (c_path (circuit_objs s c)) \<noteq> [])"

definition live_env :: "reroute_env \<Rightarrow> bool" where
  "live_env env \<longleftrightarrow> net_reachable (re_net env) \<and> costs_bounded (re_net env)"

lemma in_table_iff: "cs_inv s \<Longrightarrow> in_table s c \<longleftrightarrow> (\<exists>i. map_of (circuits s) i = Some c)"
  by (auto simp: in_table_def dest: cs_invD(1))

lemma setLinks_lengths:
  assumes "setLinks n p = Inr q" "Nodes p \<noteq> []" "Links p = []"
  shows "Nodes q = Nodes p" "length (Nodes q) = Suc (length (Links q))" "links_join n (Nodes q) (Links q)"
proof -
  from assms(1) obtain ls where ls: "setLinks_loop n (Nodes p) [] = Inr ls" "q = p\<lparr>Links := ls\<rparr>"
    using assms(3) by (auto simp: setLinks_def split: sum.splits)
  from setLinks_loop_joins [OF ls(1) assms(2)] have j: "links_join n (Nodes p) ls" by auto
  with ls(2) show "Nodes q = Nodes p" "links_join n (Nodes q) (Links q)" by simp_all
  from j ls(2) show "length (Nodes q) = Suc (length (Links q))" by (simp add: links_join_def)
qed

lemma UpdatePath_total:
  assumes "net_reachable n" "costs_bounded n" "Nodes p \<noteq> []"
  shows "\<exists>r. UpdatePath ord n m p = Some r"
proof -
  obtain r where "shortestPath ord n m (Some (hd (Nodes p))) (Some (last (Nodes p))) = Some r"
    using shortestPath_returns [OF assms(1,2)] by blast
  with assms(3) show ?thesis by (cases r) (auto simp: UpdatePath_def Let_def)
qed

lemma UpdatePath_SomeD:
  assumes "UpdatePath ord n m p = Some (Inr q)"
  obtains nodes cost where "shortestPath ord n m (Some (hd (Nodes p))) (Some (last (Nodes p))) = Some (Inr (nodes, cost))"
    "setLinks n (p\<lparr>Nodes := nodes, Links := []\<rparr>) = Inr q" "Nodes p \<noteq> []"
  using assms by (auto simp: UpdatePath_def Let_def split: option.splits sum.splits prod.splits if_splits)

lemma candidate_live:
  assumes inv: "index_inv n" and a: "a \<in> set (AllConnected n)" and l: "candidate_link n a b l"
  shows "l \<in> set (LinkManager_All n)"
proof -
  have net: "net_inv n" and "key_inv n" using inv by (simp_all add: index_inv_def)
  from l have "l \<in> byOf n a (r_id (routers n b))" by (simp add: candidate_link_def)
  with \<open>key_inv n\<close> have "l \<in> allOf n a" unfolding key_inv_def by blast
  with AllConnected_ran [OF net a] inv have "map_of (linkTable n) (l_id (links n l)) = Some l"
    by (auto simp: index_inv_def live_inv_def)
  then show ?thesis by (simp add: All_table [OF net])
qed

lemma UpdatePath_result:
  assumes "net_reachable n" "costs_bounded n" "UpdatePath ord n m p = Some (Inr q)"
  shows "Nodes q \<noteq> []" "hd (Nodes q) = hd (Nodes p)" "last (Nodes q) = last (Nodes p)"
    "length (Nodes q) = Suc (length (Links q))" "\<forall>l \<in> set (Links q). l \<in> set (LinkManager_All n)"
proof -
  note inv = index_inv_reachable [OF assms(1)]
  from UpdatePath_SomeD [OF assms(3)] obtain nodes cost where sp:
    "shortestPath ord n m (Some (hd (Nodes p))) (Some (last (Nodes p))) = Some (Inr (nodes, cost))"
    and sl: "setLinks n (p\<lparr>Nodes := nodes, Links := []\<rparr>) = Inr q" .
  note walk = shortestPath_walk [OF inv assms(2) sp]
  have len: "Nodes q = nodes" "length (Nodes q) = Suc (length (Links q))" "links_join n (Nodes q) (Links q)"
    using setLinks_lengths [OF sl] walk by simp_all
  then show "Nodes q \<noteq> []" "hd (Nodes q) = hd (Nodes p)" "last (Nodes q) = last (Nodes p)"
    "length (Nodes q) = Suc (length (Links q))" using walk by simp_all
  show "\<forall>l \<in> set (Links q). l \<in> set (LinkManager_All n)"
  proof
    fix l assume "l \<in> set (Links q)"
    then obtain i where i: "i < length (Links q)" "Links q ! i = l" by (auto simp: in_set_conv_nth)
    with len have cand: "candidate_link n (nodes ! i) (nodes ! Suc i) l" by (auto simp: links_join_def)
    have "length nodes > 1" using len i by (cases "Links q") auto
    with walk have "hd (Nodes p) \<noteq> last (Nodes p)" by auto
    with walk len(1,2) i(1) have "nodes ! i \<in> set (AllConnected n)" by (metis less_SucI nth_mem subsetD)
    then show "l \<in> set (LinkManager_All n)" by (rule candidate_live [OF inv _ cand])
  qed
qed

lemma rerouteCircuit_total:
  assumes "cs_ok s" "in_table s c" "live_env env"
  shows "\<exists>err s'. rerouteCircuit env c s = Some (err, s') \<and> cs_ok s' \<and> in_table s' c"
proof -
  let ?p = "c_path (circuit_objs s c)"
  have ne: "Nodes ?p \<noteq> []" and inv: "cs_inv s" and xt: "xt_ok (cs_xt s)"
    using assms(1,2) by (simp_all add: cs_ok_def)
  have net: "net_reachable (re_net env)" "costs_bounded (re_net env)" using assms(3) by (simp_all add: live_env_def)
  from UpdatePath_total [OF net ne] obtain u where
    u: "UpdatePath (re_ord env) (re_net env) (re_minRouterCost env) ?p = Some u" by blast
  consider (busy) "c_rerouting (circuit_objs s c)" | (Inl) e where "\<not> c_rerouting (circuit_objs s c)" "u = Inl e"
    | (Inr) q where "\<not> c_rerouting (circuit_objs s c)" "u = Inr q" by (cases u) auto
  then show ?thesis
  proof cases
    case busy
    with assms(1,2) show ?thesis by (simp add: rerouteCircuit_def)
  next
    case (Inl e)
    from rerouteCircuit_fails [OF Inl(1) u [unfolded Inl(2)]] assms(1,2) show ?thesis by simp
  next
    case (Inr q)
    note res = UpdatePath_result [OF net u [unfolded Inr(2)]]
    have "length (reroute_msgs env x q) = Suc (length (Links q))" for x
      unfolding reroute_msgs_def using route_messages_nth by blast
    then have "\<exists>err s'. rerouteCircuit env c s = Some (err, s')"
      using Inr u res(4) by (simp add: rerouteCircuit_def Let_def circuit_updates)
    then obtain err s' where r: "rerouteCircuit env c s = Some (err, s')" by blast
    note new = rerouteCircuit_succeeds [OF Inr(1) u [unfolded Inr(2)] r]
    have objs: "Nodes (c_path (circuit_objs s' d)) \<noteq> []" if "in_table s d" for d
      using that assms(1) new res(1) by (cases "d = c") (simp_all add: cs_ok_def only_circuit_def)
    have tab: "in_table s' d = in_table s d" for d
      using new only_circuit_id [of c s s' d] by (simp add: in_table_def only_circuit_def)
    have "cs_inv s'" using only_circuit_inv new inv by blast
    moreover have "xt_ok (cs_xt s')" using new xt by (simp add: only_circuit_def)
    ultimately show ?thesis using r objs tab assms(2) by (simp add: cs_ok_def)
  qed
qed

lemma RemoveCircuit_total:
  assumes "xt_ok (cs_xt s)"
  shows "\<exists>ok s'. RemoveCircuit rd time i now s = Some (ok, s') \<and> xt_ok (cs_xt s')"
proof (cases "circuit_Get s i")
  case None
  with assms show ?thesis by (auto simp: RemoveCircuit_def)
next
  case (Some c)
  show ?thesis
  proof (cases "rd (c_serviceId (circuit_objs s c))")
    case None
    with Some assms show ?thesis by (auto simp: RemoveCircuit_def Let_def cs_emit_def circuit_Remove_def)
  next
    case (Some svc)
    obtain so x where gs: "GetStrategy (svc_strategy svc) (cs_xt s) = (so, x)" by fastforce
    have x: "xt_ok x" by (rule GetStrategy_ok [OF assms gs])
    show ?thesis
    proof (cases so)
      case None
      with \<open>circuit_Get s i = Some c\<close> Some gs x show ?thesis
        by (auto simp: RemoveCircuit_def Let_def cs_emit_def circuit_Remove_def)
    next
      case (Some strat)
      with gs have "xt_strategies x strat \<noteq> None" using GetStrategy_registered by blast
      from NotifyEvent_ok [OF x this, of time "CircuitRemoved (be_id (routing_terminator (c_terminator (circuit_objs s c))))"]
      \<open>circuit_Get s i = Some c\<close> \<open>rd _ = Some svc\<close> gs Some show ?thesis
        by (auto simp: RemoveCircuit_def Let_def cs_emit_def circuit_Remove_def)
    qed
  qed
qed

lemma remove_failed_total:
  assumes "cs_ok s" "in_table s c"
  shows "\<exists>s'. remove_failed env c s = Some s' \<and> cs_ok s' \<and> circuit_objs s' = circuit_objs s \<and>
    map_of (circuits s') = (map_of (circuits s))(c_id (circuit_objs s c) := None) \<and>
    cs_effects s' = cs_effects s @ map (\<lambda>r. UnrouteMsg r (c_id (circuit_objs s c)) True) (Nodes (c_path (circuit_objs s c))) @
      [CircuitEvent CircuitDeleted (c_id (circuit_objs s c))]"
proof -
  let ?i = "c_id (circuit_objs s c)"
  have inv: "cs_inv s" "xt_ok (cs_xt s)" and tab: "map_of (circuits s) ?i = Some c"
    using assms by (simp_all add: cs_ok_def in_table_def)
  from RemoveCircuit_total [OF inv(2), of "re_service env" "re_now env" ?i True] obtain ok s' where
    rm: "RemoveCircuit (re_service env) (re_now env) ?i True s = Some (ok, s')" "xt_ok (cs_xt s')" by blast
  note known = RemoveCircuit_known [OF inv(1) tab rm(1)]
  have "in_table s d" if "in_table s' d" for d using that known(2,3) by (auto simp: in_table_def split: if_splits)
  then have "cs_ok s'" using assms(1) rm(2) known(3) RemoveCircuit_inv [OF rm(1) inv(1)] by (simp add: cs_ok_def)
  with known rm(1) show ?thesis by (simp add: remove_failed_def)
qed

section \<open>Sweeps over all circuits\<close>

text \<open>
  The handlers for a lost link and a deleted router run over a snapshot of the table and treat
  the circuits that are hit. The body leaves the others alone, and its circuit is afterwards
  out of the table or good; the same then holds of the sweep.
\<close>

definition treats :: "(circuit_ref \<Rightarrow> cstate \<Rightarrow> cstate option) \<Rightarrow> (Circuit \<Rightarrow> bool) \<Rightarrow> (Circuit \<Rightarrow> bool) \<Rightarrow> bool" where
  "treats f hit good \<longleftrightarrow> (\<forall>s c. cs_ok s \<longrightarrow> in_table s c \<longrightarrow>
     (\<exists>s'. f c s = Some s' \<and> cs_ok s' \<and> (\<not> hit (circuit_objs s c) \<longrightarrow> s' = s) \<and>
        (\<forall>d. d \<noteq> c \<longrightarrow> circuit_objs s' d = circuit_objs s d \<and> in_table s' d = in_table s d) \<and>
        (hit (circuit_objs s c) \<longrightarrow> in_table s' c \<longrightarrow> good (circuit_objs s' c))))"

lemma treats_sweep:
  assumes "treats f hit good" "cs_ok s" "distinct cs" "\<forall>c \<in> set cs. in_table s c"
  shows "\<exists>s'. ofold f cs s = Some s' \<and> cs_ok s' \<and>
    (\<forall>c \<in> set cs. hit (circuit_objs s c) \<longrightarrow> in_table s' c \<longrightarrow> good (circuit_objs s' c)) \<and>
    (\<forall>c. c \<notin> set cs \<or> \<not> hit (circuit_objs s c) \<longrightarrow> circuit_objs s' c = circuit_objs s c \<and> in_table s' c = in_table s c)"
  using assms(2-4)
proof (induction cs arbitrary: s)
  case (Cons c cs)
  then have "in_table s c" by simp
  from assms(1) [unfolded treats_def, rule_format, OF Cons.prems(1) this] obtain s1 where
    f: "f c s = Some s1" and ok: "cs_ok s1" and id: "\<not> hit (circuit_objs s c) \<longrightarrow> s1 = s"
    and other: "\<And>d. d \<noteq> c \<Longrightarrow> circuit_objs s1 d = circuit_objs s d \<and> in_table s1 d = in_table s d"
    and done_c: "hit (circuit_objs s c) \<longrightarrow> in_table s1 c \<longrightarrow> good (circuit_objs s1 c)" by blast
  have "\<forall>d \<in> set cs. in_table s1 d" using Cons.prems(2,3) other by (metis distinct.simps(2) list.set_intros(2))
  from Cons.IH [OF ok _ this] Cons.prems(2) obtain s' where s': "ofold f cs s1 = Some s'" "cs_ok s'"
    "\<And>d. d \<in> set cs \<Longrightarrow> hit (circuit_objs s1 d) \<Longrightarrow> in_table s' d \<Longrightarrow> good (circuit_objs s' d)"
    "\<And>d. d \<notin> set cs \<or> \<not> hit (circuit_objs s1 d) \<Longrightarrow> circuit_objs s' d = circuit_objs s1 d \<and> in_table s' d = in_table s1 d"
    by auto
  have c: "circuit_objs s' c = circuit_objs s1 c" "in_table s' c = in_table s1 c"
    using s'(4) [of c] Cons.prems(2) by simp_all
  have "good (circuit_objs s' d)" if "d \<in> set (c # cs)" "hit (circuit_objs s d)" "in_table s' d" for d
    using that s'(3) [of d] c done_c other [of d] by (cases "d = c") auto
  moreover have "circuit_objs s' d = circuit_objs s d \<and> in_table s' d = in_table s d"
    if "d \<notin> set (c # cs) \<or> \<not> hit (circuit_objs s d)" for d
  proof (cases "d = c")
    case True
    with that id c show ?thesis by auto
  next
    case False
    with that other [OF False] s'(4) [of d] show ?thesis by auto
  qed
  ultimately show ?case using f s'(1,2) by auto
qed simp

lemma circuit_All_table:
  assumes "cs_inv s"
  shows "set (circuit_All ord s) = {c. in_table s c}" "distinct (circuit_All ord s)"
proof -
  have kd: "keys_distinct (circuits s)" using assms by (simp add: cs_inv_def)
  show "set (circuit_All ord s) = {c. in_table s c}"
    using in_table_iff [OF assms] kd by (auto simp: circuit_All_def map_of_eq_Some_iff [OF kd] intro: rev_image_eqI)
  have "inj_on snd (set (circuits s))"
    using cs_invD(1) [OF assms] kd by (auto simp: inj_on_def) (metis map_of_is_SomeI)
  then have "distinct (map snd (circuits s))" using kd by (simp add: distinct_map)
  then show "distinct (circuit_All ord s)" by (simp add: circuit_All_def)
qed

lemma treats_all:
  assumes "treats f hit good" "cs_ok s"
  shows "\<exists>s'. ofold f (circuit_All ord s) s = Some s' \<and> cs_ok s' \<and>
    (\<forall>c. in_table s' c \<longrightarrow> in_table s c \<and> (hit (circuit_objs s c) \<longrightarrow> good (circuit_objs s' c))) \<and>
    (\<forall>c. in_table s c \<longrightarrow> \<not> hit (circuit_objs s c) \<longrightarrow> in_table s' c \<and> circuit_objs s' c = circuit_objs s c)"
proof -
  have inv: "cs_inv s" using assms(2) by (simp add: cs_ok_def)
  note all = circuit_All_table [OF inv, of ord]
  from treats_sweep [OF assms all(2)] all(1) obtain s' where s': "ofold f (circuit_All ord s) s = Some s'" "cs_ok s'"
    "\<And>c. in_table s c \<Longrightarrow> hit (circuit_objs s c) \<Longrightarrow> in_table s' c \<Longrightarrow> good (circuit_objs s' c)"
    "\<And>c. \<not> in_table s c \<or> \<not> hit (circuit_objs s c) \<Longrightarrow> circuit_objs s' c = circuit_objs s c \<and> in_table s' c = in_table s c"
    by auto
  have "in_table s c" if "in_table s' c" for c using that s'(4) [of c] by blast
  then show ?thesis using s' by blast
qed

lemma remove_treats:
  assumes "cs_ok s" "in_table s c"
  shows "\<exists>s'. remove_failed env c s = Some s' \<and> cs_ok s' \<and> \<not> in_table s' c \<and>
    (\<forall>d. d \<noteq> c \<longrightarrow> circuit_objs s' d = circuit_objs s d \<and> in_table s' d = in_table s d)"
proof -
  from remove_failed_total [OF assms, of env] obtain s' where s': "remove_failed env c s = Some s'" "cs_ok s'"
    "circuit_objs s' = circuit_objs s" "map_of (circuits s') = (map_of (circuits s))(c_id (circuit_objs s c) := None)" by blast
  have "in_table s' d = in_table s d" if "d \<noteq> c" for d
    using that assms(2) s'(3,4) by (auto simp: in_table_def)
  moreover have "\<not> in_table s' c" using s'(3,4) by (simp add: in_table_def)
  ultimately show ?thesis using s' by simp
qed

lemma only_circuit_table: "only_circuit c s s' \<Longrightarrow> in_table s' d = in_table s d"
  using only_circuit_id [of c s s' d] by (simp add: in_table_def only_circuit_def)

lemma rerouteLink_treats:
  assumes live: "\<And>c. live_env (env c)" and gone: "\<And>c. l \<notin> set (LinkManager_All (re_net (env c)))"
  shows "treats (\<lambda>c s. if UsesLink (c_path (circuit_objs s c)) l then
      (case rerouteCircuit (env c) c s of None \<Rightarrow> None | Some (None, s1) \<Rightarrow> Some s1
       | Some (Some err, s1) \<Rightarrow> remove_failed (env c) c s1) else Some s)
    (\<lambda>x. UsesLink (c_path x) l \<and> \<not> c_rerouting x) (\<lambda>x. \<not> UsesLink (c_path x) l)"
  unfolding treats_def
proof (intro allI impI)
  fix s c
  assume s: "cs_ok s" "in_table s c"
  let ?f = "\<lambda>c s. if UsesLink (c_path (circuit_objs s c)) l then
      (case rerouteCircuit (env c) c s of None \<Rightarrow> None | Some (None, s1) \<Rightarrow> Some s1
       | Some (Some err, s1) \<Rightarrow> remove_failed (env c) c s1) else Some s"
  let ?hit = "UsesLink (c_path (circuit_objs s c)) l \<and> \<not> c_rerouting (circuit_objs s c)"
  let ?post = "\<lambda>s'. ?f c s = Some s' \<and> cs_ok s' \<and> (\<not> ?hit \<longrightarrow> s' = s) \<and>
      (\<forall>d. d \<noteq> c \<longrightarrow> circuit_objs s' d = circuit_objs s d \<and> in_table s' d = in_table s d) \<and>
      (?hit \<longrightarrow> in_table s' c \<longrightarrow> \<not> UsesLink (c_path (circuit_objs s' c)) l)"
  show "\<exists>s'. ?post s'"
  proof (cases "UsesLink (c_path (circuit_objs s c)) l")
    case False
    with s show ?thesis by (intro exI [of _ s]) simp
  next
    case True
    from rerouteCircuit_total [OF s live [of c]] obtain err s1 where
      r: "rerouteCircuit (env c) c s = Some (err, s1)" "cs_ok s1" "in_table s1 c" by blast
    from r(1) show ?thesis
    proof (cases rule: rerouteCircuit_cases)
      case busy
      with s r(1) show ?thesis by (intro exI [of _ s]) simp
    next
      case (failed e)
      from remove_treats [OF r(2,3), of "env c"] obtain s' where s': "remove_failed (env c) c s1 = Some s'" "cs_ok s'"
        "\<not> in_table s' c" "\<forall>d. d \<noteq> c \<longrightarrow> circuit_objs s' d = circuit_objs s1 d \<and> in_table s' d = in_table s1 d" by blast
      then have "?post s'" using True r(1) failed(1-3) by (simp add: only_circuit_def only_circuit_table [OF failed(3)])
      then show ?thesis by blast
    next
      case (rerouted cq)
      have net: "net_reachable (re_net (env c))" "costs_bounded (re_net (env c))" using live [of c] by (simp_all add: live_env_def)
      from UpdatePath_result(5) [OF net rerouted(4)] gone [of c] have "\<not> UsesLink cq l" by (auto simp: UsesLink_def)
      then have "?post s1" using True r rerouted by (simp add: only_circuit_def only_circuit_table [OF rerouted(3)])
      then show ?thesis by blast
    qed
  qed
qed

abbreviation ends_at :: "net \<Rightarrow> string \<Rightarrow> Circuit \<Rightarrow> bool" where
  "ends_at n i x \<equiv> IsEndpointRouter n x i"

lemma endpoint_has_router: "IsEndpointRouter n x i \<Longrightarrow> HasRouter n x i"
  by (auto simp: IsEndpointRouter_def HasRouter_def split: if_splits)

lemma routerDeleted_treats:
  "treats (\<lambda>c s. let circuit = circuit_objs s c; n = re_net env; nodes = Nodes (c_path circuit) in
     if HasRouter n circuit routerId then
       (if r_id (routers n (hd nodes)) = routerId \<or> r_id (routers n (last nodes)) = routerId
        then remove_failed env c s else Some s)
     else Some s) (ends_at (re_net env) routerId) (\<lambda>x. \<not> ends_at (re_net env) routerId x)"
  unfolding treats_def
proof (intro allI impI)
  fix s c
  assume s: "cs_ok s" "in_table s c"
  let ?x = "circuit_objs s c" and ?n = "re_net env"
  have ne: "Nodes (c_path ?x) \<noteq> []" using s by (simp add: cs_ok_def)
  let ?f = "\<lambda>c s. let circuit = circuit_objs s c; n = ?n; nodes = Nodes (c_path circuit) in
     if HasRouter n circuit routerId then
       (if r_id (routers n (hd nodes)) = routerId \<or> r_id (routers n (last nodes)) = routerId
        then remove_failed env c s else Some s)
     else Some s"
  have f: "?f c s = (if ends_at ?n routerId ?x then remove_failed env c s else Some s)"
    using ne endpoint_has_router [of ?n ?x routerId] by (auto simp: IsEndpointRouter_def Let_def)
  from remove_treats [OF s, of env] f s
  show "\<exists>s'. ?f c s = Some s' \<and> cs_ok s' \<and> (\<not> ends_at ?n routerId ?x \<longrightarrow> s' = s) \<and>
      (\<forall>d. d \<noteq> c \<longrightarrow> circuit_objs s' d = circuit_objs s d \<and> in_table s' d = in_table s d) \<and>
      (ends_at ?n routerId ?x \<longrightarrow> in_table s' c \<longrightarrow> \<not> ends_at ?n routerId (circuit_objs s' c))"
    by (cases "ends_at ?n routerId ?x") auto
qed

section \<open>Retries\<close>

definition fails_at :: "reroute_env \<Rightarrow> Path \<Rightarrow> bool" where
  "fails_at env p \<longleftrightarrow> (\<exists>e. UpdatePath (re_ord env) (re_net env) (re_minRouterCost env) p = Some (Inl e))"

text \<open>Either some try succeeded after failures only, or all failed and the circuit was removed.\<close>

definition rerouted_at :: "(nat \<Rightarrow> reroute_env) \<Rightarrow> circuit_ref \<Rightarrow> cstate \<Rightarrow> cstate \<Rightarrow> nat \<Rightarrow> nat \<Rightarrow> bool" where
  "rerouted_at env c s s' i j \<longleftrightarrow> (\<forall>j' < j. fails_at (env (i + j')) (c_path (circuit_objs s c))) \<and>
     \<not> fails_at (env (i + j)) (c_path (circuit_objs s c)) \<and> rerouteCircuit (env (i + j)) c s = Some (None, s')"

definition tries_outcome ::
  "(nat \<Rightarrow> reroute_env) \<Rightarrow> circuit_ref \<Rightarrow> cstate \<Rightarrow> nat \<Rightarrow> nat \<Rightarrow> bool \<Rightarrow> cstate \<Rightarrow> bool" where
  "tries_outcome env c s i k ok s' \<longleftrightarrow>
     (if ok then \<exists>j < k. rerouted_at env c s s' i j
      else (\<forall>j < k. fails_at (env (i + j)) (c_path (circuit_objs s c))) \<and> remove_failed (env (i + k)) c s = Some s')"

lemma fails_prefix:
  assumes "fails_at (env i) p" "\<forall>j < k. fails_at (env (Suc i + j)) p"
  shows "\<forall>j < Suc k. fails_at (env (i + j)) p"
proof (intro allI impI)
  fix j
  assume "j < Suc k"
  then show "fails_at (env (i + j)) p" using assms by (cases j) simp_all
qed

lemma tries_outcome_Suc:
  assumes "tries_outcome env c s (Suc i) k ok s'" "fails_at (env i) (c_path (circuit_objs s c))"
  shows "tries_outcome env c s i (Suc k) ok s'"
proof (cases ok)
  case True
  with assms(1) obtain j where j: "j < k" "rerouted_at env c s s' (Suc i) j" by (auto simp: tries_outcome_def)
  note at = j(2) [unfolded rerouted_at_def]
  have "rerouted_at env c s s' i (Suc j)"
    unfolding rerouted_at_def using fails_prefix [of env i, OF assms(2)] at by (simp only: add_Suc add_Suc_right) blast
  with j(1) True show ?thesis by (auto simp: tries_outcome_def)
next
  case False
  note out = assms(1) [unfolded tries_outcome_def if_not_P [OF False]]
  from fails_prefix [of env i, OF assms(2)] out have "\<forall>j < Suc k. fails_at (env (i + j)) (c_path (circuit_objs s c))" by blast
  moreover have "remove_failed (env (i + Suc k)) c s = Some s'" using out by simp
  ultimately show ?thesis using False by (simp only: tries_outcome_def if_False)
qed

lemma reroute_tries_outcome:
  assumes "cs_ok s" "in_table s c" "\<And>j. live_env (env j)" and idle: "\<not> c_rerouting (circuit_objs s c)"
  shows "\<exists>ok s'. reroute_tries env c i k s = Some (ok, s') \<and> cs_ok s' \<and> tries_outcome env c s i k ok s'"
proof (induction k arbitrary: i)
  case 0
  from remove_failed_total [OF assms(1,2), of "env i"] obtain s' where "remove_failed (env i) c s = Some s'" "cs_ok s'" by blast
  then show ?case by (intro exI [of _ False] exI [of _ s']) (simp add: tries_outcome_def)
next
  case (Suc k)
  from rerouteCircuit_total [OF assms(1,2) assms(3) [of i]] obtain err s1 where
    r: "rerouteCircuit (env i) c s = Some (err, s1)" "cs_ok s1" by blast
  from r(1) show ?case
  proof (cases rule: rerouteCircuit_cases)
    case busy
    with idle show ?thesis by simp
  next
    case (failed e)
    from rerouteCircuit_fails [OF failed(1,6)] have re: "rerouteCircuit (env i) c s = Some (Some e, s)" .
    have f0: "fails_at (env i) (c_path (circuit_objs s c))" using failed(6) by (auto simp: fails_at_def)
    from Suc.IH [of "Suc i"] obtain ok s' where "reroute_tries env c (Suc i) k s = Some (ok, s')" "cs_ok s'"
      "tries_outcome env c s (Suc i) k ok s'" by blast
    with re tries_outcome_Suc [OF this(3) f0] show ?thesis by (intro exI [of _ ok] exI [of _ s']) simp
  next
    case (rerouted cq)
    have "\<not> fails_at (env i) (c_path (circuit_objs s c))" using rerouted(4) by (simp add: fails_at_def)
    with r rerouted(2) have "rerouted_at env c s s1 i 0" by (simp add: rerouted_at_def)
    then have "tries_outcome env c s i (Suc k) True s1" unfolding tries_outcome_def by auto
    with r rerouted(2) show ?thesis by (intro exI [of _ True] exI [of _ s1]) simp
  qed
qed

section \<open>Smart rerouting\<close>

lemma candidate_loop_spec:
  assumes "candidate_loop env ceil d s costs ids cnt acc = Some res" "cnt = int (length acc)" "0 \<le> ceil"
    and "cnt \<le> ceil"
  shows "\<exists>new. res = acc @ new \<and> int (length res) \<le> ceil \<and>
    (\<forall>(c, q) \<in> set new. \<exists>i \<in> set ids. circuit_Get s i = Some c \<and>
       UpdatePath (re_ord env) (re_net env) (re_minRouterCost env) (c_path (circuit_objs s c)) = Some (Inr q) \<and>
       \<not> EqualPath q (c_path (circuit_objs s c)) \<and>
       uint d \<le> i64 (costs i - Path_Cost (re_net env) (re_minRouterCost env) q))"
  using assms
proof (induction env ceil d s costs ids cnt acc rule: candidate_loop.induct)
  case (2 env ceil d s costs i ids cnt acc)
  let ?good = "\<lambda>c q i. circuit_Get s i = Some c \<and>
       UpdatePath (re_ord env) (re_net env) (re_minRouterCost env) (c_path (circuit_objs s c)) = Some (Inr q) \<and>
       \<not> EqualPath q (c_path (circuit_objs s c)) \<and>
       uint d \<le> i64 (costs i - Path_Cost (re_net env) (re_minRouterCost env) q)"
  show ?case
  proof (cases "circuit_Get s i")
    case None
    with 2(1) [OF None] 2(5-8) show ?thesis by fastforce
  next
    case (Some c)
    let ?U = "UpdatePath (re_ord env) (re_net env) (re_minRouterCost env) (c_path (circuit_objs s c))"
    from 2(5) Some obtain u where u: "?U = Some u" by (cases ?U) auto
    show ?thesis
    proof (cases u)
      case (Inl e)
      with 2(2) [OF Some u] 2(5-8) Some u show ?thesis by fastforce
    next
      case (Inr q)
      let ?take = "cnt < ceil \<and> \<not> EqualPath q (c_path (circuit_objs s c)) \<and>
          uint d \<le> i64 (costs i - Path_Cost (re_net env) (re_minRouterCost env) q)"
      show ?thesis
      proof (cases ?take)
        case True
        with 2(5) Some u Inr have run: "candidate_loop env ceil d s costs ids (cnt + 1) (acc @ [(c, q)]) = Some res"
          by (simp add: Let_def)
        have "\<exists>new. res = (acc @ [(c, q)]) @ new \<and> int (length res) \<le> ceil \<and>
            (\<forall>(c, q) \<in> set new. \<exists>i \<in> set ids. ?good c q i)"
          by (rule 2(3) [OF Some u Inr refl refl refl refl _ run]) (use True 2(6-8) in auto)
        then obtain new where new: "res = acc @ ((c, q) # new)" "int (length res) \<le> ceil"
          "\<forall>(c, q) \<in> set new. \<exists>i \<in> set ids. ?good c q i" by auto
        have "?good c q i" using Some u Inr True by simp
        with new show ?thesis by (intro exI [of _ "(c, q) # new"]) auto
      next
        case False
        with 2(5) Some u Inr have run: "candidate_loop env ceil d s costs ids cnt acc = Some res" by (auto simp: Let_def)
        have "\<exists>new. res = acc @ new \<and> int (length res) \<le> ceil \<and> (\<forall>(c, q) \<in> set new. \<exists>i \<in> set ids. ?good c q i)"
          by (rule 2(4) [OF Some u Inr refl refl refl refl _ run]) (use False 2(6-8) in auto)
        then show ?thesis by fastforce
      qed
    qed
  qed
qed simp

lemma candidate_loop_total:
  assumes "cs_ok s" "live_env env"
  shows "\<exists>res. candidate_loop env ceil d s costs ids cnt acc = Some res"
proof (induction ids arbitrary: cnt acc)
  case (Cons i ids)
  show ?case
  proof (cases "circuit_Get s i")
    case None
    with Cons.IH show ?thesis by simp
  next
    case (Some c)
    then have "in_table s c" using assms(1) by (auto simp: circuit_Get_def cs_ok_def in_table_def dest: cs_invD(1))
    then have "Nodes (c_path (circuit_objs s c)) \<noteq> []" using assms(1) by (simp add: cs_ok_def)
    from UpdatePath_total [OF _ _ this, of "re_net env" "re_ord env" "re_minRouterCost env"] assms(2) obtain u where
      u: "UpdatePath (re_ord env) (re_net env) (re_minRouterCost env) (c_path (circuit_objs s c)) = Some u"
      by (auto simp: live_env_def)
    show ?thesis
    proof (cases u)
      case (Inl e)
      with Some u Cons.IH show ?thesis by simp
    next
      case (Inr q)
      with Some u Cons.IH show ?thesis by (simp add: Let_def)
    qed
  qed
qed simp

lemma recorded_cost:
  assumes "cs_inv s" "circuit_Get s i = Some c"
  shows "lookup0 (map_of (rev (map (\<lambda>c. (c_id (circuit_objs s c), f c)) (circuit_All ord s)))) i = f c"
proof -
  let ?m = "rev (map (\<lambda>c. (c_id (circuit_objs s c), f c)) (circuit_All ord s))"
  have get: "map_of (circuits s) i = Some c" using assms(2) by (simp add: circuit_Get_def)
  have id: "c_id (circuit_objs s c) = i" by (rule cs_invD(1) [OF assms(1) get])
  then have mem: "c \<in> set (circuit_All ord s)" using get by (simp add: circuit_All_table(1) [OF assms(1)] in_table_def)
  have "inj_on (\<lambda>c. c_id (circuit_objs s c)) (set (circuit_All ord s))"
  proof (rule inj_onI)
    fix x y
    assume "x \<in> set (circuit_All ord s)" "y \<in> set (circuit_All ord s)" "c_id (circuit_objs s x) = c_id (circuit_objs s y)"
    then show "x = y" by (simp add: circuit_All_table(1) [OF assms(1)] in_table_def)
  qed
  then have "distinct (rev (map (\<lambda>c. c_id (circuit_objs s c)) (circuit_All ord s)))"
    using circuit_All_table(2) [OF assms(1), of ord] by (simp only: distinct_rev distinct_map)
  moreover have "map fst ?m = rev (map (\<lambda>c. c_id (circuit_objs s c)) (circuit_All ord s))"
    by (simp only: rev_map map_map comp_def fst_conv)
  ultimately have "distinct (map fst ?m)" by (simp only:)
  moreover have "(i, f c) \<in> set ?m" using mem id by (simp only: set_rev set_map) blast
  ultimately have "map_of ?m i = Some (f c)" by (rule map_of_is_SomeI)
  then show ?thesis by (simp add: lookup0_def)
qed

section \<open>Properties\<close>

text \<open>
  C5. \<open>rerouteCircuitWithTries\<close> returns and leaves every other circuit alone. If the circuit is being
  rerouted already, the call reports success and changes nothing (unless it has no tries). Otherwise, if it reports
  success, the circuit has the path of the first try that found one, between the same two routers,
  and the routers on it have been sent the route messages of that path; if it does not, all tries
  failed, the circuit is out of the table and every router of its path has been told to drop it.
\<close>

theorem reroute_or_remove:
  assumes "cs_ok s" "in_table s c" "\<forall>j. live_env (env j)"
  shows "\<exists>ok s'. rerouteCircuitWithTries env c retries s = Some (ok, s') \<and> cs_ok s' \<and> in_table s' c = ok \<and>
    (\<forall>d. d \<noteq> c \<longrightarrow> circuit_objs s' d = circuit_objs s d \<and> in_table s' d = in_table s d) \<and>
    (if c_rerouting (circuit_objs s c) \<and> 0 < retries then ok \<and> s' = s
     else if ok then \<exists>j < retries. (\<forall>j' < j. fails_at (env j') (c_path (circuit_objs s c))) \<and>
        (let cq = c_path (circuit_objs s' c) in
           UpdatePath (re_ord (env j)) (re_net (env j)) (re_minRouterCost (env j)) (c_path (circuit_objs s c)) = Some (Inr cq) \<and>
           hd (Nodes cq) = hd (Nodes (c_path (circuit_objs s c))) \<and> last (Nodes cq) = last (Nodes (c_path (circuit_objs s c))) \<and>
           (\<forall>k < length (Nodes cq). RouteMsg (Nodes cq ! k) (reroute_msgs (env j) (circuit_objs s c) cq ! k) \<in> set (cs_effects s')))
     else (\<forall>j < retries. fails_at (env j) (c_path (circuit_objs s c))) \<and>
        (\<forall>r \<in> set (Nodes (c_path (circuit_objs s c))). UnrouteMsg r (c_id (circuit_objs s c)) True \<in> set (cs_effects s')))"
proof (cases "c_rerouting (circuit_objs s c) \<and> 0 < retries")
  case True
  then obtain k where "retries = Suc k" by (cases retries) auto
  with True have "rerouteCircuitWithTries env c retries s = Some (True, s)"
    by (simp add: rerouteCircuitWithTries_def rerouteCircuit_def)
  with True assms(1,2) show ?thesis by (intro exI [of _ True] exI [of _ s]) simp
next
  case idle: False
  have "\<exists>ok s'. reroute_tries env c 0 retries s = Some (ok, s') \<and> cs_ok s' \<and> tries_outcome env c s 0 retries ok s'"
  proof (cases "retries = 0")
    case True
    from remove_failed_total [OF assms(1,2), of "env 0"] True show ?thesis by (auto simp: tries_outcome_def)
  next
    case False
    with idle reroute_tries_outcome [OF assms(1,2)] assms(3) show ?thesis by simp
  qed
  then obtain ok s' where
    run: "reroute_tries env c 0 retries s = Some (ok, s')" "cs_ok s'" and out: "tries_outcome env c s 0 retries ok s'" by blast
  show ?thesis
  proof (cases ok)
    case False
    from remove_treats [OF assms(1,2), of "env retries"] remove_failed_total [OF assms(1,2), of "env retries"] out False
    show ?thesis using run idle
      by (intro exI [of _ False] exI [of _ s']) (auto simp: rerouteCircuitWithTries_def tries_outcome_def)
  next
    case True
    with out obtain j where j: "j < retries" "rerouted_at env c s s' 0 j" by (auto simp: tries_outcome_def)
    from j(2) have re: "rerouteCircuit (env j) c s = Some (None, s')"
      and before: "\<forall>j' < j. fails_at (env j') (c_path (circuit_objs s c))" by (simp_all add: rerouted_at_def)
    from re show ?thesis
    proof (cases rule: rerouteCircuit_cases)
      case (rerouted cq)
      have net: "net_reachable (re_net (env j))" "costs_bounded (re_net (env j))" using assms(3) by (simp_all add: live_env_def)
      note res = UpdatePath_result [OF net rerouted(4)]
      have "length (reroute_msgs (env j) (circuit_objs s c) cq) = Suc (length (Links cq))"
        unfolding reroute_msgs_def using route_messages_nth by blast
      then have msgs: "RouteMsg (Nodes cq ! k) (reroute_msgs (env j) (circuit_objs s c) cq ! k) \<in> set (cs_effects s')"
        if "k < length (Nodes cq)" for k
        using that res(4) unfolding rerouted(6) by (force simp: set_zip)
      have "in_table s' c" "\<forall>d. d \<noteq> c \<longrightarrow> circuit_objs s' d = circuit_objs s d \<and> in_table s' d = in_table s d"
        using rerouted(3) only_circuit_table [OF rerouted(3)] assms(2) by (simp_all add: only_circuit_def)
      moreover have "c_path (circuit_objs s' c) = cq" using rerouted(5) by simp
      ultimately show ?thesis using run True idle j(1) before rerouted(4) res(2,3) msgs
        by (intro exI [of _ True] exI [of _ s']) (auto simp: rerouteCircuitWithTries_def Let_def)
    qed (use idle j(1) in simp_all)
  qed
qed

text \<open>
  C12. \<open>rerouteLink\<close> for a link that has left the link table returns, and then the only circuits of
  the table that still run over that link are those another call was already rerouting when it
  came to them: it passes these over, unchanged. Any other circuit that used the link has a new path
  without it or is gone. Circuits that did not use the link are still there, unchanged.
\<close>

theorem rerouteLink_clears_link:
  assumes "cs_ok s" "\<forall>c. live_env (env c)" "\<forall>c. l \<notin> set (LinkManager_All (re_net (env c)))"
  shows "\<exists>s'. rerouteLink env ord l s = Some s' \<and> cs_ok s' \<and>
    (\<forall>c. in_table s' c \<longrightarrow> in_table s c \<and> (UsesLink (c_path (circuit_objs s' c)) l \<longrightarrow> c_rerouting (circuit_objs s c))) \<and>
    (\<forall>c. in_table s c \<longrightarrow> \<not> UsesLink (c_path (circuit_objs s c)) l \<or> c_rerouting (circuit_objs s c) \<longrightarrow>
       in_table s' c \<and> circuit_objs s' c = circuit_objs s c)"
proof -
  let ?hit = "\<lambda>x. UsesLink (c_path x) l \<and> \<not> c_rerouting x"
  from treats_all [OF rerouteLink_treats assms(1), of env l ord] assms(2,3) obtain s' where
    "rerouteLink env ord l s = Some s'" "cs_ok s'"
    "\<forall>c. in_table s' c \<longrightarrow> in_table s c \<and> (?hit (circuit_objs s c) \<longrightarrow> \<not> UsesLink (c_path (circuit_objs s' c)) l)"
    "\<forall>c. in_table s c \<longrightarrow> \<not> ?hit (circuit_objs s c) \<longrightarrow> in_table s' c \<and> circuit_objs s' c = circuit_objs s c"
    unfolding rerouteLink_def by auto
  then show ?thesis by (intro exI [of _ s']) metis
qed

text \<open>
  C32. \<open>routerDeleted\<close> returns, and then no circuit of the table begins or ends at the deleted
  router. Circuits with other end points are still there, unchanged, also those that pass through
  the router.
\<close>

theorem routerDeleted_clears_endpoints:
  assumes "cs_ok s"
  shows "\<exists>s'. routerDeleted env ord routerId s = Some s' \<and> cs_ok s' \<and>
    (\<forall>c. in_table s' c \<longrightarrow> in_table s c \<and> \<not> IsEndpointRouter (re_net env) (circuit_objs s' c) routerId) \<and>
    (\<forall>c. in_table s c \<longrightarrow> \<not> IsEndpointRouter (re_net env) (circuit_objs s c) routerId \<longrightarrow>
       in_table s' c \<and> circuit_objs s' c = circuit_objs s c)"
proof -
  let ?hit = "\<lambda>x. IsEndpointRouter (re_net env) x routerId"
  from treats_all [OF routerDeleted_treats assms, of env routerId ord] obtain s' where
    "routerDeleted env ord routerId s = Some s'" "cs_ok s'"
    "\<forall>c. in_table s' c \<longrightarrow> in_table s c \<and> (?hit (circuit_objs s c) \<longrightarrow> \<not> ?hit (circuit_objs s' c))"
    "\<forall>c. in_table s c \<longrightarrow> \<not> ?hit (circuit_objs s c) \<longrightarrow> in_table s' c \<and> circuit_objs s' c = circuit_objs s c"
    unfolding routerDeleted_def by auto
  then show ?thesis by (intro exI [of _ s']) metis
qed

text \<open>
  C33. \<open>getRerouteCandidates\<close> returns. It selects at most \<open>RerouteCap\<close> circuits and at most the
  configured fraction of the table, one being always allowed. Each selected circuit is in the
  table, its new path differs from its current one, joins the same two routers and is cheaper by
  at least \<open>MinCostDelta\<close>.
\<close>

theorem reroute_candidates_limits:
  assumes "cs_ok s" "live_env env"
  shows "\<exists>found. getRerouteCandidates env ord fraction rerouteCap minCostDelta s = Some found \<and>
    int (length found) \<le> uint rerouteCap \<and> int (length found) \<le> max 1 (fraction (length (circuits s))) \<and>
    (\<forall>(c, q) \<in> set found. in_table s c \<and> \<not> EqualPath q (c_path (circuit_objs s c)) \<and>
       hd (Nodes q) = hd (Nodes (c_path (circuit_objs s c))) \<and> last (Nodes q) = last (Nodes (c_path (circuit_objs s c))) \<and>
       uint minCostDelta \<le> i64 (calculateCircuitCost (re_net env) (re_minRouterCost env) (c_path (circuit_objs s c)) -
                                 Path_Cost (re_net env) (re_minRouterCost env) q))"
proof -
  have inv: "cs_inv s" using assms(1) by (simp add: cs_ok_def)
  let ?f = "\<lambda>c. calculateCircuitCost (re_net env) (re_minRouterCost env) (c_path (circuit_objs s c))"
  let ?costs = "lookup0 (map_of (rev (map (\<lambda>c. (c_id (circuit_objs s c), ?f c)) (circuit_All ord s))))"
  let ?ids = "sort_key (\<lambda>i. - ?costs i) (map (\<lambda>c. c_id (circuit_objs s c)) (circuit_All ord s))"
  let ?ceil = "reroute_ceiling fraction rerouteCap (length (circuit_All ord s))"
  from candidate_loop_total [OF assms] obtain found where
    run: "candidate_loop env ?ceil minCostDelta s ?costs ?ids 0 [] = Some found" by blast
  have ceil: "0 \<le> ?ceil" "?ceil \<le> uint rerouteCap" "?ceil \<le> max 1 (fraction (length (circuits s)))"
    by (auto simp: reroute_ceiling_def Let_def circuit_All_def)
  from candidate_loop_spec [OF run] ceil(1) have len: "int (length found) \<le> ?ceil" and
    good: "\<forall>(c, q) \<in> set found. \<exists>i \<in> set ?ids. circuit_Get s i = Some c \<and>
       UpdatePath (re_ord env) (re_net env) (re_minRouterCost env) (c_path (circuit_objs s c)) = Some (Inr q) \<and>
       \<not> EqualPath q (c_path (circuit_objs s c)) \<and>
       uint minCostDelta \<le> i64 (?costs i - Path_Cost (re_net env) (re_minRouterCost env) q)"
    by simp_all
  have "in_table s c \<and> \<not> EqualPath q (c_path (circuit_objs s c)) \<and>
       hd (Nodes q) = hd (Nodes (c_path (circuit_objs s c))) \<and> last (Nodes q) = last (Nodes (c_path (circuit_objs s c))) \<and>
       uint minCostDelta \<le> i64 (?f c - Path_Cost (re_net env) (re_minRouterCost env) q)" if mem: "(c, q) \<in> set found" for c q
  proof -
    from good mem obtain i where i: "circuit_Get s i = Some c"
      "UpdatePath (re_ord env) (re_net env) (re_minRouterCost env) (c_path (circuit_objs s c)) = Some (Inr q)"
      "\<not> EqualPath q (c_path (circuit_objs s c))"
      "uint minCostDelta \<le> i64 (?costs i - Path_Cost (re_net env) (re_minRouterCost env) q)" by blast
    have "in_table s c" using in_table_iff [OF inv] i(1) by (auto simp: circuit_Get_def)
    then show ?thesis using i(3,4) assms(2) UpdatePath_result(2,3) [OF _ _ i(2)] recorded_cost [OF inv i(1), of ?f ord]
      by (simp add: live_env_def)
  qed
  then have "\<forall>(c, q) \<in> set found. in_table s c \<and> \<not> EqualPath q (c_path (circuit_objs s c)) \<and>
       hd (Nodes q) = hd (Nodes (c_path (circuit_objs s c))) \<and> last (Nodes q) = last (Nodes (c_path (circuit_objs s c))) \<and>
       uint minCostDelta \<le> i64 (?f c - Path_Cost (re_net env) (re_minRouterCost env) q)" by blast
  moreover have "getRerouteCandidates env ord fraction rerouteCap minCostDelta s = Some found"
    using run by (simp only: getRerouteCandidates_def Let_def)
  ultimately show ?thesis using len ceil(2,3) by (intro exI [of _ found]) simp
qed

section \<open>Two circuits and a lost link\<close>

definition demo_cut :: net where
  "demo_cut = fst (RemoveLink ''l1'' demo_triangle)"

lemma demo_cut_live: "net_reachable demo_cut" "costs_bounded demo_cut"
  unfolding demo_cut_def by (rule net_reachable.step [OF demo_triangle_reachable net_step.remove]) code_simp

definition demo_renv :: "net \<Rightarrow> reroute_env" where
  "demo_renv n = \<lparr>re_net = n, re_minRouterCost = 10, re_ord = id, re_remaining = 1000, re_now = 7,
     re_service = (\<lambda>i. if i = ''svc'' then Some (demo_service ''smartrouting'') else None)\<rparr>"

definition demo_circuit :: "string \<Rightarrow> Path \<Rightarrow> Circuit" where
  "demo_circuit i p = \<lparr>c_id = i, c_clientId = ''client'', c_serviceId = ''svc'',
     c_terminator = \<lparr>RouteCost = 0, routing_terminator = demo_terminator\<rparr>, c_path = p, c_tags = [],
     c_rerouting = False, c_peerData = None, c_createdAt = 0, c_updatedAt = 0\<rparr>"

definition demo_cs :: cstate where
  "demo_cs = \<lparr>circuits = [(''c1'', 0), (''c2'', 1)],
     circuit_objs = (\<lambda>r. if r = 0 then demo_circuit ''c1'' demo_path
       else demo_circuit ''c2'' (demo_path\<lparr>Nodes := [0, 2], Links := [2]\<rparr>)),
     next_circuit = 2, cs_xt = registerXts empty_xt, cs_effects = []\<rparr>"

lemma demo_cs_ok: "cs_ok demo_cs" "in_table demo_cs 0" "in_table demo_cs 1"
  by (auto simp: cs_ok_def cs_inv_def in_table_def demo_cs_def demo_circuit_def demo_path_def xt_ok_def registerXts_def
      RegisterFactory_def empty_xt_def split: if_splits)

lemma demo_cs_idle: "c_rerouting (circuit_objs demo_cs c) = False"
  by (simp add: demo_cs_def demo_circuit_def)

lemma demo_renv_live: "live_env (demo_renv demo_cut)" "live_env (demo_renv demo_triangle)"
  using demo_cut_live demo_triangle_reachable demo_triangle_costs by (simp_all add: live_env_def demo_renv_def)

lemma demo_cut_path:
  "UpdatePath id demo_cut 10 demo_path = Some (Inr (demo_path\<lparr>Nodes := [0, 2], Links := [2]\<rparr>))"
  by code_simp

theorem reroute_or_remove_witness:
  "\<exists>s'. rerouteCircuitWithTries (\<lambda>_. demo_renv demo_cut) 0 2 demo_cs = Some (True, s') \<and>
     Nodes (c_path (circuit_objs s' 0)) = [0, 2] \<and> in_table s' 1"
proof -
  have path: "c_path (circuit_objs demo_cs 0) = demo_path" "re_ord (demo_renv demo_cut) = id"
    "re_net (demo_renv demo_cut) = demo_cut" "re_minRouterCost (demo_renv demo_cut) = 10"
    by (simp_all add: demo_cs_def demo_circuit_def demo_renv_def)
  have nofail: "\<not> fails_at (demo_renv demo_cut) demo_path" by (simp add: fails_at_def path demo_cut_path)
  have "\<forall>j. live_env ((\<lambda>_::nat. demo_renv demo_cut) j)" using demo_renv_live by simp
  from reroute_or_remove [OF demo_cs_ok(1,2) this, of 2] obtain ok s' where
    run: "rerouteCircuitWithTries (\<lambda>_. demo_renv demo_cut) 0 2 demo_cs = Some (ok, s')"
    and other: "\<forall>d. d \<noteq> 0 \<longrightarrow> circuit_objs s' d = circuit_objs demo_cs d \<and> in_table s' d = in_table demo_cs d"
    and res: "if ok then \<exists>j < (2::nat). (\<forall>j' < j. fails_at (demo_renv demo_cut) demo_path) \<and>
        (let cq = c_path (circuit_objs s' 0) in UpdatePath id demo_cut 10 demo_path = Some (Inr cq) \<and>
           hd (Nodes cq) = hd (Nodes demo_path) \<and> last (Nodes cq) = last (Nodes demo_path) \<and>
           (\<forall>k < length (Nodes cq). RouteMsg (Nodes cq ! k) (reroute_msgs (demo_renv demo_cut) (circuit_objs demo_cs 0) cq ! k)
              \<in> set (cs_effects s')))
     else (\<forall>j < (2::nat). fails_at (demo_renv demo_cut) demo_path) \<and>
        (\<forall>r \<in> set (Nodes demo_path). UnrouteMsg r (c_id (circuit_objs demo_cs 0)) True \<in> set (cs_effects s'))"
    using demo_cs_idle unfolding path by auto
  have "ok"
  proof (rule ccontr)
    assume "\<not> ok"
    then have "\<forall>j < (2::nat). fails_at (demo_renv demo_cut) demo_path" using res by simp
    then show False using nofail by (metis zero_less_numeral)
  qed
  then have "UpdatePath id demo_cut 10 demo_path = Some (Inr (c_path (circuit_objs s' 0)))" using res by (auto simp: Let_def)
  then have "c_path (circuit_objs s' 0) = demo_path\<lparr>Nodes := [0, 2], Links := [2]\<rparr>" unfolding demo_cut_path by simp
  moreover have "in_table s' 1" using other demo_cs_ok(3) by simp
  ultimately show ?thesis using run \<open>ok\<close> by auto
qed

theorem rerouteLink_clears_link_witness:
  "\<exists>s'. rerouteLink (\<lambda>_. demo_renv demo_cut) id 0 demo_cs = Some s' \<and> in_table s' 1 \<and>
     circuit_objs s' 1 = circuit_objs demo_cs 1 \<and> UsesLink (c_path (circuit_objs demo_cs 0)) 0 \<and>
     \<not> (in_table s' 0 \<and> UsesLink (c_path (circuit_objs s' 0)) 0)"
proof -
  have gone: "0 \<notin> set (LinkManager_All demo_cut)" by code_simp
  have uses: "UsesLink (c_path (circuit_objs demo_cs 0)) 0" "\<not> UsesLink (c_path (circuit_objs demo_cs 1)) 0" by code_simp+
  from rerouteLink_clears_link [OF demo_cs_ok(1), of "\<lambda>_. demo_renv demo_cut" 0 id] demo_renv_live gone
  obtain s' where "rerouteLink (\<lambda>_. demo_renv demo_cut) id 0 demo_cs = Some s'"
    "\<And>c. in_table s' c \<Longrightarrow> \<not> UsesLink (c_path (circuit_objs s' c)) 0"
    "\<And>c. in_table demo_cs c \<Longrightarrow> \<not> UsesLink (c_path (circuit_objs demo_cs c)) 0 \<Longrightarrow>
       in_table s' c \<and> circuit_objs s' c = circuit_objs demo_cs c"
    by (auto simp: demo_renv_def demo_cs_idle)
  then show ?thesis using uses demo_cs_ok(3) by blast
qed

theorem routerDeleted_clears_endpoints_witness:
  "\<exists>s'. routerDeleted (demo_renv demo_triangle) id ''b'' demo_cs = Some s' \<and> in_table s' 0 \<and>
     circuit_objs s' 0 = circuit_objs demo_cs 0"
proof -
  have "\<not> IsEndpointRouter (re_net (demo_renv demo_triangle)) (circuit_objs demo_cs 0) ''b''" by code_simp
  with routerDeleted_clears_endpoints [OF demo_cs_ok(1), of "demo_renv demo_triangle" id "''b''"] demo_cs_ok(2)
  show ?thesis by blast
qed

theorem reroute_candidates_limits_witness:
  "\<exists>found. getRerouteCandidates (demo_renv demo_triangle) id (\<lambda>n. int n div 2) 4 15 demo_cs = Some found \<and>
     length found \<le> 1"
proof -
  from reroute_candidates_limits [OF demo_cs_ok(1) demo_renv_live(2), of id "\<lambda>n. int n div 2" 4 15] show ?thesis
    by (auto simp: demo_cs_def)
qed

end
