(* ===== verification/Rate_Limiter.thy ===== *)
theory Rate_Limiter
  imports Zt_Prelude
begin

text \<open>
  Rate limiting of commands (\<open>controller/command/rate_limiter.go\<close>): the queue-based limiter, the
  adaptive limiter whose window shrinks when work times out, and the tracker that hands out work
  slots to remote parties.

  Each limiter is shared by many goroutines. A call in progress is an entry of a list with the
  point it has reached, and the step relations interleave the calls, the worker goroutine and
  the signals \<open>Success\<close>, \<open>Backoff\<close>, \<open>Failed\<close>. A section under the limiter's lock is one step;
  what the code does before taking the lock is a step of its own. Metrics and logging are left
  out. \<open>int32\<close> counters wrap.
\<close>

section \<open>Errors and configuration\<close>

datatype go_error = ApiError string | PlainError string | Wrapped string go_error

definition ServerTooManyRequestsCode :: string where
  "ServerTooManyRequestsCode = ''SERVER_TOO_MANY_REQUESTS''"

definition NewTooManyUpdatesError :: go_error where
  "NewTooManyUpdatesError = ApiError ServerTooManyRequestsCode"

abbreviation shutting_down :: go_error where
  "shutting_down \<equiv> PlainError ''rate limiter shutting down''"

fun WasRateLimited :: "go_error \<Rightarrow> bool" where
  "WasRateLimited (ApiError code) = (code = ServerTooManyRequestsCode)"
| "WasRateLimited (PlainError m) = False"
| "WasRateLimited (Wrapped m e) = WasRateLimited e"

definition DefaultLimiterSize :: "32 word" where "DefaultLimiterSize = 100"
definition MinLimiterSize :: "32 word" where "MinLimiterSize = 10"

record RateLimiterConfig =
  rl_Enabled :: bool
  rl_QueueSize :: "32 word"

record AdaptiveRateLimiterConfig =
  Enabled :: bool
  MaxSize :: "32 word"
  MinSize :: "32 word"
  WorkTimerMetric :: string
  QueueSizeMetric :: string
  WindowSizeMetric :: string
  Timeout :: int

definition second :: int where "second = 1000000000"

definition SetDefaults :: "AdaptiveRateLimiterConfig \<Rightarrow> AdaptiveRateLimiterConfig" where
  "SetDefaults cfg = cfg\<lparr>Enabled := True, MinSize := 5, MaxSize := 250, Timeout := 30 * second\<rparr>"

text \<open>
  A value of the parsed YAML map: an integer, or something else given by its \<open>%v\<close> rendering.
  \<open>parseDuration\<close> stands for \<open>time.ParseDuration\<close>; only its result reaches the configuration.
  Go's \<open>int\<close> to \<open>uint32\<close> conversion keeps the low 32 bits.
\<close>

datatype cfg_value = CfgInt int | CfgOther string

fun digits_of :: "nat \<Rightarrow> string" where
  "digits_of n = (if n < 10 then [char_of (48 + n)] else digits_of (n div 10) @ [char_of (48 + n mod 10)])"

declare digits_of.simps [simp del]

fun render_v :: "cfg_value \<Rightarrow> string" where
  "render_v (CfgInt i) = (if i < 0 then ''-'' else '''') @ digits_of (nat \<bar>i\<bar>)"
| "render_v (CfgOther s) = s"

definition ascii_lower :: "char \<Rightarrow> char" where
  "ascii_lower c = (let n = of_char c :: nat in if 65 \<le> n \<and> n \<le> 90 then char_of (n + 32) else c)"

definition equal_fold_true :: "string \<Rightarrow> bool" where
  "equal_fold_true s = (map ascii_lower s = ''true'')"

fun load_size :: "string \<Rightarrow> (string \<rightharpoonup> cfg_value) \<Rightarrow> 32 word \<Rightarrow> string + 32 word" where
  "load_size key cfgmap old =
     (case cfgmap key of
        None \<Rightarrow> Inr old
      | Some (CfgInt v) \<Rightarrow> Inr (word_of_int v)
      | Some (CfgOther s) \<Rightarrow> Inl key)"

definition load_enabled :: "(string \<rightharpoonup> cfg_value) \<Rightarrow> bool \<Rightarrow> bool" where
  "load_enabled cfgmap old = (case cfgmap ''enabled'' of None \<Rightarrow> old | Some v \<Rightarrow> equal_fold_true (render_v v))"

text \<open>
  The configuration is updated in place, so a failing load leaves it partly updated: the result
  is the error, if any, and the configuration.
\<close>

definition LoadAdaptiveRateLimiterConfig ::
  "(string \<Rightarrow> int option) \<Rightarrow> (string \<rightharpoonup> cfg_value) \<Rightarrow> AdaptiveRateLimiterConfig \<Rightarrow>
   string option \<times> AdaptiveRateLimiterConfig" where
  "LoadAdaptiveRateLimiterConfig parseDuration cfgmap cfg0 =
     (let cfg1 = cfg0\<lparr>Enabled := load_enabled cfgmap (Enabled cfg0)\<rparr>
      in case load_size ''maxSize'' cfgmap (MaxSize cfg1) of
           Inl e \<Rightarrow> (Some e, cfg1)
         | Inr mx \<Rightarrow>
      (let cfg2 = cfg1\<lparr>MaxSize := mx\<rparr>
       in case load_size ''minSize'' cfgmap (MinSize cfg2) of
            Inl e \<Rightarrow> (Some e, cfg2)
          | Inr mn \<Rightarrow>
       (let cfg3 = cfg2\<lparr>MinSize := mn\<rparr>
        in if MinSize cfg3 < 1 then (Some ''minSize'', cfg3)
           else if MinSize cfg3 > MaxSize cfg3 then (Some ''minSize, maxSize'', cfg3)
           else (case cfgmap ''timeout'' of
                   None \<Rightarrow> (None, cfg3)
                 | Some v \<Rightarrow>
                     (case parseDuration (render_v v) of
                        None \<Rightarrow> (Some ''timeout'', cfg3\<lparr>Timeout := 0\<rparr>)
                      | Some d \<Rightarrow> (None, cfg3\<lparr>Timeout := d\<rparr>))))))"

lemma word_one_le: "1 \<le> (x :: 32 word) \<longleftrightarrow> x \<noteq> 0"
  by (simp add: word_le_nat_alt unat_gt_0 Suc_le_eq)

section \<open>The queue-based limiter\<close>

text \<open>
  A call of \<open>DefaultRateLimiter.RunRateLimited\<close> is at one of these points: it has sent its work
  but not yet counted it, it waits for the result, or it has returned. \<open>q_result\<close> is the work's
  result channel after the worker closed it.
\<close>

datatype q_phase = QSent | QWaiting | QReturned "go_error option"

record q_call =
  q_phase :: q_phase
  q_result :: "go_error option option"

datatype worker = Idle | Taken nat | Running nat | Stopped

record DefaultRateLimiter =
  dl_config :: RateLimiterConfig
  dl_currentSize :: int
  dl_queue :: "nat list"
  dl_closed :: bool
  dl_calls :: "q_call list"
  dl_worker :: worker
  dl_started :: "nat list"

definition NewRateLimiter :: "RateLimiterConfig \<Rightarrow> DefaultRateLimiter option" where
  "NewRateLimiter config =
     (if \<not> rl_Enabled config then None
      else
        let config = (if rl_QueueSize config < MinLimiterSize then config\<lparr>rl_QueueSize := MinLimiterSize\<rparr> else config)
        in Some \<lparr>dl_config = config, dl_currentSize = 0, dl_queue = [], dl_closed = False, dl_calls = [],
                 dl_worker = Idle, dl_started = []\<rparr>)"

definition dl_new_call :: "q_phase \<Rightarrow> DefaultRateLimiter \<Rightarrow> DefaultRateLimiter" where
  "dl_new_call p s = s\<lparr>dl_calls := dl_calls s @ [\<lparr>q_phase = p, q_result = None\<rparr>]\<rparr>"

definition dl_set :: "nat \<Rightarrow> (q_call \<Rightarrow> q_call) \<Rightarrow> DefaultRateLimiter \<Rightarrow> DefaultRateLimiter" where
  "dl_set i f s = s\<lparr>dl_calls := (dl_calls s)[i := f (dl_calls s ! i)]\<rparr>"

text \<open>
  The steps of \<open>RunRateLimited\<close>: the outer \<open>select\<close> (send, shut down, or the default branch when
  the channel is full), counting, the inner \<open>select\<close>; and those of \<open>run\<close>.
\<close>

inductive dl_step :: "DefaultRateLimiter \<Rightarrow> DefaultRateLimiter \<Rightarrow> bool" where
  send: "length (dl_queue s) < unat (rl_QueueSize (dl_config s)) \<Longrightarrow>
    dl_step s ((dl_new_call QSent s)\<lparr>dl_queue := dl_queue s @ [length (dl_calls s)]\<rparr>)"
| refuse: "length (dl_queue s) \<ge> unat (rl_QueueSize (dl_config s)) \<Longrightarrow> \<not> dl_closed s \<Longrightarrow>
    dl_step s (dl_new_call (QReturned (Some NewTooManyUpdatesError)) s)"
| refuse_closed: "dl_closed s \<Longrightarrow> dl_step s (dl_new_call (QReturned (Some shutting_down)) s)"
| note_sent: "i < length (dl_calls s) \<Longrightarrow> q_phase (dl_calls s ! i) = QSent \<Longrightarrow>
    dl_step s ((dl_set i (\<lambda>c. c\<lparr>q_phase := QWaiting\<rparr>) s)\<lparr>dl_currentSize := i32 (dl_currentSize s + 1)\<rparr>)"
| receive: "i < length (dl_calls s) \<Longrightarrow> q_phase (dl_calls s ! i) = QWaiting \<Longrightarrow> q_result (dl_calls s ! i) = Some r \<Longrightarrow>
    dl_step s (dl_set i (\<lambda>c. c\<lparr>q_phase := QReturned r\<rparr>) s)"
| give_up: "i < length (dl_calls s) \<Longrightarrow> q_phase (dl_calls s ! i) = QWaiting \<Longrightarrow> dl_closed s \<Longrightarrow>
    dl_step s (dl_set i (\<lambda>c. c\<lparr>q_phase := QReturned (Some shutting_down)\<rparr>) s)"
| worker_take: "dl_worker s = Idle \<Longrightarrow> dl_queue s = i # q \<Longrightarrow>
    dl_step s (s\<lparr>dl_queue := q, dl_worker := Taken i\<rparr>)"
| worker_start: "dl_worker s = Taken i \<Longrightarrow>
    dl_step s (s\<lparr>dl_currentSize := i32 (dl_currentSize s - 1), dl_worker := Running i, dl_started := dl_started s @ [i]\<rparr>)"
| worker_finish: "dl_worker s = Running i \<Longrightarrow>
    dl_step s ((dl_set i (\<lambda>c. c\<lparr>q_result := Some r\<rparr>) s)\<lparr>dl_worker := Idle\<rparr>)"
| worker_exit: "dl_worker s = Idle \<Longrightarrow> dl_closed s \<Longrightarrow> dl_step s (s\<lparr>dl_worker := Stopped\<rparr>)"
| close: "dl_step s (s\<lparr>dl_closed := True\<rparr>)"

inductive dl_reachable :: "DefaultRateLimiter \<Rightarrow> bool" where
  dl_new: "NewRateLimiter config = Some s \<Longrightarrow> dl_reachable s"
| dl_next: "dl_reachable s \<Longrightarrow> dl_step s t \<Longrightarrow> dl_reachable t"

subsection \<open>Order and results\<close>

definition dl_taken :: "DefaultRateLimiter \<Rightarrow> nat list" where
  "dl_taken s = (case dl_worker s of Taken i \<Rightarrow> [i] | _ \<Rightarrow> [])"

text \<open>
  The works accepted so far (started ones, the one just taken, queued ones) and those whose
  function has been run to its end.
\<close>

definition dl_accepted :: "DefaultRateLimiter \<Rightarrow> nat list" where
  "dl_accepted s = dl_started s @ dl_taken s @ dl_queue s"

definition dl_ended :: "DefaultRateLimiter \<Rightarrow> nat set" where
  "dl_ended s = {i \<in> set (dl_started s). dl_worker s \<noteq> Running i}"

definition q_call_ok :: "nat set \<Rightarrow> nat set \<Rightarrow> bool \<Rightarrow> nat \<Rightarrow> q_call \<Rightarrow> bool" where
  "q_call_ok acc ended closed i c \<longleftrightarrow>
     (q_result c \<noteq> None \<longleftrightarrow> i \<in> ended) \<and>
     (case q_phase c of
        QReturned r \<Rightarrow>
          if i \<in> acc then q_result c = Some r \<or> r = Some shutting_down \<and> closed
          else r = Some NewTooManyUpdatesError \<or> r = Some shutting_down \<and> closed
      | _ \<Rightarrow> i \<in> acc)"

definition dl_inv :: "DefaultRateLimiter \<Rightarrow> bool" where
  "dl_inv s \<longleftrightarrow> sorted_wrt (<) (dl_accepted s) \<and> (\<forall>i \<in> set (dl_accepted s). i < length (dl_calls s)) \<and>
     length (dl_queue s) \<le> unat (rl_QueueSize (dl_config s)) \<and> 10 \<le> unat (rl_QueueSize (dl_config s)) \<and>
     (\<forall>i. dl_worker s = Running i \<longrightarrow> i \<in> set (dl_started s)) \<and>
     (\<forall>i < length (dl_calls s). q_call_ok (set (dl_accepted s)) (dl_ended s) (dl_closed s) i (dl_calls s ! i))"

lemma dl_inv_new: "NewRateLimiter config = Some s \<Longrightarrow> dl_inv s"
  by (auto simp: NewRateLimiter_def dl_inv_def dl_accepted_def dl_taken_def MinLimiterSize_def Let_def
      word_less_nat_alt split: if_splits)

lemma dl_views [simp]:
  "dl_accepted (s\<lparr>dl_calls := cs\<rparr>) = dl_accepted s" "dl_accepted (s\<lparr>dl_currentSize := n\<rparr>) = dl_accepted s"
  "dl_accepted (s\<lparr>dl_closed := b\<rparr>) = dl_accepted s"
  "dl_ended (s\<lparr>dl_calls := cs\<rparr>) = dl_ended s" "dl_ended (s\<lparr>dl_currentSize := n\<rparr>) = dl_ended s"
  "dl_ended (s\<lparr>dl_closed := b\<rparr>) = dl_ended s" "dl_ended (s\<lparr>dl_queue := q\<rparr>) = dl_ended s"
  by (simp_all add: dl_accepted_def dl_taken_def dl_ended_def)

lemma dl_invD:
  assumes "dl_inv s"
  shows "\<And>i. i < length (dl_calls s) \<Longrightarrow> q_call_ok (set (dl_accepted s)) (dl_ended s) (dl_closed s) i (dl_calls s ! i)"
    "\<And>i. i \<in> set (dl_accepted s) \<Longrightarrow> i < length (dl_calls s)" "distinct (dl_accepted s)"
  using assms by (auto simp: dl_inv_def strict_sorted_iff)

lemma dl_inv_call:
  assumes "dl_inv s" "i < length (dl_calls s)"
    and "q_call_ok (set (dl_accepted s)) (dl_ended s) (dl_closed s) i (f (dl_calls s ! i))"
  shows "dl_inv (dl_set i f s)" "dl_inv ((dl_set i f s)\<lparr>dl_currentSize := n\<rparr>)"
  using assms by (simp_all add: dl_inv_def dl_set_def nth_list_update)

lemma dl_inv_new_call:
  assumes "dl_inv s" "dl_closed s \<and> p = QReturned (Some shutting_down) \<or> p = QReturned (Some NewTooManyUpdatesError)"
  shows "dl_inv (dl_new_call p s)"
proof -
  have n: "length (dl_calls s) \<notin> set (dl_accepted s)" using dl_invD(2) [OF assms(1)] by blast
  then have "length (dl_calls s) \<notin> dl_ended s" by (auto simp: dl_ended_def dl_accepted_def)
  with n assms show ?thesis by (auto simp: dl_inv_def dl_new_call_def nth_append q_call_ok_def less_Suc_eq)
qed

lemma dl_inv_send:
  assumes "dl_inv s" "length (dl_queue s) < unat (rl_QueueSize (dl_config s))"
  shows "dl_inv ((dl_new_call QSent s)\<lparr>dl_queue := dl_queue s @ [length (dl_calls s)]\<rparr>)" (is "dl_inv ?t")
proof -
  let ?n = "length (dl_calls s)"
  have acc: "dl_accepted ?t = dl_accepted s @ [?n]"
    by (simp add: dl_new_call_def dl_accepted_def dl_taken_def)
  have ended: "dl_ended ?t = dl_ended s" by (simp add: dl_new_call_def)
  note lt = dl_invD(2) [OF assms(1)]
  have "?n \<notin> dl_ended s" using lt by (auto simp: dl_ended_def dl_accepted_def)
  then have "q_call_ok (set (dl_accepted ?t)) (dl_ended s) (dl_closed s) ?n (dl_calls ?t ! ?n)"
    unfolding acc by (simp add: q_call_ok_def dl_new_call_def)
  moreover have "q_call_ok (set (dl_accepted ?t)) (dl_ended s) (dl_closed s) i (dl_calls ?t ! i)" if "i < ?n" for i
    using dl_invD(1) [OF assms(1) that] that unfolding acc q_call_ok_def
    by (auto simp: dl_new_call_def nth_append split: q_phase.splits)
  ultimately have "\<forall>i < Suc ?n. q_call_ok (set (dl_accepted ?t)) (dl_ended s) (dl_closed s) i (dl_calls ?t ! i)"
    by (simp add: less_Suc_eq)
  moreover have "sorted_wrt (<) (dl_accepted ?t)"
    using assms(1) lt unfolding acc by (simp add: sorted_wrt_append dl_inv_def)
  moreover have "\<forall>i \<in> set (dl_accepted ?t). i < Suc ?n"
    using lt unfolding acc by (auto intro: less_SucI)
  ultimately show ?thesis using assms ended unfolding dl_inv_def by (simp add: dl_new_call_def)
qed

lemma dl_inv_worker:
  assumes "dl_inv s" "dl_accepted t = dl_accepted s" "dl_ended t = dl_ended s" "dl_calls t = dl_calls s"
    "dl_config t = dl_config s" "dl_closed t = dl_closed s" "length (dl_queue t) \<le> length (dl_queue s)"
    "\<forall>i. dl_worker t = Running i \<longrightarrow> i \<in> set (dl_started t)"
  shows "dl_inv t"
  using assms by (auto simp: dl_inv_def)

lemma dl_inv_finish:
  assumes "dl_inv s" "dl_worker s = Running i"
  shows "dl_inv ((dl_set i (\<lambda>c. c\<lparr>q_result := Some r\<rparr>) s)\<lparr>dl_worker := Idle\<rparr>)" (is "dl_inv ?t")
proof -
  have i: "i \<in> set (dl_started s)" using assms by (simp add: dl_inv_def)
  then have acc_i: "i \<in> set (dl_accepted s)" by (simp add: dl_accepted_def)
  have acc: "dl_accepted ?t = dl_accepted s" and ended: "dl_ended ?t = insert i (dl_ended s)"
    using assms(2) i by (auto simp: dl_accepted_def dl_taken_def dl_ended_def dl_set_def)
  have len: "i < length (dl_calls s)" by (rule dl_invD(2) [OF assms(1) acc_i])
  have "i \<notin> dl_ended s" using assms(2) by (simp add: dl_ended_def)
  then have "q_result (dl_calls s ! i) = None" using dl_invD(1) [OF assms(1) len] by (simp add: q_call_ok_def)
  then have "q_call_ok (set (dl_accepted s)) (dl_ended ?t) (dl_closed s) j (dl_calls ?t ! j)" if "j < length (dl_calls s)" for j
    using dl_invD(1) [OF assms(1) that] that acc_i unfolding ended q_call_ok_def
    by (cases "j = i") (auto simp: dl_set_def split: q_phase.splits)
  then show ?thesis using assms(1) unfolding dl_inv_def acc by (simp add: dl_set_def)
qed

lemma q_call_ok_close: "q_call_ok acc ended closed i c \<Longrightarrow> q_call_ok acc ended True i c"
  by (auto simp: q_call_ok_def split: q_phase.splits if_splits)

lemma dl_inv_step:
  assumes "dl_step s t" "dl_inv s"
  shows "dl_inv t"
  using assms(1)
proof (cases rule: dl_step.cases)
  case (note_sent i)
  show ?thesis unfolding note_sent(1)
    by (rule dl_inv_call(2) [OF assms(2) note_sent(2)])
      (use dl_invD(1) [OF assms(2) note_sent(2)] note_sent(3) in \<open>simp add: q_call_ok_def\<close>)
next
  case (receive i r)
  show ?thesis unfolding receive(1)
    by (rule dl_inv_call(1) [OF assms(2) receive(2)])
      (use dl_invD(1) [OF assms(2) receive(2)] receive(3,4) in \<open>simp add: q_call_ok_def\<close>)
next
  case (give_up i)
  show ?thesis unfolding give_up(1)
    by (rule dl_inv_call(1) [OF assms(2) give_up(2)])
      (use dl_invD(1) [OF assms(2) give_up(2)] give_up(3,4) in \<open>simp add: q_call_ok_def\<close>)
next
  case (worker_take i q)
  then show ?thesis by (intro dl_inv_worker [OF assms(2)]) (auto simp: dl_accepted_def dl_taken_def dl_ended_def)
next
  case (worker_start i)
  then have "i \<notin> set (dl_started s)" using dl_invD(3) [OF assms(2)] by (auto simp: dl_accepted_def dl_taken_def)
  with worker_start show ?thesis
    by (intro dl_inv_worker [OF assms(2)]) (auto simp: dl_accepted_def dl_taken_def dl_ended_def)
next
  case worker_exit
  then show ?thesis by (intro dl_inv_worker [OF assms(2)]) (auto simp: dl_accepted_def dl_taken_def dl_ended_def)
next
  case close
  then show ?thesis using assms(2) by (simp add: dl_inv_def) (blast intro: q_call_ok_close)
qed (use assms(2) in \<open>simp_all add: dl_inv_send dl_inv_new_call dl_inv_finish\<close>)

lemma dl_inv_reachable: "dl_reachable s \<Longrightarrow> dl_inv s"
  by (induction rule: dl_reachable.induct) (auto intro: dl_inv_new dl_inv_step)

section \<open>The adaptive window\<close>

text \<open>
  What both adaptive limiters do to their window: every tenth success widens it by one up to the
  maximum, and a back-off of work that was admitted at position \<open>p\<close> narrows it to \<open>p - 10\<close>, but
  not below the minimum.
\<close>

definition tenth :: "32 word \<Rightarrow> bool" where
  "tenth c \<longleftrightarrow> c mod 10 = 0"

definition grow :: "int \<Rightarrow> int \<times> 32 word \<Rightarrow> int \<times> 32 word" where
  "grow hi = (\<lambda>(w, c). if hi \<le> w then (w, c) else (if tenth (c + 1) then w + 1 else w, c + 1))"

definition shrink :: "int \<Rightarrow> int \<Rightarrow> int \<times> 32 word \<Rightarrow> int \<times> 32 word" where
  "shrink lo p = (\<lambda>(w, c). (if w \<le> lo then w else min w (max lo (p - 10)), c))"

datatype 'w signal = Success 'w | Backoff 'w

fun window_spec :: "('w \<Rightarrow> int) \<Rightarrow> int \<Rightarrow> int \<Rightarrow> 'w signal \<Rightarrow> int \<times> 32 word \<Rightarrow> int \<times> 32 word" where
  "window_spec pos lo hi (Success w) = grow hi"
| "window_spec pos lo hi (Backoff w) = shrink lo (pos w)"

lemma tenth_unat: "tenth c \<longleftrightarrow> unat c mod 10 = 0"
  by (simp add: tenth_def unat_mod word_unat_eq_iff)

text \<open>Among ten consecutive values of the counter there is a multiple of ten, also across the wrap-around.\<close>

lemma ten_successes:
  obtains k where "k < 10" "tenth (c + of_nat (Suc k))"
proof (cases "unat c < 4294967290")
  case True
  define q r where "q = unat c div 10" and "r = unat c mod 10"
  have qr: "unat c = 10 * q + r" "r < 10" by (simp_all add: q_def r_def)
  define k where "k = 9 - r"
  have sum: "unat c + Suc k = 10 * (q + 1)" and k9: "k < 10" using qr by (auto simp: k_def)
  have "10 * q < 4294967290" using True qr(1) by linarith
  then have k: "k < 10" "unat c + Suc k < 2 ^ 32" using k9 unfolding sum by simp_all
  have "unat (of_nat (Suc k) :: 32 word) = Suc k" using k(1) by (simp only: unat_of_nat) simp
  then have "unat (c + of_nat (Suc k)) = unat c + Suc k" using k(2) by (simp only: unat_word_ariths) simp
  moreover have "(unat c + Suc k) mod 10 = 0" unfolding sum by simp
  ultimately show ?thesis using that [of k] k(1) by (simp only: tenth_unat)
next
  case False
  define k where "k = 4294967295 - unat c"
  have "unat c < 4294967296" using unsigned_less [of c, where 'a = nat] by simp
  with False have k: "k < 10" "unat c + Suc k = 2 ^ 32" by (auto simp: k_def)
  have "c + of_nat (Suc k) = of_nat (unat c + Suc k)" by simp
  also have "\<dots> = 0" unfolding k(2) by simp
  finally have "tenth (c + of_nat (Suc k))" by (simp add: tenth_unat)
  then show ?thesis using that k(1) by blast
qed

locale adaptive_window =
  fixes win :: "'s \<Rightarrow> int" and cnt :: "'s \<Rightarrow> 32 word" and lo hi :: "'s \<Rightarrow> int" and pos :: "'w \<Rightarrow> int"
    and up down :: "'w \<Rightarrow> 's \<Rightarrow> 's"
  assumes up_spec: "0 \<le> lo s \<Longrightarrow> lo s \<le> win s \<Longrightarrow> win s \<le> hi s \<Longrightarrow> hi s < MaxInt32 \<Longrightarrow>
      (win (up w s), cnt (up w s)) = grow (hi s) (win s, cnt s)"
    and up_limits: "lo (up w s) = lo s" "hi (up w s) = hi s"
    and down_spec: "0 \<le> lo s \<Longrightarrow> lo s \<le> win s \<Longrightarrow> win s \<le> hi s \<Longrightarrow> hi s < MaxInt32 \<Longrightarrow> 0 \<le> pos w \<Longrightarrow> pos w \<le> MaxInt32 \<Longrightarrow>
      (win (down w s), cnt (down w s)) = shrink (lo s) (pos w) (win s, cnt s)"
    and down_limits: "lo (down w s) = lo s" "hi (down w s) = hi s"
begin

definition in_bounds where
  "in_bounds s \<longleftrightarrow> 0 \<le> lo s \<and> lo s \<le> win s \<and> win s \<le> hi s \<and> hi s < MaxInt32"

fun react where
  "react (Success w) s = up w s"
| "react (Backoff w) s = down w s"

fun known where
  "known (Success w) = True"
| "known (Backoff w) = (0 \<le> pos w \<and> pos w \<le> MaxInt32)"

lemma react_spec:
  assumes "in_bounds s" "known sg"
  shows "(win (react sg s), cnt (react sg s)) = window_spec pos (lo s) (hi s) sg (win s, cnt s)"
    "lo (react sg s) = lo s" "hi (react sg s) = hi s"
  using assms up_spec down_spec by (cases sg; simp add: in_bounds_def up_limits down_limits)+

lemma react_bounds:
  assumes "in_bounds s" "known sg"
  shows "in_bounds (react sg s)"
  using react_spec [OF assms] assms
  by (cases sg) (auto simp: in_bounds_def grow_def shrink_def split: if_splits)

lemma signals_spec:
  assumes "in_bounds s" "\<forall>sg \<in> set sgs. known sg"
  shows "(win (fold react sgs s), cnt (fold react sgs s)) = fold (window_spec pos (lo s) (hi s)) sgs (win s, cnt s) \<and>
    in_bounds (fold react sgs s)"
  using assms
proof (induction sgs arbitrary: s)
  case (Cons sg sgs)
  then have "known sg" by simp
  note r = react_spec [OF Cons.prems(1) this] and b = react_bounds [OF Cons.prems(1) this]
  from Cons.IH [OF b] Cons.prems(2) show ?case unfolding r by simp
qed simp

lemma successes_below:
  assumes "in_bounds s" "\<forall>sg \<in> set sgs. \<exists>w. sg = Success w"
  shows "in_bounds (fold react sgs s) \<and> hi (fold react sgs s) = hi s \<and> win s \<le> win (fold react sgs s) \<and>
    (win (fold react sgs s) = win s \<and> win s < hi s \<longrightarrow> cnt (fold react sgs s) = cnt s + of_nat (length sgs) \<and>
      (\<forall>k < length sgs. \<not> tenth (cnt s + of_nat (Suc k))))"
  using assms
proof (induction sgs arbitrary: s)
  case (Cons sg sgs)
  then obtain w where sg: "sg = Success w" by auto
  have k: "known sg" by (simp add: sg)
  note r = react_spec [OF Cons.prems(1) k] and b = react_bounds [OF Cons.prems(1) k]
  from r(1) have win: "win (up w s) = (if win s < hi s \<and> tenth (cnt s + 1) then win s + 1 else win s)"
    "cnt (up w s) = (if win s < hi s then cnt s + 1 else cnt s)"
    by (simp_all add: sg grow_def split: if_splits)
  from Cons.IH [OF b] Cons.prems(2) have ih: "in_bounds (fold react sgs (up w s))" "hi (fold react sgs (up w s)) = hi s"
    "win (up w s) \<le> win (fold react sgs (up w s))"
    "win (fold react sgs (up w s)) = win (up w s) \<and> win (up w s) < hi s \<longrightarrow>
       cnt (fold react sgs (up w s)) = cnt (up w s) + of_nat (length sgs) \<and>
      (\<forall>k < length sgs. \<not> tenth (cnt (up w s) + of_nat (Suc k)))"
    using r(2,3) by (simp_all add: sg)
  have "cnt (fold react sgs (up w s)) = cnt s + of_nat (Suc (length sgs)) \<and>
      (\<forall>k < Suc (length sgs). \<not> tenth (cnt s + of_nat (Suc k)))"
    if "win (fold react sgs (up w s)) = win s" "win s < hi s"
  proof -
    from that ih(3) win have s1: "win (up w s) = win s" "\<not> tenth (cnt s + 1)" "cnt (up w s) = cnt s + 1"
      by (auto split: if_splits)
    with ih(4) that have "cnt (fold react sgs (up w s)) = cnt s + of_nat (Suc (length sgs))"
      "\<forall>k < length sgs. \<not> tenth (cnt s + of_nat (Suc (Suc k)))" by (simp_all add: add_ac)
    with s1(2) show ?thesis by (auto simp: less_Suc_eq_0_disj simp del: of_nat_Suc) simp
  qed
  with ih(1-3) win show ?case by (auto simp: sg split: if_splits)
qed simp

lemma ten_widen:
  assumes "in_bounds s" "win s < hi s"
  shows "win s < win (fold react (replicate 10 (Success w)) s)"
proof (rule ccontr)
  let ?s' = "fold react (replicate 10 (Success w)) s"
  assume "\<not> ?thesis"
  with successes_below [OF assms(1), of "replicate 10 (Success w)"] assms(2)
  have "\<forall>k < 10. \<not> tenth (cnt s + of_nat (Suc k))" by (simp del: of_nat_Suc)
  moreover obtain k where "k < 10" "tenth (cnt s + of_nat (Suc k))" by (rule ten_successes)
  ultimately show False by blast
qed

lemma recovers:
  assumes "in_bounds s" "hi s - win s \<le> int n"
  shows "win (fold react (replicate (10 * n) (Success w)) s) = hi s"
  using assms
proof (induction n arbitrary: s)
  case 0
  then show ?case by (simp add: in_bounds_def)
next
  case (Suc n)
  let ?s' = "fold react (replicate 10 (Success w)) s"
  note b = successes_below [OF Suc.prems(1), of "replicate 10 (Success w)"]
  have "hi ?s' - win ?s' \<le> int n"
    using b ten_widen [OF Suc.prems(1), of w] Suc.prems by (cases "win s < hi s") (simp_all add: in_bounds_def)
  from Suc.IH [OF _ this] b have "win (fold react (replicate (10 * n) (Success w)) ?s') = hi s"
    by simp
  moreover have "replicate (10 * Suc n) (Success w) = replicate 10 (Success w) @ replicate (10 * n) (Success w)"
    by (simp only: replicate_add [symmetric] mult_Suc_right)
  ultimately show ?case by (simp only: fold_append o_apply)
qed

end

section \<open>The adaptive limiter\<close>

record adaptiveRateLimiter =
  currentWindow :: int
  minWindow :: int
  maxWindow :: int
  successCounter :: "32 word"
  currentSize :: int
  queue_cap :: nat
  work_queue :: "nat list"

text \<open>The locked sections of \<open>success\<close> and \<open>backoff\<close>, and the methods with their unlocked check.\<close>

definition success_locked :: "adaptiveRateLimiter \<Rightarrow> adaptiveRateLimiter" where
  "success_locked s =
     (let s1 = s\<lparr>successCounter := successCounter s + 1\<rparr>
      in if successCounter s1 mod 10 = 0 then
           (let nextVal = i32 (currentWindow s1 + 1); s2 = s1\<lparr>currentWindow := nextVal\<rparr>
            in if nextVal > maxWindow s2 then s2\<lparr>currentWindow := maxWindow s2\<rparr> else s2)
         else s1)"

definition limiter_success :: "adaptiveRateLimiter \<Rightarrow> adaptiveRateLimiter" where
  "limiter_success s = (if currentWindow s \<ge> maxWindow s then s else success_locked s)"

definition backoff_locked :: "int \<Rightarrow> adaptiveRateLimiter \<Rightarrow> adaptiveRateLimiter" where
  "backoff_locked queuePosition s =
     (let current = currentWindow s; nextWindow = i32 (queuePosition - 10)
      in if nextWindow < current then
           (let nextWindow = (if nextWindow < minWindow s then minWindow s else nextWindow)
            in s\<lparr>currentWindow := nextWindow\<rparr>)
         else s)"

definition limiter_backoff :: "int \<Rightarrow> adaptiveRateLimiter \<Rightarrow> adaptiveRateLimiter" where
  "limiter_backoff queuePosition s = (if currentWindow s \<le> minWindow s then s else backoff_locked queuePosition s)"

text \<open>The locked section of \<open>RunRateLimited\<close>: the queue position, if there is room.\<close>

definition admit :: "adaptiveRateLimiter \<Rightarrow> int option \<times> adaptiveRateLimiter" where
  "admit s =
     (let s1 = s\<lparr>currentSize := i32 (currentSize s + 1)\<rparr>; queuePosition = currentSize s1
      in if queuePosition \<le> currentWindow s1 then (Some queuePosition, s1)
         else (None, s1\<lparr>currentSize := i32 (currentSize s1 - 1)\<rparr>))"

definition NewAdaptiveRateLimiter :: "AdaptiveRateLimiterConfig \<Rightarrow> adaptiveRateLimiter option" where
  "NewAdaptiveRateLimiter config =
     (if \<not> Enabled config then None
      else Some \<lparr>currentWindow = i32 (uint (MaxSize config)), minWindow = i32 (uint (MinSize config)),
        maxWindow = i32 (uint (MaxSize config)), successCounter = 0, currentSize = 0,
        queue_cap = unat (MaxSize config), work_queue = []\<rparr>)"

lemma success_locked_spec:
  assumes "0 \<le> currentWindow s" "currentWindow s \<le> maxWindow s" "maxWindow s < MaxInt32"
  shows "success_locked s = s\<lparr>successCounter := successCounter s + 1,
    currentWindow := (if tenth (successCounter s + 1) then min (maxWindow s) (currentWindow s + 1) else currentWindow s)\<rparr>"
proof -
  have "i32 (currentWindow s + 1) = currentWindow s + 1" using assms by (simp add: go_int)
  then show ?thesis by (cases "tenth (successCounter s + 1)") (simp_all add: success_locked_def tenth_def Let_def min_def)
qed

lemma backoff_locked_spec:
  assumes "0 \<le> p" "p \<le> MaxInt32" "minWindow s \<le> currentWindow s"
  shows "backoff_locked p s = s\<lparr>currentWindow := min (currentWindow s) (max (minWindow s) (p - 10))\<rparr>"
proof -
  have "i32 (p - 10) = p - 10" using assms by (simp add: go_int)
  then show ?thesis using assms(3) by (simp add: backoff_locked_def Let_def min_def max_def)
qed

interpretation limiter: adaptive_window currentWindow successCounter minWindow maxWindow id "\<lambda>_. limiter_success" limiter_backoff
proof
  fix s :: adaptiveRateLimiter and p :: int
  assume s: "0 \<le> minWindow s" "minWindow s \<le> currentWindow s" "currentWindow s \<le> maxWindow s" "maxWindow s < MaxInt32"
  then have "0 \<le> currentWindow s" by simp
  from success_locked_spec [OF this s(3,4)] show "(currentWindow (limiter_success s), successCounter (limiter_success s)) =
      grow (maxWindow s) (currentWindow s, successCounter s)"
    by (simp add: limiter_success_def grow_def)
next
  fix s :: adaptiveRateLimiter and p :: int
  assume s: "minWindow s \<le> currentWindow s" "0 \<le> id p" "id p \<le> MaxInt32"
  from backoff_locked_spec [OF s(2,3,1)] show "(currentWindow (limiter_backoff p s), successCounter (limiter_backoff p s)) =
      shrink (minWindow s) (id p) (currentWindow s, successCounter s)"
    by (simp add: limiter_backoff_def shrink_def)
qed (simp_all add: limiter_success_def success_locked_def limiter_backoff_def backoff_locked_def Let_def)

text \<open>
  A call of \<open>RunRateLimited\<close> after its locked section: about to enter the outer \<open>select\<close>, waiting
  for its result, about to run the deferred decrement, returned. The flag says whether it
  returns the limiter's control or the no-op one.
\<close>

datatype ar_phase = Admitted | Waiting | Leaving bool "go_error option" | Returned bool "go_error option"

record ar_call =
  ar_phase :: ar_phase
  queuePosition :: int
  ar_result :: "go_error option option"
  ar_runs :: nat

record ar_sys =
  lim :: adaptiveRateLimiter
  ar_calls :: "ar_call list"
  ar_worker :: worker
  ar_closed :: bool
  ar_signals :: "int signal list"

definition ar_set :: "nat \<Rightarrow> (ar_call \<Rightarrow> ar_call) \<Rightarrow> ar_sys \<Rightarrow> ar_sys" where
  "ar_set i f s = s\<lparr>ar_calls := (ar_calls s)[i := f (ar_calls s ! i)]\<rparr>"

abbreviation at_phase :: "ar_sys \<Rightarrow> nat \<Rightarrow> ar_phase \<Rightarrow> bool" where
  "at_phase s i p \<equiv> i < length (ar_calls s) \<and> ar_phase (ar_calls s ! i) = p"

definition move :: "nat \<Rightarrow> ar_phase \<Rightarrow> ar_sys \<Rightarrow> ar_sys" where
  "move i p s = ar_set i (\<lambda>c. c\<lparr>ar_phase := p\<rparr>) s"

fun apply_signal :: "int signal \<Rightarrow> adaptiveRateLimiter \<Rightarrow> adaptiveRateLimiter" where
  "apply_signal (Success p) = success_locked"
| "apply_signal (Backoff p) = backoff_locked p"

text \<open>The steps of \<open>RunRateLimited\<close>, in the order of the code.\<close>

definition new_call :: "ar_phase \<Rightarrow> int \<Rightarrow> ar_call" where
  "new_call ph p = \<lparr>ar_phase = ph, queuePosition = p, ar_result = None, ar_runs = 0\<rparr>"

definition call_admit :: "ar_sys \<Rightarrow> ar_sys" where
  "call_admit s =
     (case admit (lim s) of
        (Some p, l) \<Rightarrow> s\<lparr>lim := l, ar_calls := ar_calls s @ [new_call Admitted p]\<rparr>
      | (None, l) \<Rightarrow>
          s\<lparr>lim := l, ar_calls := ar_calls s @ [new_call (Returned False (Some NewTooManyUpdatesError)) 0]\<rparr>)"

definition call_enqueue :: "nat \<Rightarrow> ar_sys \<Rightarrow> ar_sys" where
  "call_enqueue i s = (move i Waiting s)\<lparr>lim := (lim s)\<lparr>work_queue := work_queue (lim s) @ [i]\<rparr>\<rparr>"

definition call_overflow :: "nat \<Rightarrow> ar_sys \<Rightarrow> ar_sys" where
  "call_overflow i s = move i (Leaving False (Some NewTooManyUpdatesError)) s"

definition call_cancel :: "nat \<Rightarrow> ar_sys \<Rightarrow> ar_sys" where
  "call_cancel i s = move i (Leaving False (Some shutting_down)) s"

definition call_receive :: "nat \<Rightarrow> go_error option \<Rightarrow> ar_sys \<Rightarrow> ar_sys" where
  "call_receive i r s = move i (Leaving True r) s"

definition call_leave :: "nat \<Rightarrow> bool \<Rightarrow> go_error option \<Rightarrow> ar_sys \<Rightarrow> ar_sys" where
  "call_leave i ctl r s =
     (move i (Returned ctl r) s)\<lparr>lim := (lim s)\<lparr>currentSize := i32 (currentSize (lim s) - 1)\<rparr>\<rparr>"

text \<open>
  One turn of the worker's loop takes a work and either discards it or starts it; its end is a
  step of its own.
\<close>

definition run_take :: "nat \<Rightarrow> nat list \<Rightarrow> ar_sys \<Rightarrow> ar_sys" where
  "run_take i q s =
     (let s1 = s\<lparr>lim := (lim s)\<lparr>work_queue := q\<rparr>\<rparr>
      in if queuePosition (ar_calls s1 ! i) > i32 (currentWindow (lim s1) + 10)
         then ar_set i (\<lambda>c. c\<lparr>ar_result := Some (Some NewTooManyUpdatesError)\<rparr>) s1
         else (ar_set i (\<lambda>c. c\<lparr>ar_runs := ar_runs c + 1\<rparr>) s1)\<lparr>ar_worker := Running i\<rparr>)"

definition run_end :: "nat \<Rightarrow> go_error option \<Rightarrow> ar_sys \<Rightarrow> ar_sys" where
  "run_end i r s = (ar_set i (\<lambda>c. c\<lparr>ar_result := Some r\<rparr>) s)\<lparr>ar_worker := Idle\<rparr>"

text \<open>
  The controls: \<open>Success\<close> and \<open>Backoff\<close> look at the window first, and enter the locked section
  later.
\<close>

definition control_Success :: "nat \<Rightarrow> ar_sys \<Rightarrow> ar_sys" where
  "control_Success i s =
     (if currentWindow (lim s) \<ge> maxWindow (lim s) then s
      else s\<lparr>ar_signals := Success (queuePosition (ar_calls s ! i)) # ar_signals s\<rparr>)"

definition control_Backoff :: "nat \<Rightarrow> ar_sys \<Rightarrow> ar_sys" where
  "control_Backoff i s =
     (if currentWindow (lim s) \<le> minWindow (lim s) then s
      else s\<lparr>ar_signals := Backoff (queuePosition (ar_calls s ! i)) # ar_signals s\<rparr>)"

definition control_locked :: "int signal \<Rightarrow> ar_sys \<Rightarrow> ar_sys" where
  "control_locked sg s = s\<lparr>lim := apply_signal sg (lim s), ar_signals := remove1 sg (ar_signals s)\<rparr>"

inductive ar_step :: "ar_sys \<Rightarrow> ar_sys \<Rightarrow> bool" where
  admission: "ar_step s (call_admit s)"
| enqueue: "at_phase s i Admitted \<Longrightarrow> length (work_queue (lim s)) < queue_cap (lim s) \<Longrightarrow> ar_step s (call_enqueue i s)"
| overflow: "at_phase s i Admitted \<Longrightarrow> length (work_queue (lim s)) \<ge> queue_cap (lim s) \<Longrightarrow> \<not> ar_closed s \<Longrightarrow>
    ar_step s (call_overflow i s)"
| cancel_send: "at_phase s i Admitted \<Longrightarrow> ar_closed s \<Longrightarrow> ar_step s (call_cancel i s)"
| cancel_wait: "at_phase s i Waiting \<Longrightarrow> ar_closed s \<Longrightarrow> ar_step s (call_cancel i s)"
| receive_result: "at_phase s i Waiting \<Longrightarrow> ar_result (ar_calls s ! i) = Some r \<Longrightarrow> ar_step s (call_receive i r s)"
| leave: "at_phase s i (Leaving ctl r) \<Longrightarrow> ar_step s (call_leave i ctl r s)"
| take_work: "ar_worker s = Idle \<Longrightarrow> work_queue (lim s) = i # q \<Longrightarrow> ar_step s (run_take i q s)"
| finish: "ar_worker s = Running i \<Longrightarrow> ar_step s (run_end i r s)"
| stop: "ar_worker s = Idle \<Longrightarrow> ar_closed s \<Longrightarrow> ar_step s (s\<lparr>ar_worker := Stopped\<rparr>)"
| shut: "ar_step s (s\<lparr>ar_closed := True\<rparr>)"
| signal_success: "at_phase s i (Returned True r) \<Longrightarrow> ar_step s (control_Success i s)"
| signal_backoff: "at_phase s i (Returned True r) \<Longrightarrow> ar_step s (control_Backoff i s)"
| signal_locked: "sg \<in> set (ar_signals s) \<Longrightarrow> ar_step s (control_locked sg s)"

inductive ar_reachable :: "AdaptiveRateLimiterConfig \<Rightarrow> ar_sys \<Rightarrow> bool" for config where
  ar_new: "NewAdaptiveRateLimiter config = Some l \<Longrightarrow>
    ar_reachable config \<lparr>lim = l, ar_calls = [], ar_worker = Idle, ar_closed = False, ar_signals = []\<rparr>"
| ar_next: "ar_reachable config s \<Longrightarrow> ar_step s t \<Longrightarrow> ar_reachable config t"

subsection \<open>Slots, queue and results\<close>

definition holds_slot :: "ar_call \<Rightarrow> bool" where
  "holds_slot c = (case ar_phase c of Returned _ _ \<Rightarrow> False | _ \<Rightarrow> True)"

definition slots :: "ar_call list \<Rightarrow> nat" where
  "slots cs = length (filter holds_slot cs)"

lemma slots_simps [simp]: "slots [] = 0" "slots (cs @ [c]) = slots cs + (if holds_slot c then 1 else 0)"
  by (simp_all add: slots_def)

lemma slots_update:
  "i < length cs \<Longrightarrow> int (slots (cs[i := c])) =
     int (slots cs) - (if holds_slot (cs ! i) then 1 else 0) + (if holds_slot c then 1 else 0)"
proof (induction cs arbitrary: i)
  case (Cons x cs)
  show ?case
  proof (cases i)
    case 0
    then show ?thesis by (simp add: slots_def)
  next
    case (Suc k)
    with Cons.prems Cons.IH [of k] show ?thesis by (auto simp: slots_def split: if_splits)
  qed
qed simp

text \<open>
  The state of a call. A work in the queue has not been run, the one being run has no result yet,
  a result comes from one run or from a discarded work, and a call that returns without the
  limiter's control was refused before its work was queued or gave up at shut down.
\<close>

definition ar_call_ok :: "bool \<Rightarrow> bool \<Rightarrow> bool \<Rightarrow> int \<Rightarrow> ar_call \<Rightarrow> bool" where
  "ar_call_ok closed queued running mx c \<longleftrightarrow>
     0 \<le> queuePosition c \<and> queuePosition c \<le> mx \<and> ar_runs c \<le> 1 \<and>
     (queued \<longrightarrow> ar_runs c = 0 \<and> ar_result c = None \<and> \<not> running) \<and>
     (running \<longrightarrow> ar_runs c = 1 \<and> ar_result c = None) \<and>
     (ar_result c \<noteq> None \<longrightarrow> ar_runs c = 1 \<or> ar_result c = Some (Some NewTooManyUpdatesError)) \<and>
     (case ar_phase c of
        Admitted \<Rightarrow> \<not> queued \<and> \<not> running \<and> ar_runs c = 0 \<and> ar_result c = None
      | Waiting \<Rightarrow> queued \<or> running \<or> ar_result c \<noteq> None
      | Leaving ctl r \<Rightarrow> if ctl then ar_result c = Some r
          else closed \<and> r = Some shutting_down \<or>
               r = Some NewTooManyUpdatesError \<and> ar_runs c = 0 \<and> ar_result c = None \<and> \<not> queued \<and> \<not> running
      | Returned ctl r \<Rightarrow> if ctl then ar_result c = Some r
          else closed \<and> r = Some shutting_down \<or>
               r = Some NewTooManyUpdatesError \<and> ar_runs c = 0 \<and> ar_result c = None \<and> \<not> queued \<and> \<not> running)"

definition limiter_ok :: "adaptiveRateLimiter \<Rightarrow> bool" where
  "limiter_ok l \<longleftrightarrow> 1 \<le> minWindow l \<and> minWindow l \<le> currentWindow l \<and> currentWindow l \<le> maxWindow l \<and>
     maxWindow l < MaxInt32 \<and> int (queue_cap l) = maxWindow l"

definition queue_ok :: "ar_sys \<Rightarrow> bool" where
  "queue_ok s \<longleftrightarrow> distinct (work_queue (lim s)) \<and> length (work_queue (lim s)) \<le> queue_cap (lim s) \<and>
     (\<forall>i \<in> set (work_queue (lim s)). i < length (ar_calls s))"

definition calls_ok :: "ar_sys \<Rightarrow> bool" where
  "calls_ok s \<longleftrightarrow> (\<forall>i < length (ar_calls s).
     ar_call_ok (ar_closed s) (i \<in> set (work_queue (lim s))) (ar_worker s = Running i) (maxWindow (lim s)) (ar_calls s ! i))"

fun signal_pos :: "'w signal \<Rightarrow> 'w" where
  "signal_pos (Success p) = p"
| "signal_pos (Backoff p) = p"

definition ar_inv :: "ar_sys \<Rightarrow> bool" where
  "ar_inv s \<longleftrightarrow> limiter_ok (lim s) \<and> queue_ok s \<and> calls_ok s \<and>
     currentSize (lim s) = int (slots (ar_calls s)) \<and> currentSize (lim s) \<le> maxWindow (lim s) \<and>
     (\<forall>i. ar_worker s = Running i \<longrightarrow> i < length (ar_calls s)) \<and>
     (\<forall>sg \<in> set (ar_signals s). 0 \<le> signal_pos sg \<and> signal_pos sg \<le> maxWindow (lim s))"

lemmas ar_inv_defs = ar_inv_def queue_ok_def calls_ok_def

text \<open>A step that changes one call, and where its work is, keeps the invariant if it keeps that call's.\<close>

lemma ar_inv_one_call:
  assumes inv: "ar_inv s" and i: "i < length (ar_calls s)"
    and calls: "ar_calls t = (ar_calls s)[i := c]" and same: "ar_closed t = ar_closed s" "ar_signals t = ar_signals s"
    and lim: "lim t = (lim s)\<lparr>currentSize := n, work_queue := q\<rparr>"
    and n: "n = currentSize (lim s) - (if holds_slot (ar_calls s ! i) then 1 else 0) + (if holds_slot c then 1 else 0)"
    and slot: "holds_slot c \<longrightarrow> holds_slot (ar_calls s ! i)"
    and q: "distinct q" "length q \<le> queue_cap (lim s)" "\<And>j. j \<noteq> i \<Longrightarrow> j \<in> set q \<longleftrightarrow> j \<in> set (work_queue (lim s))"
    and w: "\<And>j. j \<noteq> i \<Longrightarrow> ar_worker t = Running j \<longleftrightarrow> ar_worker s = Running j"
    and c: "ar_call_ok (ar_closed s) (i \<in> set q) (ar_worker t = Running i) (maxWindow (lim s)) c"
  shows "ar_inv t"
proof -
  have "j < length (ar_calls s)" if "ar_worker t = Running j" for j
    using that w [of j] i inv by (cases "j = i") (auto simp: ar_inv_def)
  moreover have "j < length (ar_calls s)" if "j \<in> set q" for j
    using that q(3) [of j] i inv by (cases "j = i") (auto simp: ar_inv_def queue_ok_def)
  moreover have "ar_call_ok (ar_closed s) (j \<in> set q) (ar_worker t = Running j) (maxWindow (lim s)) (ar_calls t ! j)"
    if "j < length (ar_calls s)" for j
    using that c q(3) [of j] w [of j] inv i by (cases "j = i") (auto simp: ar_inv_def calls_ok_def calls)
  moreover have "n = int (slots (ar_calls t))"
    unfolding calls slots_update [OF i] n using inv by (simp add: ar_inv_def)
  moreover have "n \<le> maxWindow (lim s)" using inv slot unfolding n ar_inv_def by (cases "holds_slot c") auto
  ultimately show ?thesis
    using inv q(1,2) by (simp add: ar_inv_defs limiter_ok_def lim same calls)
qed

lemma call_update_simps [simp]:
  "lim (move i p s) = lim s" "ar_worker (move i p s) = ar_worker s" "ar_closed (move i p s) = ar_closed s"
  "ar_signals (move i p s) = ar_signals s" "lim (ar_set i f s) = lim s" "ar_worker (ar_set i f s) = ar_worker s"
  "ar_closed (ar_set i f s) = ar_closed s" "ar_signals (ar_set i f s) = ar_signals s"
  "ar_calls (ar_set i f s) = (ar_calls s)[i := f (ar_calls s ! i)]"
  "ar_calls (move i p s) = (ar_calls s)[i := (ar_calls s ! i)\<lparr>ar_phase := p\<rparr>]"
  by (simp_all add: move_def ar_set_def)

lemma ar_invD:
  assumes "ar_inv s"
  shows "\<And>i. i < length (ar_calls s) \<Longrightarrow>
      ar_call_ok (ar_closed s) (i \<in> set (work_queue (lim s))) (ar_worker s = Running i) (maxWindow (lim s)) (ar_calls s ! i)"
    "distinct (work_queue (lim s))" "length (work_queue (lim s)) \<le> queue_cap (lim s)" "limiter_ok (lim s)"
    "\<And>i. i \<in> set (work_queue (lim s)) \<Longrightarrow> i < length (ar_calls s)"
    "\<And>i. ar_worker s = Running i \<Longrightarrow> i < length (ar_calls s)"
    "currentSize (lim s) = int (slots (ar_calls s))" "currentSize (lim s) \<le> maxWindow (lim s)"
  using assms by (simp_all add: ar_inv_defs)

lemma ar_inv_move:
  assumes "ar_inv s" "i < length (ar_calls s)" "holds_slot (ar_calls s ! i)"
    and "ar_call_ok (ar_closed s) (i \<in> set (work_queue (lim s))) (ar_worker s = Running i) (maxWindow (lim s))
      ((ar_calls s ! i)\<lparr>ar_phase := p\<rparr>)"
    and "holds_slot ((ar_calls s ! i)\<lparr>ar_phase := p\<rparr>)"
  shows "ar_inv (move i p s)"
  by (rule ar_inv_one_call [OF assms(1,2), where n = "currentSize (lim s)" and q = "work_queue (lim s)"
        and c = "(ar_calls s ! i)\<lparr>ar_phase := p\<rparr>"])
    (use assms(3-5) ar_invD(2,3) [OF assms(1)] in simp_all)

lemma ar_inv_admit:
  assumes "ar_inv s"
  shows "ar_inv (call_admit s)"
proof -
  let ?l = "lim s" and ?n = "length (ar_calls s)"
  note inv = ar_invD [OF assms]
  have rng: "0 \<le> currentSize ?l" "currentSize ?l \<le> maxWindow ?l" "maxWindow ?l < MaxInt32"
    using inv(4,7,8) by (simp_all add: limiter_ok_def)
  then have add: "i32 (currentSize ?l + 1) = currentSize ?l + 1" "i32 (currentSize ?l) = currentSize ?l"
    by (simp_all add: go_int)
  have out: "?n \<notin> set (work_queue ?l)" "ar_worker s \<noteq> Running ?n" using inv(5) [of ?n] inv(6) [of ?n] by auto
  show ?thesis
  proof (cases "currentSize ?l + 1 \<le> currentWindow ?l")
    case True
    then have a: "call_admit s = s\<lparr>lim := ?l\<lparr>currentSize := currentSize ?l + 1\<rparr>,
        ar_calls := ar_calls s @ [new_call Admitted (currentSize ?l + 1)]\<rparr>"
      by (simp add: call_admit_def admit_def Let_def add)
    have "currentSize ?l + 1 \<le> maxWindow ?l" using True inv(4) by (simp add: limiter_ok_def)
    then show ?thesis unfolding a using assms out rng(1)
      by (auto simp: ar_inv_defs limiter_ok_def new_call_def holds_slot_def ar_call_ok_def nth_append less_Suc_eq)
  next
    case False
    then have a: "call_admit s = s\<lparr>ar_calls := ar_calls s @ [new_call (Returned False (Some NewTooManyUpdatesError)) 0]\<rparr>"
      by (simp add: call_admit_def admit_def Let_def add)
    show ?thesis unfolding a using assms out rng
      by (auto simp: ar_inv_defs limiter_ok_def new_call_def holds_slot_def ar_call_ok_def nth_append less_Suc_eq)
  qed
qed

lemma ar_inv_enqueue:
  assumes "ar_inv s" "at_phase s i Admitted" "length (work_queue (lim s)) < queue_cap (lim s)"
  shows "ar_inv (call_enqueue i s)"
proof -
  note inv = ar_invD [OF assms(1)]
  have c: "ar_call_ok (ar_closed s) (i \<in> set (work_queue (lim s))) (ar_worker s = Running i) (maxWindow (lim s)) (ar_calls s ! i)"
    using inv(1) assms(2) by blast
  then have out: "i \<notin> set (work_queue (lim s))" "ar_worker s \<noteq> Running i" using assms(2) by (simp_all add: ar_call_ok_def)
  with c assms(2) have c': "ar_call_ok (ar_closed s) (i \<in> set (work_queue (lim s) @ [i])) (ar_worker (call_enqueue i s) = Running i)
      (maxWindow (lim s)) ((ar_calls s ! i)\<lparr>ar_phase := Waiting\<rparr>)"
    by (simp add: ar_call_ok_def call_enqueue_def)
  show ?thesis
    by (rule ar_inv_one_call [OF assms(1) _ _ _ _ _ _ _ _ _ _ _ c', where n = "currentSize (lim s)"])
      (use assms(2,3) out inv(2) in \<open>simp_all add: call_enqueue_def holds_slot_def\<close>)
qed

lemma ar_inv_leave:
  assumes "ar_inv s" "at_phase s i (Leaving ctl r)"
  shows "ar_inv (call_leave i ctl r s)"
proof -
  note inv = ar_invD [OF assms(1)]
  have "holds_slot (ar_calls s ! i)" using assms(2) by (simp add: holds_slot_def)
  then have "i32 (currentSize (lim s) - 1) = currentSize (lim s) - 1"
    using inv(4,7,8) by (simp add: go_int limiter_ok_def)
  moreover have c': "ar_call_ok (ar_closed s) (i \<in> set (work_queue (lim s))) (ar_worker (call_leave i ctl r s) = Running i)
      (maxWindow (lim s)) ((ar_calls s ! i)\<lparr>ar_phase := Returned ctl r\<rparr>)"
    using inv(1) [of i] assms(2) by (simp add: ar_call_ok_def call_leave_def)
  ultimately show ?thesis
    by (intro ar_inv_one_call [OF assms(1) _ _ _ _ _ _ _ _ _ _ _ c', where n = "currentSize (lim s) - 1"])
      (use assms(2) inv(2,3) in \<open>simp_all add: call_leave_def holds_slot_def\<close>)
qed

lemma ar_inv_take:
  assumes "ar_inv s" "ar_worker s = Idle" "work_queue (lim s) = i # q"
  shows "ar_inv (run_take i q s)"
proof -
  note inv = ar_invD [OF assms(1)]
  have i: "i < length (ar_calls s)" "i \<notin> set q" "distinct q" "length q \<le> queue_cap (lim s)"
    using inv(2,3) inv(5) [of i] assms(3) by auto
  have c: "ar_call_ok (ar_closed s) True False (maxWindow (lim s)) (ar_calls s ! i)"
    using inv(1) [OF i(1)] assms(2,3) by simp
  define disc where "disc \<longleftrightarrow> queuePosition (ar_calls s ! i) > i32 (currentWindow (lim s) + 10)"
  define c2 where "c2 = (if disc then (ar_calls s ! i)\<lparr>ar_result := Some (Some NewTooManyUpdatesError)\<rparr>
      else (ar_calls s ! i)\<lparr>ar_runs := ar_runs (ar_calls s ! i) + 1\<rparr>)"
  have run: "ar_calls (run_take i q s) = (ar_calls s)[i := c2]" "lim (run_take i q s) = (lim s)\<lparr>work_queue := q\<rparr>"
    "ar_worker (run_take i q s) = (if disc then Idle else Running i)" "ar_closed (run_take i q s) = ar_closed s"
    "ar_signals (run_take i q s) = ar_signals s"
    using assms(2) by (simp_all add: run_take_def Let_def disc_def c2_def)
  have c': "ar_call_ok (ar_closed s) (i \<in> set q) (ar_worker (run_take i q s) = Running i) (maxWindow (lim s)) c2"
    using c i(2) unfolding run(3) c2_def
    by (cases disc; cases "ar_phase (ar_calls s ! i)") (auto simp: ar_call_ok_def split: if_splits)
  have "holds_slot c2 = holds_slot (ar_calls s ! i)" by (simp add: c2_def holds_slot_def)
  then show ?thesis
    by (intro ar_inv_one_call [OF assms(1) i(1) run(1) run(4,5) _ _ _ _ _ _ _ c', where n = "currentSize (lim s)"])
      (use assms(2,3) i run(2,3) in auto)
qed

lemma ar_inv_end:
  assumes "ar_inv s" "ar_worker s = Running i"
  shows "ar_inv (run_end i r s)"
proof -
  note inv = ar_invD [OF assms(1)]
  have i: "i < length (ar_calls s)" by (rule inv(6) [OF assms(2)])
  have c: "ar_call_ok (ar_closed s) (i \<in> set (work_queue (lim s))) True (maxWindow (lim s)) (ar_calls s ! i)"
    using inv(1) [OF i] assms(2) by simp
  let ?c = "(ar_calls s ! i)\<lparr>ar_result := Some r\<rparr>"
  have c': "ar_call_ok (ar_closed s) (i \<in> set (work_queue (lim s))) (ar_worker (run_end i r s) = Running i) (maxWindow (lim s)) ?c"
    using c by (cases "ar_phase (ar_calls s ! i)") (auto simp: ar_call_ok_def run_end_def split: if_splits)
  show ?thesis
    by (rule ar_inv_one_call [OF assms(1) i _ _ _ _ _ _ _ _ _ _ c', where n = "currentSize (lim s)"])
      (use assms(2) inv(2,3) in \<open>simp_all add: run_end_def holds_slot_def\<close>)
qed

lemma apply_signal_fields:
  "work_queue (apply_signal sg l) = work_queue l" "currentSize (apply_signal sg l) = currentSize l"
  "maxWindow (apply_signal sg l) = maxWindow l" "minWindow (apply_signal sg l) = minWindow l"
  "queue_cap (apply_signal sg l) = queue_cap l"
  by (cases sg; simp add: success_locked_def backoff_locked_def Let_def)+

lemma limiter_ok_signal:
  assumes "limiter_ok l" "0 \<le> signal_pos sg" "signal_pos sg \<le> maxWindow l"
  shows "limiter_ok (apply_signal sg l)"
  using assms success_locked_spec [of l] backoff_locked_spec [of "signal_pos sg" l] by (cases sg) (auto simp: limiter_ok_def)

lemma ar_inv_locked:
  assumes "ar_inv s" "sg \<in> set (ar_signals s)"
  shows "ar_inv (control_locked sg s)"
proof -
  have "limiter_ok (apply_signal sg (lim s))"
    by (rule limiter_ok_signal) (use assms in \<open>simp_all add: ar_inv_def\<close>)
  with assms(1) show ?thesis
    by (simp add: ar_inv_defs control_locked_def apply_signal_fields) (meson notin_set_remove1)
qed

lemma ar_call_ok_close: "ar_call_ok closed queued running mx c \<Longrightarrow> ar_call_ok True queued running mx c"
  unfolding ar_call_ok_def by (cases "ar_phase c") (auto split: if_splits)

lemma ar_inv_control:
  assumes "ar_inv s" "at_phase s i (Returned True r)"
  shows "ar_inv (control_Success i s)" "ar_inv (control_Backoff i s)"
proof -
  have "0 \<le> queuePosition (ar_calls s ! i)" "queuePosition (ar_calls s ! i) \<le> maxWindow (lim s)"
    using ar_invD(1) [OF assms(1), of i] assms(2) by (simp_all add: ar_call_ok_def)
  with assms(1) show "ar_inv (control_Success i s)" "ar_inv (control_Backoff i s)"
    by (simp_all add: ar_inv_defs control_Success_def control_Backoff_def)
qed

text \<open>An admitted call finds room in the queue: the works queued before it hold slots of their own.\<close>

lemma admitted_has_room:
  assumes "ar_inv s" "at_phase s i Admitted" "\<not> ar_closed s"
  shows "length (work_queue (lim s)) < queue_cap (lim s)"
proof -
  let ?q = "work_queue (lim s)" and ?H = "{j. j < length (ar_calls s) \<and> holds_slot (ar_calls s ! j)}"
  note inv = ar_invD [OF assms(1)]
  have held: "j \<in> ?H" if "j \<in> set ?q" for j
    using inv(1) [OF inv(5) [OF that]] inv(5) [OF that] that assms(3)
    by (cases "ar_phase (ar_calls s ! j)") (auto simp: ar_call_ok_def holds_slot_def split: if_splits)
  have i: "i \<in> ?H" "i \<notin> set ?q" using assms(2) inv(1) [of i] by (auto simp: ar_call_ok_def holds_slot_def)
  have "card (insert i (set ?q)) \<le> card ?H" by (rule card_mono) (use i held in auto)
  then have "Suc (length ?q) \<le> card ?H" using i(2) inv(2) by (simp add: distinct_card)
  also have "card ?H = slots (ar_calls s)" by (simp add: slots_def length_filter_conv_card)
  finally show ?thesis using inv(4,7,8) by (simp add: limiter_ok_def)
qed

lemma ar_inv_step:
  assumes "ar_step s t" "ar_inv s"
  shows "ar_inv t"
  using assms(1)
proof (cases rule: ar_step.cases)
  case (overflow i)
  with admitted_has_room [OF assms(2), of i] show ?thesis by simp
next
  case (cancel_send i)
  show ?thesis unfolding cancel_send(1) call_cancel_def
    by (rule ar_inv_move [OF assms(2)])
      (use cancel_send(2,3) ar_invD(1) [OF assms(2), of i] in \<open>simp_all add: ar_call_ok_def holds_slot_def\<close>)
next
  case (cancel_wait i)
  show ?thesis unfolding cancel_wait(1) call_cancel_def
    by (rule ar_inv_move [OF assms(2)])
      (use cancel_wait(2,3) ar_invD(1) [OF assms(2), of i] in \<open>simp_all add: ar_call_ok_def holds_slot_def\<close>)
next
  case (receive_result i r)
  show ?thesis unfolding receive_result(1) call_receive_def
    by (rule ar_inv_move [OF assms(2)])
      (use receive_result(2,3) ar_invD(1) [OF assms(2), of i] in \<open>simp_all add: ar_call_ok_def holds_slot_def\<close>)
next
  case stop
  with assms(2) show ?thesis by (simp add: ar_inv_defs)
next
  case shut
  with assms(2) show ?thesis by (simp add: ar_inv_defs) (blast intro: ar_call_ok_close)
qed (use assms(2) in \<open>simp_all add: ar_inv_admit ar_inv_enqueue ar_inv_leave ar_inv_take ar_inv_end ar_inv_locked ar_inv_control\<close>)

text \<open>The window limits a configuration must have: \<open>int32\<close> positions do not wrap.\<close>

definition window_config :: "AdaptiveRateLimiterConfig \<Rightarrow> bool" where
  "window_config config \<longleftrightarrow> 1 \<le> MinSize config \<and> MinSize config \<le> MaxSize config \<and> uint (MaxSize config) < MaxInt32"

lemma window_config_int:
  assumes "window_config config"
  shows "i32 (uint (MaxSize config)) = uint (MaxSize config)" "i32 (uint (MinSize config)) = uint (MinSize config)"
    "1 \<le> uint (MinSize config)" "uint (MinSize config) \<le> uint (MaxSize config)"
proof -
  show b: "1 \<le> uint (MinSize config)" "uint (MinSize config) \<le> uint (MaxSize config)"
    using assms by (simp_all add: window_config_def word_le_def)
  then show "i32 (uint (MaxSize config)) = uint (MaxSize config)" "i32 (uint (MinSize config)) = uint (MinSize config)"
    using assms by (simp_all add: window_config_def go_int)
qed

lemma ar_inv_reachable:
  assumes "ar_reachable config s" "window_config config"
  shows "ar_inv s \<and> maxWindow (lim s) = uint (MaxSize config) \<and> minWindow (lim s) = uint (MinSize config)"
  using assms(1)
proof (induction rule: ar_reachable.induct)
  case (ar_new l)
  then show ?case using window_config_int [OF assms(2)] assms(2)
    by (auto simp: NewAdaptiveRateLimiter_def ar_inv_defs limiter_ok_def window_config_def split: if_splits)
next
  case (ar_next s t)
  have "maxWindow (lim t) = maxWindow (lim s) \<and> minWindow (lim t) = minWindow (lim s)"
    using ar_next.hyps(2)
    by (cases rule: ar_step.cases) (simp_all add: call_admit_def admit_def Let_def call_enqueue_def call_overflow_def
        call_cancel_def call_receive_def call_leave_def run_take_def run_end_def control_Success_def control_Backoff_def
        control_locked_def apply_signal_fields split: prod.splits option.splits)
  with ar_next.IH ar_inv_step [OF ar_next.hyps(2)] show ?case by simp
qed

section \<open>Properties\<close>

text \<open>The size an integer of the configuration stands for, as a number; the old one if none is given.\<close>

definition given_size :: "(string \<rightharpoonup> cfg_value) \<Rightarrow> string \<Rightarrow> 32 word \<Rightarrow> int" where
  "given_size m key old = (case m key of Some (CfgInt v) \<Rightarrow> v mod 2 ^ 32 | _ \<Rightarrow> uint old)"

lemma load_size_cases:
  "(\<exists>s. m key = Some (CfgOther s)) \<and> load_size key m old = Inl key \<or>
   (\<forall>s. m key \<noteq> Some (CfgOther s)) \<and> (\<exists>w. load_size key m old = Inr w \<and> uint w = given_size m key old)"
  by (auto simp: given_size_def uint_word_of_int_eq take_bit_eq_mod split: option.splits cfg_value.splits)

text \<open>
  C34. \<open>LoadAdaptiveRateLimiterConfig\<close> reads a size from an integer by its low 32 bits, so that -1
  is 4294967295, and keeps the old size when none is given. It accepts a configuration exactly
  when the sizes given are integers, the sizes so read satisfy 1 \<open>\<le>\<close> min \<open>\<le>\<close> max and the timeout, if
  given, is a duration. An accepted configuration has these sizes, the timeout given and is
  enabled as given; what is not given stays as it was.
\<close>

theorem loaded_config_valid:
  assumes "LoadAdaptiveRateLimiterConfig parseDuration m cfg0 = (err, cfg)"
  shows "(err = None \<longleftrightarrow>
      (\<forall>s. m ''maxSize'' \<noteq> Some (CfgOther s)) \<and> (\<forall>s. m ''minSize'' \<noteq> Some (CfgOther s)) \<and>
      1 \<le> given_size m ''minSize'' (MinSize cfg0) \<and>
      given_size m ''minSize'' (MinSize cfg0) \<le> given_size m ''maxSize'' (MaxSize cfg0) \<and>
      (\<forall>v. m ''timeout'' = Some v \<longrightarrow> parseDuration (render_v v) \<noteq> None)) \<and>
    (err = None \<longrightarrow>
      uint (MaxSize cfg) = given_size m ''maxSize'' (MaxSize cfg0) \<and>
      uint (MinSize cfg) = given_size m ''minSize'' (MinSize cfg0) \<and>
      (case m ''timeout'' of
         Some v \<Rightarrow> parseDuration (render_v v) = Some (Timeout cfg) | None \<Rightarrow> Timeout cfg = Timeout cfg0) \<and>
      Enabled cfg = (case m ''enabled'' of Some v \<Rightarrow> map ascii_lower (render_v v) = ''true'' | None \<Rightarrow> Enabled cfg0) \<and>
      WorkTimerMetric cfg = WorkTimerMetric cfg0 \<and> QueueSizeMetric cfg = QueueSizeMetric cfg0 \<and>
      WindowSizeMetric cfg = WindowSizeMetric cfg0)"
proof -
  have en: "load_enabled m e = (case m ''enabled'' of Some v \<Rightarrow> map ascii_lower (render_v v) = ''true'' | None \<Rightarrow> e)" for e
    by (simp add: load_enabled_def equal_fold_true_def split: option.splits)
  have one: "w < 1 \<longleftrightarrow> \<not> 1 \<le> uint w" for w :: "32 word" by (simp add: word_less_def linorder_not_le)
  show ?thesis
    using load_size_cases [of m "''maxSize''" "MaxSize cfg0"] load_size_cases [of m "''minSize''" "MinSize cfg0"] assms
    unfolding LoadAdaptiveRateLimiterConfig_def Let_def en
    by (auto simp: one word_less_def simp del: load_size.simps split: if_splits option.splits)
qed

theorem loaded_config_valid_witness:
  "\<exists>cfg. LoadAdaptiveRateLimiterConfig (\<lambda>s. if s = ''5s'' then Some (5 * second) else None)
      [''maxSize'' \<mapsto> CfgInt 40, ''enabled'' \<mapsto> CfgOther ''True'', ''timeout'' \<mapsto> CfgOther ''5s'']
      (SetDefaults \<lparr>Enabled = False, MaxSize = 0, MinSize = 0, WorkTimerMetric = '''', QueueSizeMetric = '''',
        WindowSizeMetric = '''', Timeout = 0\<rparr>) = (None, cfg) \<and>
      uint (MinSize cfg) = 5 \<and> uint (MaxSize cfg) = 40 \<and> Timeout cfg = 5000000000"
proof -
  let ?load = "LoadAdaptiveRateLimiterConfig (\<lambda>s. if s = ''5s'' then Some (5 * second) else None)
      [''maxSize'' \<mapsto> CfgInt 40, ''enabled'' \<mapsto> CfgOther ''True'', ''timeout'' \<mapsto> CfgOther ''5s'']
      (SetDefaults \<lparr>Enabled = False, MaxSize = 0, MinSize = 0, WorkTimerMetric = '''', QueueSizeMetric = '''',
        WindowSizeMetric = '''', Timeout = 0\<rparr>)"
  have "fst ?load = None" by code_simp
  then have run: "?load = (None, snd ?load)" by (simp add: prod_eq_iff)
  from loaded_config_valid [OF run] have "uint (MinSize (snd ?load)) = 5 \<and> uint (MaxSize (snd ?load)) = 40 \<and>
    Timeout (snd ?load) = 5000000000"
    by (simp add: SetDefaults_def second_def given_size_def)
  with run show ?thesis by blast
qed

text \<open>
  C35. The queue-based limiter starts the works in the order of the calls and each at most once,
  never queues more than its size, and loses none: a call that still waits has its work queued or
  started. A call returns the result of its own work's run, or an error because the queue was
  full, in which case its work is never run, or because the limiter shuts down.
\<close>

theorem default_limiter_fifo:
  assumes "dl_reachable s"
  shows "sorted_wrt (<) (dl_started s) \<and> distinct (dl_started s) \<and>
    length (dl_queue s) \<le> unat (rl_QueueSize (dl_config s)) \<and> 10 \<le> unat (rl_QueueSize (dl_config s)) \<and>
    (\<forall>i < length (dl_calls s).
       case q_phase (dl_calls s ! i) of
         QReturned r \<Rightarrow> i \<in> dl_ended s \<and> q_result (dl_calls s ! i) = Some r \<or>
           r = Some NewTooManyUpdatesError \<and> i \<notin> set (dl_accepted s) \<or> r = Some shutting_down \<and> dl_closed s
       | _ \<Rightarrow> i \<in> set (dl_accepted s))"
proof -
  have inv: "dl_inv s" by (rule dl_inv_reachable [OF assms])
  then have srt: "sorted_wrt (<) (dl_started s)" by (simp add: dl_inv_def dl_accepted_def sorted_wrt_append)
  have "case q_phase (dl_calls s ! i) of
         QReturned r \<Rightarrow> i \<in> dl_ended s \<and> q_result (dl_calls s ! i) = Some r \<or>
           r = Some NewTooManyUpdatesError \<and> i \<notin> set (dl_accepted s) \<or> r = Some shutting_down \<and> dl_closed s
       | _ \<Rightarrow> i \<in> set (dl_accepted s)" if "i < length (dl_calls s)" for i
    using dl_invD(1) [OF inv that] by (cases "q_phase (dl_calls s ! i)") (auto simp: q_call_ok_def split: if_splits)
  with inv srt show ?thesis by (simp add: dl_inv_def strict_sorted_iff)
qed

text \<open>
  C7. In every reachable state of the adaptive limiter, under any interleaving, the window is
  between the configured limits and \<open>currentSize\<close> is the number of calls holding a slot, at most
  the maximum. Until shut down an admitted call always finds room in the queue. A call that
  returns with the limiter's control has the result of the one run of its work, or was refused
  without running it because the window had shrunk; one that returns without it before shut
  down was refused and its work never ran.
\<close>

theorem adaptive_limiter_safe:
  assumes "ar_reachable config s" "window_config config"
  shows "uint (MinSize config) \<le> currentWindow (lim s) \<and> currentWindow (lim s) \<le> uint (MaxSize config) \<and>
    currentSize (lim s) = int (slots (ar_calls s)) \<and> currentSize (lim s) \<le> uint (MaxSize config) \<and>
    (\<forall>i. at_phase s i Admitted \<and> \<not> ar_closed s \<longrightarrow> length (work_queue (lim s)) < queue_cap (lim s)) \<and>
    (\<forall>i r. at_phase s i (Returned True r) \<longrightarrow> ar_result (ar_calls s ! i) = Some r \<and>
       (ar_runs (ar_calls s ! i) = 1 \<or> ar_runs (ar_calls s ! i) = 0 \<and> r = Some NewTooManyUpdatesError)) \<and>
    (\<forall>i r. at_phase s i (Returned False r) \<and> \<not> ar_closed s \<longrightarrow>
       r = Some NewTooManyUpdatesError \<and> ar_runs (ar_calls s ! i) = 0)"
proof -
  from ar_inv_reachable [OF assms] have inv: "ar_inv s" "maxWindow (lim s) = uint (MaxSize config)"
    "minWindow (lim s) = uint (MinSize config)" by simp_all
  note calls = ar_invD(1) [OF inv(1)]
  have "ar_result (ar_calls s ! i) = Some r \<and>
       (ar_runs (ar_calls s ! i) = 1 \<or> ar_runs (ar_calls s ! i) = 0 \<and> r = Some NewTooManyUpdatesError)"
    if "at_phase s i (Returned True r)" for i r
    using calls [of i] that by (auto simp: ar_call_ok_def)
  moreover have "r = Some NewTooManyUpdatesError \<and> ar_runs (ar_calls s ! i) = 0"
    if "at_phase s i (Returned False r) \<and> \<not> ar_closed s" for i r
    using calls [of i] that by (auto simp: ar_call_ok_def)
  ultimately show ?thesis
    using ar_invD(4,7,8) [OF inv(1)] admitted_has_room [OF inv(1)] inv(2,3) by (simp add: limiter_ok_def) blast
qed

text \<open>
  C36. The window recovers: ten successes for each position it is below the maximum bring it back
  to the maximum, whatever the counter was, also when the counter wraps.
\<close>

theorem limiter_window_recovers:
  assumes "limiter_ok l" "maxWindow l - currentWindow l \<le> int n"
  shows "currentWindow ((limiter_success ^^ (10 * n)) l) = maxWindow l"
proof -
  have "limiter.in_bounds l" using assms(1) by (simp add: limiter.in_bounds_def limiter_ok_def)
  moreover have "limiter.react (Success (0::int)) = limiter_success" by (rule ext) simp
  ultimately show ?thesis using limiter.recovers [of l n "0::int"] assms(2) by (simp add: fold_replicate)
qed

section \<open>Runs\<close>

definition demo_queue :: DefaultRateLimiter where
  "demo_queue = \<lparr>dl_config = \<lparr>rl_Enabled = True, rl_QueueSize = 10\<rparr>, dl_currentSize = 0, dl_queue = [], dl_closed = False,
     dl_calls = [], dl_worker = Idle, dl_started = []\<rparr>"

text \<open>A call, its work taken, started and ended without error, and the call's return.\<close>

definition demo_queue_end :: DefaultRateLimiter where
  "demo_queue_end = \<lparr>dl_config = \<lparr>rl_Enabled = True, rl_QueueSize = 10\<rparr>, dl_currentSize = 0, dl_queue = [], dl_closed = False,
     dl_calls = [\<lparr>q_phase = QReturned None, q_result = Some None\<rparr>], dl_worker = Idle, dl_started = [0]\<rparr>"

lemma demo_queue_reachable: "dl_reachable demo_queue_end"
proof -
  let ?s1 = "(dl_new_call QSent demo_queue)\<lparr>dl_queue := [0]\<rparr>"
  let ?s2 = "?s1\<lparr>dl_queue := [], dl_worker := Taken 0\<rparr>"
  let ?s3 = "(dl_set 0 (\<lambda>c. c\<lparr>q_phase := QWaiting\<rparr>) ?s2)\<lparr>dl_currentSize := 1\<rparr>"
  let ?s4 = "?s3\<lparr>dl_currentSize := 0, dl_worker := Running 0, dl_started := [0]\<rparr>"
  let ?s5 = "(dl_set 0 (\<lambda>c. c\<lparr>q_result := Some None\<rparr>) ?s4)\<lparr>dl_worker := Idle\<rparr>"
  note defs = demo_queue_def dl_new_call_def dl_set_def i32_def
  have 0: "dl_reachable demo_queue"
    by (rule dl_new [of "\<lparr>rl_Enabled = True, rl_QueueSize = 1\<rparr>"])
      (simp add: NewRateLimiter_def demo_queue_def MinLimiterSize_def)
  have "dl_step demo_queue ?s1" using dl_step.send [of demo_queue] by (simp add: defs)
  from dl_next [OF 0 this] have 1: "dl_reachable ?s1" .
  have "dl_step ?s1 ?s2" using dl_step.worker_take [of ?s1 0 "[]"] by (simp add: defs)
  from dl_next [OF 1 this] have 2: "dl_reachable ?s2" .
  have "dl_step ?s2 ?s3" using dl_step.note_sent [of 0 ?s2] by (simp add: defs)
  from dl_next [OF 2 this] have 3: "dl_reachable ?s3" .
  have "dl_step ?s3 ?s4" using dl_step.worker_start [of ?s3 0] by (simp add: defs)
  from dl_next [OF 3 this] have 4: "dl_reachable ?s4" .
  have "dl_step ?s4 ?s5" using dl_step.worker_finish [of ?s4 0 None] by (simp add: defs)
  from dl_next [OF 4 this] have 5: "dl_reachable ?s5" .
  have "dl_step ?s5 demo_queue_end" using dl_step.receive [of 0 ?s5 None] by (simp add: defs demo_queue_end_def)
  with 5 show ?thesis by (rule dl_next)
qed

theorem default_limiter_fifo_witness:
  "sorted_wrt (<) (dl_started demo_queue_end) \<and> 0 \<in> dl_ended demo_queue_end"
  using default_limiter_fifo [OF demo_queue_reachable] by (simp add: demo_queue_end_def dl_ended_def)

definition demo_limits :: AdaptiveRateLimiterConfig where
  "demo_limits = \<lparr>Enabled = True, MaxSize = 1, MinSize = 1, WorkTimerMetric = '''', QueueSizeMetric = '''',
     WindowSizeMetric = '''', Timeout = 30 * second\<rparr>"

definition demo_adaptive :: ar_sys where
  "demo_adaptive = \<lparr>lim = the (NewAdaptiveRateLimiter demo_limits), ar_calls = [], ar_worker = Idle, ar_closed = False,
     ar_signals = []\<rparr>"

lemma demo_adaptive_reachable: "ar_reachable demo_limits (call_admit (call_enqueue 0 (call_admit demo_adaptive)))"
proof -
  have "ar_reachable demo_limits demo_adaptive" unfolding demo_adaptive_def
    by (rule ar_new) (simp add: NewAdaptiveRateLimiter_def demo_limits_def)
  then have a: "ar_reachable demo_limits (call_admit demo_adaptive)" by (rule ar_next) (rule ar_step.admission)
  have "at_phase (call_admit demo_adaptive) 0 Admitted"
    "length (work_queue (lim (call_admit demo_adaptive))) < queue_cap (lim (call_admit demo_adaptive))" by code_simp+
  from ar_next [OF a ar_step.enqueue [OF this]] show ?thesis by (rule ar_next) (rule ar_step.admission)
qed

theorem adaptive_limiter_safe_witness:
  "currentSize (lim (call_admit (call_enqueue 0 (call_admit demo_adaptive)))) \<le> 1 \<and>
   ar_phase (ar_calls (call_admit (call_enqueue 0 (call_admit demo_adaptive))) ! 1) =
     Returned False (Some NewTooManyUpdatesError)"
proof -
  have "window_config demo_limits" by (simp add: window_config_def demo_limits_def)
  from adaptive_limiter_safe [OF demo_adaptive_reachable this]
  have "currentSize (lim (call_admit (call_enqueue 0 (call_admit demo_adaptive)))) \<le> 1" by (simp add: demo_limits_def)
  moreover have "ar_phase (ar_calls (call_admit (call_enqueue 0 (call_admit demo_adaptive))) ! 1) =
     Returned False (Some NewTooManyUpdatesError)" by code_simp
  ultimately show ?thesis by blast
qed

theorem limiter_window_recovers_witness:
  "currentWindow ((limiter_success ^^ 20) \<lparr>currentWindow = 3, minWindow = 1, maxWindow = 5, successCounter = 4294967293,
     currentSize = 0, queue_cap = 5, work_queue = []\<rparr>) = 5"
  using limiter_window_recovers [of "\<lparr>currentWindow = 3, minWindow = 1, maxWindow = 5, successCounter = 4294967293,
     currentSize = 0, queue_cap = 5, work_queue = []\<rparr>" 2] by (simp add: limiter_ok_def)

end
