(* ===== verification/Work_Tracker.thy ===== *)
theory Work_Tracker
  imports Rate_Limiter
begin

text \<open>
  The adaptive rate-limit tracker of \<open>controller/command/rate_limiter.go\<close>: slots for work that is
  done elsewhere, returned by the caller's verdict or, when none comes, by a timeout.
\<close>

section \<open>The tracker\<close>

text \<open>
  The tracker's works are heap objects, since the caller's control and the tracker's map share
  them. \<open>w_completed\<close> is claimed by compare-and-swap before the locked release; \<open>t_claimed\<close>
  lists the works that are between the two.
\<close>

record tracker_work =
  w_id :: string
  w_queuePosition :: int
  w_createTime :: int
  w_completed :: bool
  w_label :: string

datatype release = RSuccess | RBackoff | RFailed

record adaptiveRateLimitTracker =
  t_currentWindow :: int
  t_minWindow :: int
  t_maxWindow :: int
  t_timeout :: int
  t_successCounter :: "32 word"
  t_currentSize :: int
  outstandingWork :: "(string \<times> nat) list"
  t_works :: "nat \<Rightarrow> tracker_work"
  t_next :: nat
  t_claimed :: "(nat \<times> release) list"

definition NewAdaptiveRateLimitTracker :: "AdaptiveRateLimiterConfig \<Rightarrow> adaptiveRateLimitTracker option" where
  "NewAdaptiveRateLimitTracker config =
     (if \<not> Enabled config then None
      else Some \<lparr>t_currentWindow = i32 (uint (MaxSize config)), t_minWindow = i32 (uint (MinSize config)),
        t_maxWindow = i32 (uint (MaxSize config)), t_timeout = Timeout config, t_successCounter = 0, t_currentSize = 0,
        outstandingWork = [], t_works = (\<lambda>_. \<lparr>w_id = '''', w_queuePosition = 0, w_createTime = 0, w_completed = False,
        w_label = ''''\<rparr>), t_next = 0, t_claimed = []\<rparr>)"

definition IsRateLimited :: "adaptiveRateLimitTracker \<Rightarrow> bool" where
  "IsRateLimited s \<longleftrightarrow> t_currentSize s \<ge> t_currentWindow s"

definition tracker_complete :: "tracker_work \<Rightarrow> adaptiveRateLimitTracker \<Rightarrow> adaptiveRateLimitTracker" where
  "tracker_complete work s =
     s\<lparr>t_currentSize := i32 (t_currentSize s - 1), outstandingWork := AList.delete (w_id work) (outstandingWork s)\<rparr>"

definition tracker_success :: "tracker_work \<Rightarrow> adaptiveRateLimitTracker \<Rightarrow> adaptiveRateLimitTracker" where
  "tracker_success work s =
     (let s1 = s\<lparr>t_currentSize := i32 (t_currentSize s - 1),
                 outstandingWork := AList.delete (w_id work) (outstandingWork s)\<rparr>
      in if t_currentWindow s1 \<ge> t_maxWindow s1 then s1
         else
           (let s2 = s1\<lparr>t_successCounter := t_successCounter s1 + 1\<rparr>
            in if t_successCounter s2 mod 10 = 0 then
                 (let nextVal = i32 (t_currentWindow s2 + 1); s3 = s2\<lparr>t_currentWindow := nextVal\<rparr>
                  in if nextVal > t_maxWindow s3 then s3\<lparr>t_currentWindow := t_maxWindow s3\<rparr> else s3)
               else s2))"

definition tracker_backoff :: "tracker_work \<Rightarrow> adaptiveRateLimitTracker \<Rightarrow> adaptiveRateLimitTracker" where
  "tracker_backoff work s =
     (let s1 = s\<lparr>t_currentSize := i32 (t_currentSize s - 1),
                 outstandingWork := AList.delete (w_id work) (outstandingWork s)\<rparr>
      in if t_currentWindow s1 \<le> t_minWindow s1 then s1
         else
           (let current = t_currentWindow s1; nextWindow = i32 (w_queuePosition work - 10)
            in if nextWindow < current then
                 (let nextWindow = (if nextWindow < t_minWindow s1 then t_minWindow s1 else nextWindow)
                  in s1\<lparr>t_currentWindow := nextWindow\<rparr>)
               else s1))"

text \<open>\<open>newId\<close> is the answer of \<open>uuid.NewString\<close>.\<close>

definition tracker_RunRateLimited ::
  "string \<Rightarrow> string \<Rightarrow> int \<Rightarrow> adaptiveRateLimitTracker \<Rightarrow> (go_error + nat) \<times> adaptiveRateLimitTracker" where
  "tracker_RunRateLimited newId label now s =
     (let s1 = s\<lparr>t_currentSize := i32 (t_currentSize s + 1)\<rparr>; queuePosition = t_currentSize s1
      in if queuePosition > t_currentWindow s1
         then (Inl NewTooManyUpdatesError, s1\<lparr>t_currentSize := i32 (t_currentSize s1 - 1)\<rparr>)
         else
           (let k = t_next s1;
                work = \<lparr>w_id = newId, w_queuePosition = queuePosition, w_createTime = now, w_completed = False,
                        w_label = label\<rparr>
            in (Inr k, s1\<lparr>t_works := (t_works s1)(k := work), t_next := k + 1,
                          outstandingWork := AList.update newId k (outstandingWork s1)\<rparr>)))"

definition RunRateLimitedF ::
  "(nat \<Rightarrow> adaptiveRateLimitTracker \<Rightarrow> go_error option \<times> adaptiveRateLimitTracker) \<Rightarrow> string \<Rightarrow> string \<Rightarrow> int \<Rightarrow>
   adaptiveRateLimitTracker \<Rightarrow> go_error option \<times> adaptiveRateLimitTracker" where
  "RunRateLimitedF f newId label now s =
     (case tracker_RunRateLimited newId label now s of (Inl err, s1) \<Rightarrow> (Some err, s1) | (Inr k, s1) \<Rightarrow> f k s1)"

text \<open>The compare-and-swap of \<open>Success\<close>, \<open>Backoff\<close> and \<open>Failed\<close>, and the release that follows it.\<close>

definition claim_work :: "release \<Rightarrow> nat \<Rightarrow> adaptiveRateLimitTracker \<Rightarrow> adaptiveRateLimitTracker" where
  "claim_work how k s =
     s\<lparr>t_works := (t_works s)(k := (t_works s k)\<lparr>w_completed := True\<rparr>), t_claimed := (k, how) # t_claimed s\<rparr>"

fun tracker_release :: "release \<Rightarrow> tracker_work \<Rightarrow> adaptiveRateLimitTracker \<Rightarrow> adaptiveRateLimitTracker" where
  "tracker_release RSuccess = tracker_success"
| "tracker_release RBackoff = tracker_backoff"
| "tracker_release RFailed = tracker_complete"

definition release_work :: "release \<Rightarrow> nat \<Rightarrow> adaptiveRateLimitTracker \<Rightarrow> adaptiveRateLimitTracker" where
  "release_work how k s = (tracker_release how (t_works s k) s)\<lparr>t_claimed := remove1 (k, how) (t_claimed s)\<rparr>"

definition finish_work :: "release \<Rightarrow> nat \<Rightarrow> adaptiveRateLimitTracker \<Rightarrow> adaptiveRateLimitTracker" where
  "finish_work how k s = (if \<not> w_completed (t_works s k) then release_work how k (claim_work how k s) else s)"

definition cleanExpired ::
  "(nat list \<Rightarrow> nat list) \<Rightarrow> (nat \<Rightarrow> int) \<Rightarrow> adaptiveRateLimitTracker \<Rightarrow> adaptiveRateLimitTracker" where
  "cleanExpired ord now s =
     (let toRemove = filter (\<lambda>k. now k - w_createTime (t_works s k) > t_timeout s) (go_range ord (map snd (outstandingWork s)))
      in fold (finish_work RBackoff) toRemove s)"

inductive t_step :: "adaptiveRateLimitTracker \<Rightarrow> adaptiveRateLimitTracker \<Rightarrow> bool" where
  acquire: "newId \<notin> fst ` set (outstandingWork s) \<Longrightarrow> t_step s (snd (tracker_RunRateLimited newId label now s))"
| claim: "k < t_next s \<Longrightarrow> \<not> w_completed (t_works s k) \<Longrightarrow> t_step s (claim_work how k s)"
| release_claimed: "(k, how) \<in> set (t_claimed s) \<Longrightarrow> t_step s (release_work how k s)"

inductive t_reachable :: "AdaptiveRateLimiterConfig \<Rightarrow> adaptiveRateLimitTracker \<Rightarrow> bool" for config where
  t_new: "NewAdaptiveRateLimitTracker config = Some s \<Longrightarrow> t_reachable config s"
| t_more: "t_reachable config s \<Longrightarrow> t_step s t \<Longrightarrow> t_reachable config t"

lemma tracker_success_spec:
  assumes "0 \<le> t_currentWindow s" "t_currentWindow s \<le> t_maxWindow s" "t_maxWindow s < MaxInt32"
  shows "tracker_success work s = (tracker_complete work s)\<lparr>
    t_currentWindow := fst (grow (t_maxWindow s) (t_currentWindow s, t_successCounter s)),
    t_successCounter := snd (grow (t_maxWindow s) (t_currentWindow s, t_successCounter s))\<rparr>"
proof -
  have "i32 (t_currentWindow s + 1) = t_currentWindow s + 1" using assms by (simp add: go_int)
  then show ?thesis using assms
    by (cases "tenth (t_successCounter s + 1)")
      (simp_all add: tracker_success_def tracker_complete_def grow_def tenth_def Let_def)
qed

lemma tracker_backoff_spec:
  assumes "0 \<le> w_queuePosition work" "w_queuePosition work \<le> MaxInt32" "t_minWindow s \<le> t_currentWindow s"
  shows "tracker_backoff work s = (tracker_complete work s)\<lparr>
    t_currentWindow := fst (shrink (t_minWindow s) (w_queuePosition work) (t_currentWindow s, t_successCounter s))\<rparr>"
proof -
  have "i32 (w_queuePosition work - 10) = w_queuePosition work - 10" using assms by (simp add: go_int)
  then show ?thesis using assms(3)
    by (simp add: tracker_backoff_def tracker_complete_def shrink_def Let_def min_def max_def)
qed

interpretation tracker: adaptive_window t_currentWindow t_successCounter t_minWindow t_maxWindow w_queuePosition
  tracker_success tracker_backoff
proof
  fix s :: adaptiveRateLimitTracker and w :: tracker_work
  assume s: "0 \<le> t_minWindow s" "t_minWindow s \<le> t_currentWindow s" "t_currentWindow s \<le> t_maxWindow s" "t_maxWindow s < MaxInt32"
  then have "0 \<le> t_currentWindow s" by simp
  from tracker_success_spec [OF this s(3,4)]
  show "(t_currentWindow (tracker_success w s), t_successCounter (tracker_success w s)) =
      grow (t_maxWindow s) (t_currentWindow s, t_successCounter s)" by simp
next
  fix s :: adaptiveRateLimitTracker and w :: tracker_work
  assume s: "t_minWindow s \<le> t_currentWindow s" "0 \<le> w_queuePosition w" "w_queuePosition w \<le> MaxInt32"
  from tracker_backoff_spec [OF s(2,3,1)]
  show "(t_currentWindow (tracker_backoff w s), t_successCounter (tracker_backoff w s)) =
      shrink (t_minWindow s) (w_queuePosition w) (t_currentWindow s, t_successCounter s)"
    by (simp add: tracker_complete_def shrink_def)
qed (simp_all add: tracker_success_def tracker_backoff_def Let_def)

section \<open>Slots\<close>

text \<open>A work is live until its slot has been given back.\<close>

definition live_work :: "adaptiveRateLimitTracker \<Rightarrow> nat \<Rightarrow> bool" where
  "live_work s k \<longleftrightarrow> k < t_next s \<and> (\<not> w_completed (t_works s k) \<or> k \<in> fst ` set (t_claimed s))"

definition tracker_ok :: "adaptiveRateLimitTracker \<Rightarrow> bool" where
  "tracker_ok s \<longleftrightarrow> 1 \<le> t_minWindow s \<and> t_minWindow s \<le> t_currentWindow s \<and> t_currentWindow s \<le> t_maxWindow s \<and>
     t_maxWindow s < MaxInt32 \<and> t_currentSize s = int (length (outstandingWork s)) \<and> t_currentSize s \<le> t_maxWindow s"

definition works_ok :: "adaptiveRateLimitTracker \<Rightarrow> bool" where
  "works_ok s \<longleftrightarrow> keys_distinct (outstandingWork s) \<and> distinct (map fst (t_claimed s)) \<and>
     (\<forall>i k. map_of (outstandingWork s) i = Some k \<longleftrightarrow> live_work s k \<and> w_id (t_works s k) = i) \<and>
     (\<forall>k \<in> fst ` set (t_claimed s). k < t_next s \<and> w_completed (t_works s k)) \<and>
     (\<forall>k < t_next s. 0 \<le> w_queuePosition (t_works s k) \<and> w_queuePosition (t_works s k) \<le> t_maxWindow s)"

lemma length_delete:
  assumes "keys_distinct m" "map_of m k = Some v"
  shows "length m = Suc (length (AList.delete k m))"
  using assms
proof (induction m)
  case (Cons a m)
  show ?case
  proof (cases "fst a = k")
    case True
    then have "k \<notin> fst ` set m" using Cons.prems(1) by auto
    then have "AList.delete k m = m" by (simp add: delete_idem)
    with True show ?thesis by (cases a) simp
  next
    case False
    with Cons show ?thesis by (cases a) auto
  qed
qed simp

lemma length_update_new: "k \<notin> fst ` set m \<Longrightarrow> length (AList.update k v m) = Suc (length m)"
  by (induction m) auto

lemma tracker_release_fields [simp]:
  "outstandingWork (tracker_release how w s) = AList.delete (w_id w) (outstandingWork s)"
  "t_currentSize (tracker_release how w s) = i32 (t_currentSize s - 1)"
  "t_works (tracker_release how w s) = t_works s" "t_next (tracker_release how w s) = t_next s"
  "t_claimed (tracker_release how w s) = t_claimed s" "t_maxWindow (tracker_release how w s) = t_maxWindow s"
  "t_minWindow (tracker_release how w s) = t_minWindow s" "t_timeout (tracker_release how w s) = t_timeout s"
  by (cases how; simp add: tracker_success_def tracker_backoff_def tracker_complete_def Let_def)+

lemma tracker_release_window:
  assumes "tracker_ok s" "0 \<le> w_queuePosition w" "w_queuePosition w \<le> t_maxWindow s"
  shows "t_minWindow s \<le> t_currentWindow (tracker_release how w s) \<and> t_currentWindow (tracker_release how w s) \<le> t_maxWindow s"
proof (cases how)
  case RSuccess
  have "tracker.in_bounds s" using assms(1) by (simp add: tracker.in_bounds_def tracker_ok_def)
  from tracker.react_bounds [OF this, of "Success w"] tracker.up_limits RSuccess show ?thesis
    by (simp add: tracker.in_bounds_def)
next
  case RBackoff
  have "tracker.in_bounds s" using assms(1) by (simp add: tracker.in_bounds_def tracker_ok_def)
  from tracker.react_bounds [OF this, of "Backoff w"] tracker.down_limits RBackoff assms show ?thesis
    by (simp add: tracker.in_bounds_def tracker_ok_def)
next
  case RFailed
  with assms(1) show ?thesis by (simp add: tracker_complete_def tracker_ok_def)
qed

lemma acquire_ok:
  assumes "tracker_ok s" "works_ok s" "newId \<notin> fst ` set (outstandingWork s)"
  shows "tracker_ok (snd (tracker_RunRateLimited newId label now s)) \<and> works_ok (snd (tracker_RunRateLimited newId label now s))"
proof -
  have i: "i32 (t_currentSize s + 1) = t_currentSize s + 1" "i32 (t_currentSize s) = t_currentSize s"
    using assms(1) by (simp_all add: tracker_ok_def go_int)
  show ?thesis
  proof (cases "t_currentSize s + 1 > t_currentWindow s")
    case True
    with i have "snd (tracker_RunRateLimited newId label now s) = s" by (simp add: tracker_RunRateLimited_def Let_def)
    with assms show ?thesis by simp
  next
    case False
    let ?k = "t_next s"
    let ?w = "\<lparr>w_id = newId, w_queuePosition = t_currentSize s + 1, w_createTime = now, w_completed = False, w_label = label\<rparr>"
    let ?t = "s\<lparr>t_currentSize := t_currentSize s + 1, t_works := (t_works s)(?k := ?w), t_next := ?k + 1,
        outstandingWork := AList.update newId ?k (outstandingWork s)\<rparr>"
    have t: "snd (tracker_RunRateLimited newId label now s) = ?t"
      using False i by (simp add: tracker_RunRateLimited_def Let_def)
    have new: "map_of (outstandingWork s) newId = None" using assms(3) by (simp add: map_of_eq_None_iff)
    have "?k \<notin> fst ` set (t_claimed s)" using assms(2) by (auto simp: works_ok_def)
    then have live: "live_work ?t k \<longleftrightarrow> k = ?k \<or> live_work s k" for k by (auto simp: live_work_def less_Suc_eq)
    have iff: "map_of (outstandingWork s) i = Some k \<longleftrightarrow> live_work s k \<and> w_id (t_works s k) = i" for i k
      using assms(2) by (simp add: works_ok_def)
    have "\<not> live_work s ?k" by (simp add: live_work_def)
    then have "map_of (outstandingWork ?t) i = Some k \<longleftrightarrow> live_work ?t k \<and> w_id (t_works ?t k) = i" for i k
      using iff [of i k] iff [of newId k] new unfolding live by auto
    moreover have "tracker_ok ?t" using assms(1) False length_update_new [OF assms(3)] by (simp add: tracker_ok_def)
    moreover have "0 \<le> t_currentSize s + 1" "t_currentSize s + 1 \<le> t_maxWindow s" using False assms(1) by (simp_all add: tracker_ok_def)
    ultimately show ?thesis unfolding t using assms(2)
      by (auto simp: works_ok_def keys_distinct_update less_Suc_eq)
  qed
qed

lemma claim_ok:
  assumes "tracker_ok s" "works_ok s" "k < t_next s" "\<not> w_completed (t_works s k)"
  shows "tracker_ok (claim_work how k s) \<and> works_ok (claim_work how k s)"
proof -
  let ?t = "claim_work how k s"
  have "k \<notin> fst ` set (t_claimed s)" using assms(2,4) by (auto simp: works_ok_def)
  moreover have "live_work ?t j = live_work s j" for j using assms(3,4) by (auto simp: live_work_def claim_work_def)
  moreover have "w_id (t_works ?t j) = w_id (t_works s j)" "w_queuePosition (t_works ?t j) = w_queuePosition (t_works s j)" for j
    by (simp_all add: claim_work_def)
  ultimately show ?thesis using assms by (simp add: tracker_ok_def works_ok_def) (simp add: claim_work_def)
qed

lemma claimed_remove1:
  assumes "distinct (map fst xs)" "(k, v) \<in> set xs"
  shows "fst ` set (remove1 (k, v) xs) = fst ` set xs - {k}" "distinct (map fst (remove1 (k, v) xs))"
  using assms
proof (induction xs)
  case (Cons a xs)
  {
    case 1
    show ?case
    proof (cases "a = (k, v)")
      case True
      with 1 show ?thesis by auto
    next
      case False
      with 1 have "fst a \<noteq> k" by (auto simp: image_iff)
      with False 1 Cons.IH(1) show ?thesis by auto
    qed
  next
    case 2
    have "set (remove1 (k, v) xs) \<subseteq> set xs" by (rule set_remove1_subset)
    with 2 Cons.IH(2) show ?case by (cases "a = (k, v)") auto
  }
qed simp_all

lemma release_ok:
  assumes "tracker_ok s" "works_ok s" "(k, how) \<in> set (t_claimed s)"
  shows "tracker_ok (release_work how k s) \<and> works_ok (release_work how k s)"
proof -
  let ?t = "release_work how k s" and ?w = "t_works s k"
  have mem: "k \<in> fst ` set (t_claimed s)" using assms(3) by (rule rev_image_eqI) simp
  then have k: "k < t_next s" "w_completed ?w" using assms(2) unfolding works_ok_def by blast+
  then have pos: "0 \<le> w_queuePosition ?w" "w_queuePosition ?w \<le> t_maxWindow s" and dis: "distinct (map fst (t_claimed s))"
    and live_k: "live_work s k" using assms(2) mem by (simp_all add: works_ok_def live_work_def)
  have iff: "map_of (outstandingWork s) i = Some j \<longleftrightarrow> live_work s j \<and> w_id (t_works s j) = i" for i j
    using assms(2) by (simp add: works_ok_def)
  note claimed = claimed_remove1 [OF dis assms(3)]
  have fields: "outstandingWork ?t = AList.delete (w_id ?w) (outstandingWork s)" "t_works ?t = t_works s" "t_next ?t = t_next s"
    "t_claimed ?t = remove1 (k, how) (t_claimed s)" "t_maxWindow ?t = t_maxWindow s" "t_minWindow ?t = t_minWindow s"
    "t_currentSize ?t = i32 (t_currentSize s - 1)" "t_currentWindow ?t = t_currentWindow (tracker_release how ?w s)"
    by (simp_all add: release_work_def)
  have live: "live_work ?t j \<longleftrightarrow> j \<noteq> k \<and> live_work s j" for j
    unfolding live_work_def fields claimed(1) using k by blast
  have uniq: "j = k" if "live_work s j" "w_id (t_works s j) = w_id ?w" for j
    using that iff [of "w_id ?w" k] iff [of "w_id ?w" j] live_k by simp
  have out: "\<forall>i j. map_of (outstandingWork ?t) i = Some j \<longleftrightarrow> live_work ?t j \<and> w_id (t_works ?t j) = i"
    (is "\<forall>i j. ?iff i j")
  proof (intro allI)
    show "?iff i j" for i j
      using iff [of i j] uniq [of j] unfolding live fields map_of_delete by (cases "i = w_id ?w") auto
  qed
  have "\<forall>j \<in> fst ` set (t_claimed ?t). j < t_next ?t \<and> w_completed (t_works ?t j)" "distinct (map fst (t_claimed ?t))"
    "keys_distinct (outstandingWork ?t)"
    "\<forall>j < t_next ?t. 0 \<le> w_queuePosition (t_works ?t j) \<and> w_queuePosition (t_works ?t j) \<le> t_maxWindow ?t"
    using assms(2) claimed(2) unfolding works_ok_def fields claimed(1) by (blast intro: keys_distinct_delete)+
  with out have "works_ok ?t" unfolding works_ok_def by blast
  moreover have len: "length (outstandingWork s) = Suc (length (outstandingWork ?t))"
    unfolding fields using iff [of "w_id ?w" k] live_k assms(2) by (intro length_delete [where v = k]) (simp_all add: works_ok_def)
  moreover have "i32 (t_currentSize s - 1) = t_currentSize s - 1" using assms(1) len by (simp add: tracker_ok_def go_int)
  then have "tracker_ok ?t" using assms(1) len tracker_release_window [OF assms(1) pos, of how]
    unfolding tracker_ok_def fields by simp
  ultimately show ?thesis by blast
qed

lemma tracker_step_ok:
  assumes "t_step s t" "tracker_ok s" "works_ok s"
  shows "tracker_ok t \<and> works_ok t"
  using assms by (cases rule: t_step.cases) (simp_all add: acquire_ok claim_ok release_ok)

lemma tracker_reachable_ok:
  assumes "t_reachable config s" "window_config config"
  shows "tracker_ok s \<and> works_ok s \<and> t_maxWindow s = uint (MaxSize config) \<and> t_minWindow s = uint (MinSize config)"
  using assms(1)
proof (induction rule: t_reachable.induct)
  case (t_new s)
  then show ?case using window_config_int [OF assms(2)] assms(2)
    by (auto simp: NewAdaptiveRateLimitTracker_def tracker_ok_def works_ok_def live_work_def window_config_def split: if_splits)
next
  case (t_more s t)
  have "t_maxWindow t = t_maxWindow s \<and> t_minWindow t = t_minWindow s"
    using t_more.hyps(2)
    by (cases rule: t_step.cases) (simp_all add: tracker_RunRateLimited_def Let_def claim_work_def release_work_def)
  with t_more.IH tracker_step_ok [OF t_more.hyps(2)] show ?case by simp
qed

lemma live_card:
  assumes "works_ok s"
  shows "card {k. live_work s k} = length (outstandingWork s)" "snd ` set (outstandingWork s) = {k. live_work s k}"
proof -
  have kd: "keys_distinct (outstandingWork s)"
    and iff: "\<And>i k. map_of (outstandingWork s) i = Some k \<longleftrightarrow> live_work s k \<and> w_id (t_works s k) = i"
    using assms by (simp_all add: works_ok_def)
  have mem: "(i, k) \<in> set (outstandingWork s) \<longleftrightarrow> live_work s k \<and> w_id (t_works s k) = i" for i k
    using iff mem_iff_map_of [OF kd] by blast
  show img: "snd ` set (outstandingWork s) = {k. live_work s k}"
  proof (intro set_eqI iffI)
    fix k
    assume "k \<in> snd ` set (outstandingWork s)"
    then obtain i where "(i, k) \<in> set (outstandingWork s)" by (metis imageE prod.collapse)
    then show "k \<in> {k. live_work s k}" using mem by simp
  next
    fix k
    assume "k \<in> {k. live_work s k}"
    then have "(w_id (t_works s k), k) \<in> set (outstandingWork s)" using mem by simp
    then show "k \<in> snd ` set (outstandingWork s)" by (rule rev_image_eqI) simp
  qed
  have "inj_on snd (set (outstandingWork s))"
  proof (rule inj_onI)
    fix x y
    assume xy: "x \<in> set (outstandingWork s)" "y \<in> set (outstandingWork s)" "snd x = snd y"
    have "w_id (t_works s (snd z)) = fst z" if "z \<in> set (outstandingWork s)" for z
      using that mem [of "fst z" "snd z"] by simp
    then show "x = y" using xy by (metis prod.collapse)
  qed
  then have "distinct (map snd (outstandingWork s))" using kd by (simp add: distinct_map)
  from distinct_card [OF this] show "card {k. live_work s k} = length (outstandingWork s)" by (simp add: img)
qed

lemma finish_work_spec:
  assumes "tracker_ok s" "works_ok s" "k < t_next s"
  shows "tracker_ok (finish_work how k s) \<and> works_ok (finish_work how k s) \<and> t_next (finish_work how k s) = t_next s \<and>
    t_claimed (finish_work how k s) = t_claimed s \<and>
    (\<forall>j. live_work (finish_work how k s) j \<longleftrightarrow> live_work s j \<and> (j = k \<longrightarrow> w_completed (t_works s k))) \<and>
    (\<forall>j. j \<noteq> k \<longrightarrow> t_works (finish_work how k s) j = t_works s j) \<and> w_completed (t_works (finish_work how k s) k)"
proof (cases "w_completed (t_works s k)")
  case True
  with assms(1,2) show ?thesis by (auto simp: finish_work_def)
next
  case False
  let ?s1 = "claim_work how k s" and ?t = "finish_work how k s"
  have t: "?t = release_work how k ?s1" using False by (simp add: finish_work_def)
  have ok1: "tracker_ok ?s1" "works_ok ?s1" using claim_ok [OF assms(1-3) False, of how] by simp_all
  have mem: "(k, how) \<in> set (t_claimed ?s1)" by (simp add: claim_work_def)
  have ok: "tracker_ok ?t" "works_ok ?t" using release_ok [OF ok1 mem] unfolding t by simp_all
  have fields: "t_claimed ?t = t_claimed s" "t_next ?t = t_next s"
    "t_works ?t = (t_works s)(k := (t_works s k)\<lparr>w_completed := True\<rparr>)"
    by (simp_all add: t release_work_def claim_work_def)
  have "k \<notin> fst ` set (t_claimed s)" using assms(2) False unfolding works_ok_def by blast
  then have "live_work ?t j \<longleftrightarrow> live_work s j \<and> (j = k \<longrightarrow> w_completed (t_works s k))" for j
    using False unfolding live_work_def fields by simp
  then show ?thesis using ok fields by simp
qed

lemma finish_all_spec:
  assumes "tracker_ok s" "works_ok s" "\<forall>k \<in> set ks. k < t_next s"
  shows "tracker_ok (fold (finish_work how) ks s) \<and> works_ok (fold (finish_work how) ks s) \<and>
    t_claimed (fold (finish_work how) ks s) = t_claimed s \<and>
    (\<forall>j. live_work (fold (finish_work how) ks s) j \<longleftrightarrow> live_work s j \<and> (j \<in> set ks \<longrightarrow> w_completed (t_works s j)))"
  using assms
proof (induction ks arbitrary: s)
  case (Cons k ks)
  then have "k < t_next s" by simp
  let ?t = "finish_work how k s"
  from finish_work_spec [OF Cons.prems(1,2) \<open>k < t_next s\<close>, of how] have f: "tracker_ok ?t" "works_ok ?t" "t_next ?t = t_next s"
    "t_claimed ?t = t_claimed s" "\<And>j. live_work ?t j \<longleftrightarrow> live_work s j \<and> (j = k \<longrightarrow> w_completed (t_works s k))"
    "\<And>j. j \<noteq> k \<Longrightarrow> t_works ?t j = t_works s j" "w_completed (t_works ?t k)" by blast+
  have "\<forall>j \<in> set ks. j < t_next ?t" using Cons.prems(3) f(3) by simp
  note ih = Cons.IH [OF f(1,2) this]
  have "live_work ?t j \<and> (j \<in> set ks \<longrightarrow> w_completed (t_works ?t j)) \<longleftrightarrow>
      live_work s j \<and> (j \<in> set (k # ks) \<longrightarrow> w_completed (t_works s j))" for j
    using f(5) [of j] f(6) [of j] f(7) by (cases "j = k") auto
  with ih f(4) show ?case by simp
qed simp

fun limiter_signal :: "int signal \<Rightarrow> adaptiveRateLimiter \<Rightarrow> adaptiveRateLimiter" where
  "limiter_signal (Success p) l = limiter_success l"
| "limiter_signal (Backoff p) l = limiter_backoff p l"

fun tracker_signal :: "tracker_work signal \<Rightarrow> adaptiveRateLimitTracker \<Rightarrow> adaptiveRateLimitTracker" where
  "tracker_signal (Success w) t = tracker_success w t"
| "tracker_signal (Backoff w) t = tracker_backoff w t"

lemma signals_react: "limiter_signal = limiter.react" "tracker_signal = tracker.react"
proof -
  show "limiter_signal = limiter.react"
  proof (intro ext)
    show "limiter_signal sg l = limiter.react sg l" for sg l by (cases sg) simp_all
  qed
  show "tracker_signal = tracker.react"
  proof (intro ext)
    show "tracker_signal sg l = tracker.react sg l" for sg l by (cases sg) simp_all
  qed
qed

lemma window_spec_map:
  "window_spec id lo hi (map_signal pos sg) = window_spec pos lo hi sg"
  by (cases sg) simp_all

section \<open>Properties\<close>

text \<open>
  C37. In every reachable state of the tracker, under any interleaving of verdicts and releases,
  the window is between the configured limits and \<open>currentSize\<close> is the number of works whose slot
  has not been returned, at most the maximum; these are the entries of \<open>outstandingWork\<close>. New
  work is refused exactly when \<open>IsRateLimited\<close> reports it.
\<close>

theorem tracker_slots_accounted:
  assumes "t_reachable config s" "window_config config"
  shows "uint (MinSize config) \<le> t_currentWindow s \<and> t_currentWindow s \<le> uint (MaxSize config) \<and>
    t_currentSize s = int (card {k. live_work s k}) \<and> t_currentSize s \<le> uint (MaxSize config) \<and>
    snd ` set (outstandingWork s) = {k. live_work s k} \<and>
    (fst (tracker_RunRateLimited newId label now s) = Inl NewTooManyUpdatesError \<longleftrightarrow> IsRateLimited s)"
proof -
  from tracker_reachable_ok [OF assms] have ok: "tracker_ok s" "works_ok s" "t_maxWindow s = uint (MaxSize config)"
    "t_minWindow s = uint (MinSize config)" by simp_all
  have "i32 (t_currentSize s + 1) = t_currentSize s + 1" using ok(1) by (simp add: tracker_ok_def go_int)
  then have "fst (tracker_RunRateLimited newId label now s) = Inl NewTooManyUpdatesError \<longleftrightarrow> IsRateLimited s"
    by (auto simp: tracker_RunRateLimited_def IsRateLimited_def Let_def)
  with ok live_card [OF ok(2)] show ?thesis by (simp add: tracker_ok_def)
qed

text \<open>
  C38. The limiter and the tracker adapt alike: driven by the same sequence of successes and
  back-offs from the same window and counter, they have the same window and counter at the end,
  and it is the one of the specification \<open>window_spec\<close>.
\<close>

theorem limiters_adapt_alike:
  fixes sgs :: "tracker_work signal list"
  assumes "limiter_ok l" "currentWindow l = t_currentWindow t" "successCounter l = t_successCounter t"
    "minWindow l = t_minWindow t" "maxWindow l = t_maxWindow t"
    and "\<forall>sg \<in> set sgs. 0 \<le> w_queuePosition (signal_pos sg) \<and> w_queuePosition (signal_pos sg) \<le> MaxInt32"
  defines "l' \<equiv> fold limiter_signal (map (map_signal w_queuePosition) sgs) l" and "t' \<equiv> fold tracker_signal sgs t"
  shows "(currentWindow l', successCounter l') = (t_currentWindow t', t_successCounter t') \<and>
    (t_currentWindow t', t_successCounter t') =
      fold (window_spec w_queuePosition (t_minWindow t) (t_maxWindow t)) sgs (t_currentWindow t, t_successCounter t)"
proof -
  have b: "limiter.in_bounds l" "tracker.in_bounds t"
    using assms(1-5) by (simp_all add: limiter.in_bounds_def tracker.in_bounds_def limiter_ok_def)
  have kt: "tracker.known sg" if "sg \<in> set sgs" for sg by (insert that assms(6), cases sg) auto
  moreover have "limiter.known (map_signal w_queuePosition sg)" if "sg \<in> set sgs" for sg
    by (insert that assms(6), cases sg) auto
  ultimately have k: "\<forall>sg \<in> set (map (map_signal w_queuePosition) sgs). limiter.known sg" "\<forall>sg \<in> set sgs. tracker.known sg" by auto
  have "fold (window_spec id lo hi) (map (map_signal w_queuePosition) sgs) = fold (window_spec w_queuePosition lo hi) sgs" for lo hi
    by (simp add: fold_map o_def window_spec_map)
  with limiter.signals_spec [OF b(1) k(1)] tracker.signals_spec [OF b(2) k(2)] assms(2-5) show ?thesis
    unfolding l'_def t'_def signals_react by simp
qed

text \<open>
  C39. Slots are not lost: after \<open>cleanExpired\<close> every work older than the timeout has given its
  slot back, unless a verdict on it is under way, and no other work has. The accounting stays
  exact.
\<close>

theorem expired_work_is_reclaimed:
  fixes ord :: "nat list \<Rightarrow> nat list" and now :: "nat \<Rightarrow> int"
  assumes "t_reachable config s" "window_config config"
  defines "t \<equiv> cleanExpired ord now s"
  shows "(\<forall>k. live_work t k \<longleftrightarrow> live_work s k \<and>
      (now k - w_createTime (t_works s k) > t_timeout s \<longrightarrow> k \<in> fst ` set (t_claimed s))) \<and>
    t_currentSize t = int (card {k. live_work t k})"
proof -
  from tracker_reachable_ok [OF assms(1,2)] have ok: "tracker_ok s" "works_ok s" by simp_all
  let ?ks = "filter (\<lambda>k. now k - w_createTime (t_works s k) > t_timeout s) (go_range ord (map snd (outstandingWork s)))"
  have ks: "set ?ks = {k. live_work s k \<and> now k - w_createTime (t_works s k) > t_timeout s}"
    using live_card(2) [OF ok(2)] by auto
  then have "\<forall>k \<in> set ?ks. k < t_next s" by (simp add: live_work_def)
  note f = finish_all_spec [OF ok this, of RBackoff]
  have t: "t = fold (finish_work RBackoff) ?ks s" by (simp add: t_def cleanExpired_def)
  have claimed: "w_completed (t_works s k) \<longleftrightarrow> k \<in> fst ` set (t_claimed s)" if "live_work s k" for k
    using that ok(2) unfolding works_ok_def live_work_def by blast
  have "live_work t k \<longleftrightarrow> live_work s k \<and>
      (now k - w_createTime (t_works s k) > t_timeout s \<longrightarrow> k \<in> fst ` set (t_claimed s))" for k
    using f claimed [of k] ks unfolding t by blast
  moreover have "t_currentSize t = int (card {k. live_work t k})"
    using f live_card(1) [of t] unfolding t by (simp add: tracker_ok_def)
  ultimately show ?thesis by blast
qed

section \<open>A run\<close>

definition demo_tracker :: adaptiveRateLimitTracker where
  "demo_tracker = snd (tracker_RunRateLimited ''w1'' ''sync'' 5
     (the (NewAdaptiveRateLimitTracker (demo_limits\<lparr>MaxSize := 20\<rparr>))))"

lemma demo_tracker_reachable:
  "t_reachable (demo_limits\<lparr>MaxSize := 20\<rparr>) demo_tracker" "window_config (demo_limits\<lparr>MaxSize := 20\<rparr>)"
proof -
  let ?s = "the (NewAdaptiveRateLimitTracker (demo_limits\<lparr>MaxSize := 20\<rparr>))"
  have new: "NewAdaptiveRateLimitTracker (demo_limits\<lparr>MaxSize := 20\<rparr>) = Some ?s" "outstandingWork ?s = []"
    by (simp_all add: NewAdaptiveRateLimitTracker_def demo_limits_def)
  have "t_step ?s demo_tracker" unfolding demo_tracker_def by (rule t_step.acquire) (simp add: new(2))
  with t_new [OF new(1)] show "t_reachable (demo_limits\<lparr>MaxSize := 20\<rparr>) demo_tracker" by (rule t_more)
  show "window_config (demo_limits\<lparr>MaxSize := 20\<rparr>)" by (simp add: window_config_def demo_limits_def word_le_nat_alt)
qed

theorem tracker_slots_accounted_witness:
  "t_currentSize demo_tracker \<le> 20 \<and> snd ` set (outstandingWork demo_tracker) = {k. live_work demo_tracker k} \<and>
   live_work demo_tracker 0"
proof -
  have "0 \<in> snd ` set (outstandingWork demo_tracker)" by code_simp
  with tracker_slots_accounted [OF demo_tracker_reachable, of "''w2''" "''sync''" 6] show ?thesis by (auto simp: demo_limits_def)
qed

theorem limiters_adapt_alike_witness:
  "currentWindow (fold limiter_signal [Success 3, Backoff 14] (the (NewAdaptiveRateLimiter (demo_limits\<lparr>MaxSize := 20\<rparr>)))) =
   t_currentWindow (fold tracker_signal
     [Success (t_works demo_tracker 0), Backoff ((t_works demo_tracker 0)\<lparr>w_queuePosition := 14\<rparr>)] demo_tracker)"
proof -
  let ?l = "the (NewAdaptiveRateLimiter (demo_limits\<lparr>MaxSize := 20\<rparr>))"
  let ?sgs = "[Success ((t_works demo_tracker 0)\<lparr>w_queuePosition := 3\<rparr>), Backoff ((t_works demo_tracker 0)\<lparr>w_queuePosition := 14\<rparr>)]"
  have "limiter_ok ?l" by (simp add: NewAdaptiveRateLimiter_def demo_limits_def limiter_ok_def go_int)
  moreover have "currentWindow ?l = t_currentWindow demo_tracker" "successCounter ?l = t_successCounter demo_tracker"
    "minWindow ?l = t_minWindow demo_tracker" "maxWindow ?l = t_maxWindow demo_tracker" by code_simp+
  ultimately show ?thesis using limiters_adapt_alike [of ?l demo_tracker ?sgs] by (simp add: tracker_success_def Let_def)
qed

theorem expired_work_is_reclaimed_witness:
  "\<not> live_work (cleanExpired id (\<lambda>_. 40 * second) demo_tracker) 0 \<and> live_work demo_tracker 0"
proof -
  have live: "live_work demo_tracker 0" and "t_claimed demo_tracker = []"
    "40 * second - w_createTime (t_works demo_tracker 0) > t_timeout demo_tracker"
    by (simp_all add: live_work_def) code_simp+
  with expired_work_is_reclaimed [OF demo_tracker_reachable, where ord = id and now = "\<lambda>_. 40 * second"] show ?thesis by simp
qed

end
