(* ===== verification/Dial_Queue.thy ===== *)
theory Dial_Queue
  imports Zt_Prelude
begin

text \<open>
  The queue of links to dial: \<open>linkStateHeap\<close> of \<open>router/link/link_state_heap.go\<close> under the
  operations of Go's \<open>container/heap\<close>, an array heap ordered by the time of the next dial.
  The heap stores references; the key of an entry is looked up at the time of a comparison.
\<close>

section \<open>Operations\<close>

definition swap_elems :: "nat \<Rightarrow> nat \<Rightarrow> 'a list \<Rightarrow> 'a list" where
  "swap_elems i j h = h[i := h ! j, j := h ! i]"

text \<open>\<open>Less\<close> of the heap: strictly earlier.\<close>

definition Less :: "('a \<Rightarrow> int) \<Rightarrow> 'a list \<Rightarrow> nat \<Rightarrow> nat \<Rightarrow> bool" where
  "Less key h i j = (key (h ! i) < key (h ! j))"

definition parent :: "nat \<Rightarrow> nat" where
  "parent j = (j - 1) div 2"

function heap_up :: "('a \<Rightarrow> int) \<Rightarrow> nat \<Rightarrow> 'a list \<Rightarrow> 'a list" where
  "heap_up key j h =
     (let i = parent j
      in if i = j \<or> \<not> Less key h j i then h else heap_up key i (swap_elems i j h))"
  by pat_completeness auto
termination
  by (relation "measure (\<lambda>(key, j, h). j)") (auto simp: parent_def)

definition earlier_child :: "('a \<Rightarrow> int) \<Rightarrow> nat \<Rightarrow> nat \<Rightarrow> 'a list \<Rightarrow> nat" where
  "earlier_child key j1 n h = (let j2 = j1 + 1 in if j2 < n \<and> Less key h j2 j1 then j2 else j1)"

function heap_down :: "('a \<Rightarrow> int) \<Rightarrow> nat \<Rightarrow> nat \<Rightarrow> 'a list \<Rightarrow> 'a list" where
  "heap_down key i n h =
     (let j1 = 2 * i + 1
      in if j1 \<ge> n then h
         else
           (let j = earlier_child key j1 n h
            in if \<not> Less key h j i then h else heap_down key j n (swap_elems i j h)))"
  by pat_completeness auto
termination
  by (relation "measure (\<lambda>(key, i, n, h). n - i)") (auto simp: earlier_child_def Let_def)

declare heap_up.simps [simp del] heap_down.simps [simp del]

definition heap_Push :: "('a \<Rightarrow> int) \<Rightarrow> 'a \<Rightarrow> 'a list \<Rightarrow> 'a list" where
  "heap_Push key x h = heap_up key (length h) (h @ [x])"

definition heap_Pop :: "('a \<Rightarrow> int) \<Rightarrow> 'a list \<Rightarrow> 'a \<times> 'a list" where
  "heap_Pop key h =
     (let n = length h - 1; h1 = heap_down key 0 n (swap_elems 0 n h)
      in (h1 ! n, take n h1))"

section \<open>Elements\<close>

lemma swap_elems_simps [simp]: "length (swap_elems i j h) = length h"
  by (simp add: swap_elems_def)

lemma mset_swap_elems: "i < length h \<Longrightarrow> j < length h \<Longrightarrow> mset (swap_elems i j h) = mset h"
  by (simp add: swap_elems_def mset_swap)

lemma swap_elems_nth:
  "i < length h \<Longrightarrow> j < length h \<Longrightarrow> k < length h \<Longrightarrow>
     swap_elems i j h ! k = (if k = j then h ! i else if k = i then h ! j else h ! k)"
  by (simp add: swap_elems_def nth_list_update)

lemma parent_less: "0 < j \<Longrightarrow> parent j < j"
  by (simp add: parent_def)

lemma parent_children: "0 < k \<Longrightarrow> parent k = i \<longleftrightarrow> k = 2 * i + 1 \<or> k = 2 * i + 2"
  unfolding parent_def by presburger

lemma earlier_child_bounds:
  assumes "2 * i + 1 < n"
  shows "earlier_child key (2 * i + 1) n h < n" "i < earlier_child key (2 * i + 1) n h" "0 < earlier_child key (2 * i + 1) n h"
    "parent (earlier_child key (2 * i + 1) n h) = i"
  using assms by (auto simp: earlier_child_def parent_def Let_def)

lemma earlier_child_least:
  "k < n \<Longrightarrow> 0 < k \<Longrightarrow> parent k = i \<Longrightarrow> key (h ! earlier_child key (2 * i + 1) n h) \<le> key (h ! k)"
  using parent_children [of k i] by (auto simp: earlier_child_def Less_def Let_def)

lemma heap_down_stop: "2 * i + 1 \<ge> n \<or> \<not> Less key h (earlier_child key (2 * i + 1) n h) i \<Longrightarrow> heap_down key i n h = h"
  by (subst heap_down.simps) (auto simp: Let_def)

lemma heap_down_go:
  "2 * i + 1 < n \<Longrightarrow> Less key h (earlier_child key (2 * i + 1) n h) i \<Longrightarrow>
     heap_down key i n h = heap_down key (earlier_child key (2 * i + 1) n h) n (swap_elems i (earlier_child key (2 * i + 1) n h) h)"
  by (subst heap_down.simps) (simp add: Let_def)

lemma mset_heap_up: "j < length h \<Longrightarrow> mset (heap_up key j h) = mset h"
proof (induction key j h rule: heap_up.induct)
  case (1 key j h)
  let ?i = "parent j"
  show ?case
  proof (cases "?i = j \<or> \<not> Less key h j ?i")
    case True
    then show ?thesis by (subst heap_up.simps) (simp add: Let_def)
  next
    case False
    have "?i < length h" using 1(2) by (simp add: parent_def)
    then have "mset (heap_up key ?i (swap_elems ?i j h)) = mset h"
      using 1(1) [OF refl False] 1(2) by (simp add: mset_swap_elems)
    then show ?thesis using False by (subst heap_up.simps) (simp add: Let_def)
  qed
qed

lemma heap_down_elems: "n \<le> length h \<Longrightarrow> i < n \<Longrightarrow> mset (heap_down key i n h) = mset h \<and>
    (\<forall>k < length h. n \<le> k \<longrightarrow> heap_down key i n h ! k = h ! k)"
proof (induction key i n h rule: heap_down.induct)
  case (1 key i n h)
  let ?j = "earlier_child key (2 * i + 1) n h"
  show ?case
  proof (cases "2 * i + 1 \<ge> n \<or> \<not> Less key h ?j i")
    case True
    then show ?thesis by (simp add: heap_down_stop)
  next
    case False
    then have lt: "2 * i + 1 < n" and less: "Less key h ?j i" by simp_all
    note j = earlier_child_bounds [OF lt, of key h]
    have "mset (heap_down key ?j n (swap_elems i ?j h)) = mset (swap_elems i ?j h) \<and>
        (\<forall>k < length h. n \<le> k \<longrightarrow> heap_down key ?j n (swap_elems i ?j h) ! k = swap_elems i ?j h ! k)"
      using 1(1) [OF refl _ refl] lt less 1(2) j(1) by simp
    moreover have "mset (swap_elems i ?j h) = mset h" using j(1) 1(2,3) by (intro mset_swap_elems) auto
    moreover have "swap_elems i ?j h ! k = h ! k" if "k < length h" "n \<le> k" for k
      using that j(1) 1(2,3) by (subst swap_elems_nth) auto
    ultimately show ?thesis unfolding heap_down_go [OF lt less] by simp
  qed
qed

section \<open>Order\<close>

definition heap_ok :: "('a \<Rightarrow> int) \<Rightarrow> nat \<Rightarrow> 'a list \<Rightarrow> bool" where
  "heap_ok key n h \<longleftrightarrow> (\<forall>k < n. 0 < k \<longrightarrow> key (h ! parent k) \<le> key (h ! k))"

text \<open>Ordered but for the entry at \<open>j\<close>, which may be too early (\<open>up\<close>) or too late (\<open>down\<close>).\<close>

definition up_ok :: "('a \<Rightarrow> int) \<Rightarrow> nat \<Rightarrow> 'a list \<Rightarrow> bool" where
  "up_ok key j h \<longleftrightarrow> (\<forall>k < length h. 0 < k \<longrightarrow>
     (k \<noteq> j \<longrightarrow> key (h ! parent k) \<le> key (h ! k)) \<and> (parent k = j \<and> 0 < j \<longrightarrow> key (h ! parent j) \<le> key (h ! k)))"

definition down_ok :: "('a \<Rightarrow> int) \<Rightarrow> nat \<Rightarrow> nat \<Rightarrow> 'a list \<Rightarrow> bool" where
  "down_ok key i n h \<longleftrightarrow> (\<forall>k < n. 0 < k \<longrightarrow>
     (parent k \<noteq> i \<longrightarrow> key (h ! parent k) \<le> key (h ! k)) \<and> (parent k = i \<and> 0 < i \<longrightarrow> key (h ! parent i) \<le> key (h ! k)))"

lemma heap_top: "heap_ok key n h \<Longrightarrow> k < n \<Longrightarrow> key (h ! 0) \<le> key (h ! k)"
proof (induction k rule: less_induct)
  case (less k)
  show ?case
  proof (cases "k = 0")
    case False
    then have "key (h ! 0) \<le> key (h ! parent k)" using less parent_less [of k] by simp
    also have "\<dots> \<le> key (h ! k)" using less.prems False by (simp add: heap_ok_def)
    finally show ?thesis .
  qed simp
qed

lemma up_ok_swap:
  assumes "up_ok key j h" "j < length h" "0 < j" "key (h ! j) < key (h ! parent j)"
  shows "up_ok key (parent j) (swap_elems (parent j) j h)"
  unfolding up_ok_def
proof (intro allI impI)
  fix k
  assume k: "k < length (swap_elems (parent j) j h)" "0 < k"
  let ?i = "parent j" and ?s = "swap_elems (parent j) j h"
  have i: "?i < length h" "?i \<noteq> j" using assms(2,3) parent_less [of j] by auto
  have pk: "parent k < length h" "parent k \<noteq> k" using k parent_less [of k] by auto
  have nth: "?s ! m = (if m = j then h ! ?i else if m = ?i then h ! j else h ! m)" if "m < length h" for m
    using that i assms(2) by (simp add: swap_elems_nth)
  have a: "k \<noteq> j \<Longrightarrow> key (h ! parent k) \<le> key (h ! k)" "parent k = j \<Longrightarrow> key (h ! ?i) \<le> key (h ! k)"
    using assms(1,3) k by (simp_all add: up_ok_def)
  have c: "k \<noteq> ?i \<Longrightarrow> key (?s ! parent k) \<le> key (?s ! k)"
    using k pk nth [of k] nth [of "parent k"] a assms(4) by auto
  have "key (?s ! parent ?i) \<le> key (?s ! k)" if "parent k = ?i" "0 < ?i"
  proof -
    have pi: "parent ?i < ?i" "parent ?i < length h" using parent_less [OF that(2)] i by auto
    have up: "key (h ! parent ?i) \<le> key (h ! ?i)" using assms(1) i that(2) by (auto simp: up_ok_def)
    have "?s ! parent ?i = h ! parent ?i" using nth [OF pi(2)] pi(1) parent_less [OF assms(3)] by simp
    then show ?thesis using nth [of k] k that up a(1) pk by auto
  qed
  with c show "(k \<noteq> ?i \<longrightarrow> key (?s ! parent k) \<le> key (?s ! k)) \<and>
      (parent k = ?i \<and> 0 < ?i \<longrightarrow> key (?s ! parent ?i) \<le> key (?s ! k))" by blast
qed

lemma heap_up_ok: "up_ok key j h \<Longrightarrow> j < length h \<Longrightarrow> heap_ok key (length h) (heap_up key j h)"
proof (induction key j h rule: heap_up.induct)
  case (1 key j h)
  let ?i = "parent j"
  show ?case
  proof (cases "?i = j \<or> \<not> Less key h j ?i")
    case True
    then have u: "heap_up key j h = h" by (subst heap_up.simps) (simp add: Let_def)
    have "?i = j \<longleftrightarrow> j = 0" using parent_less [of j] by (auto simp: parent_def)
    with True 1(2) show ?thesis unfolding u heap_ok_def up_ok_def Less_def by (auto simp: not_less)
  next
    case False
    then have j: "0 < j" by (auto simp: parent_def)
    have "up_ok key ?i (swap_elems ?i j h)" using up_ok_swap [OF 1(2,3) j] False by (simp add: Less_def)
    moreover have "?i < length h" using 1(3) parent_less [OF j] by simp
    ultimately have "heap_ok key (length h) (heap_up key ?i (swap_elems ?i j h))" using 1(1) [OF refl False] by simp
    then show ?thesis using False by (subst heap_up.simps) (simp add: Let_def)
  qed
qed

lemma down_ok_swap:
  assumes "down_ok key i n h" "n \<le> length h" "j < n" "0 < j" "parent j = i" "key (h ! j) < key (h ! i)"
    and least: "\<And>k. k < n \<Longrightarrow> 0 < k \<Longrightarrow> parent k = i \<Longrightarrow> key (h ! j) \<le> key (h ! k)"
  shows "down_ok key j n (swap_elems i j h)"
  unfolding down_ok_def
proof (intro allI impI)
  fix k
  assume k: "k < n" "0 < k"
  let ?s = "swap_elems i j h"
  have i: "i < j" "i < length h" "j < length h" using parent_less [OF assms(4)] assms(2,3,5) by auto
  have pk: "parent k < k" "parent k < length h" "k < length h" using k parent_less [of k] assms(2) by auto
  have nth: "?s ! m = (if m = j then h ! i else if m = i then h ! j else h ! m)" if "m < length h" for m
    using that i by (simp add: swap_elems_nth)
  have a: "parent k \<noteq> i \<Longrightarrow> key (h ! parent k) \<le> key (h ! k)"
    "parent k = i \<Longrightarrow> 0 < i \<Longrightarrow> key (h ! parent i) \<le> key (h ! k)"
    using assms(1) k by (simp_all add: down_ok_def)
  have c: "key (?s ! parent k) \<le> key (?s ! k)" if "parent k \<noteq> j"
  proof (cases "parent k = i")
    case True
    then show ?thesis using nth [of k] nth [of i] pk i least [OF k] assms(6) by auto
  next
    case False
    show ?thesis
    proof (cases "k = i")
      case True
      have "key (h ! parent i) \<le> key (h ! j)" using assms(1,3,4,5) True k by (simp add: down_ok_def)
      then show ?thesis using nth [of k] nth [of "parent k"] pk True that False i by auto
    next
      case False
      with \<open>parent k \<noteq> i\<close> show ?thesis using nth [of k] nth [of "parent k"] pk a(1) that i assms(5) by auto
    qed
  qed
  have "key (?s ! parent j) \<le> key (?s ! k)" if "parent k = j"
    using that nth [of i] nth [of k] pk i a(1) assms(5) by auto
  with c show "(parent k \<noteq> j \<longrightarrow> key (?s ! parent k) \<le> key (?s ! k)) \<and>
      (parent k = j \<and> 0 < j \<longrightarrow> key (?s ! parent j) \<le> key (?s ! k))" by blast
qed

lemma heap_down_ok:
  "down_ok key i n h \<Longrightarrow> n \<le> length h \<Longrightarrow> i < n \<Longrightarrow> heap_ok key n (heap_down key i n h)"
proof (induction key i n h rule: heap_down.induct)
  case (1 key i n h)
  let ?j = "earlier_child key (2 * i + 1) n h"
  show ?case
  proof (cases "2 * i + 1 \<ge> n \<or> \<not> Less key h ?j i")
    case True
    have "key (h ! i) \<le> key (h ! k)" if k: "k < n" "0 < k" "parent k = i" for k
    proof -
      have "2 * i + 1 < n" using k parent_children [of k i] by auto
      with True have "key (h ! i) \<le> key (h ! ?j)" by (auto simp: Less_def)
      with earlier_child_least [OF k, where key = key and h = h] show ?thesis by linarith
    qed
    then show ?thesis unfolding heap_down_stop [OF True] heap_ok_def using 1(2) by (auto simp: down_ok_def)
  next
    case False
    then have lt: "2 * i + 1 < n" and less: "Less key h ?j i" by simp_all
    note j = earlier_child_bounds [OF lt, of key h]
    have "key (h ! ?j) < key (h ! i)" using less by (simp add: Less_def)
    from down_ok_swap [OF 1(2,3) j(1,3,4) this earlier_child_least] have ok: "down_ok key ?j n (swap_elems i ?j h)" .
    have "heap_ok key n (heap_down key ?j n (swap_elems i ?j h))"
      by (rule 1(1) [OF refl _ refl]) (use lt less ok 1(3) j(1) in simp_all)
    then show ?thesis unfolding heap_down_go [OF lt less] .
  qed
qed

section \<open>A priority queue\<close>

text \<open>What the link registry relies on: the multiset of entries, and that the first one is the earliest.\<close>

locale dial_queue =
  fixes key :: "'a \<Rightarrow> int" and ok :: "'q \<Rightarrow> bool" and entries :: "'q \<Rightarrow> 'a multiset" and front :: "'q \<Rightarrow> 'a"
    and push :: "'a \<Rightarrow> 'q \<Rightarrow> 'q" and pop :: "'q \<Rightarrow> 'a \<times> 'q"
  assumes push_ok: "ok q \<Longrightarrow> ok (push x q)" and push_entries: "ok q \<Longrightarrow> entries (push x q) = add_mset x (entries q)"
    and pop_ok: "ok q \<Longrightarrow> entries q \<noteq> {#} \<Longrightarrow> ok (snd (pop q))"
    and pop_front: "ok q \<Longrightarrow> entries q \<noteq> {#} \<Longrightarrow> fst (pop q) = front q"
    and pop_entries: "ok q \<Longrightarrow> entries q \<noteq> {#} \<Longrightarrow> entries q = add_mset (front q) (entries (snd (pop q)))"
    and front_least: "ok q \<Longrightarrow> x \<in># entries q \<Longrightarrow> key (front q) \<le> key x"
begin

text \<open>Draining the queue up to a time takes out exactly the entries that are due, in order of time.\<close>

fun drain where
  "drain now 0 q = ([], q)"
| "drain now (Suc n) q =
     (if entries q = {#} \<or> now < key (front q) then ([], q)
      else let (x, q1) = pop q; (xs, q2) = drain now n q1 in (x # xs, q2))"

lemma drain_spec:
  assumes "ok q" "size (entries q) \<le> n"
  shows "ok (snd (drain now n q)) \<and> mset (fst (drain now n q)) = filter_mset (\<lambda>x. key x \<le> now) (entries q) \<and>
    entries (snd (drain now n q)) = filter_mset (\<lambda>x. now < key x) (entries q) \<and>
    sorted (map key (fst (drain now n q)))"
  using assms
proof (induction n arbitrary: q)
  case 0
  then show ?case by simp
next
  case (Suc n)
  show ?case
  proof (cases "entries q = {#} \<or> now < key (front q)")
    case True
    have late: "now < key x" if "x \<in># entries q" for x
    proof -
      have "now < key (front q)" using True that by auto
      also have "\<dots> \<le> key x" using that by (rule front_least [OF Suc.prems(1)])
      finally show ?thesis .
    qed
    have "filter_mset (\<lambda>x. key x \<le> now) (entries q) = filter_mset (\<lambda>x. False) (entries q)"
      "filter_mset (\<lambda>x. now < key x) (entries q) = filter_mset (\<lambda>x. True) (entries q)"
      by (rule filter_mset_cong [OF refl], use late in force)+
    with True Suc.prems(1) show ?thesis by simp
  next
    case False
    then have ne: "entries q \<noteq> {#}" and due: "key (front q) \<le> now" by auto
    let ?q1 = "snd (pop q)"
    note e = pop_entries [OF Suc.prems(1) ne]
    have "size (entries ?q1) \<le> n" using Suc.prems(2) by (subst (asm) e) simp
    note ih = Suc.IH [OF pop_ok [OF Suc.prems(1) ne] this]
    have run: "drain now (Suc n) q = (front q # fst (drain now n ?q1), snd (drain now n ?q1))"
      using False pop_front [OF Suc.prems(1) ne] by (simp add: case_prod_beta)
    have "key (front q) \<le> key x" if "x \<in> set (fst (drain now n ?q1))" for x
    proof -
      have "x \<in># filter_mset (\<lambda>x. key x \<le> now) (entries ?q1)" using that ih [THEN conjunct2, THEN conjunct1] by (metis set_mset_mset)
      then have "x \<in># entries ?q1" by simp
      then have "x \<in># entries q" by (subst e) simp
      then show ?thesis by (rule front_least [OF Suc.prems(1)])
    qed
    moreover have "filter_mset (\<lambda>x. key x \<le> now) (entries q) = add_mset (front q) (filter_mset (\<lambda>x. key x \<le> now) (entries ?q1))"
      "filter_mset (\<lambda>x. now < key x) (entries q) = filter_mset (\<lambda>x. now < key x) (entries ?q1)"
      using due by (subst e, simp)+
    ultimately show ?thesis unfolding run using ih by simp
  qed
qed

end

lemma heap_Push_ok:
  assumes "heap_ok key (length h) h"
  shows "heap_ok key (length (heap_Push key x h)) (heap_Push key x h)" "mset (heap_Push key x h) = add_mset x (mset h)"
proof -
  have "up_ok key (length h) (h @ [x])"
    unfolding up_ok_def
  proof (intro allI impI)
    fix k
    assume k: "k < length (h @ [x])" "0 < k"
    then have "parent k < k" using parent_less by blast
    then have "parent k < length h" using k by simp
    with k assms show "(k \<noteq> length h \<longrightarrow> key ((h @ [x]) ! parent k) \<le> key ((h @ [x]) ! k)) \<and>
        (parent k = length h \<and> 0 < length h \<longrightarrow> key ((h @ [x]) ! parent (length h)) \<le> key ((h @ [x]) ! k))"
      by (simp add: heap_ok_def nth_append)
  qed
  from heap_up_ok [OF this] mset_heap_up [of "length h" "h @ [x]" key]
  show "heap_ok key (length (heap_Push key x h)) (heap_Push key x h)" "mset (heap_Push key x h) = add_mset x (mset h)"
    by (simp_all add: heap_Push_def mset_eq_length [of "heap_up key (length h) (h @ [x])" "h @ [x]"])
qed

lemma heap_Pop_ok:
  assumes "heap_ok key (length h) h" "h \<noteq> []"
  shows "fst (heap_Pop key h) = h ! 0" "mset h = add_mset (h ! 0) (mset (snd (heap_Pop key h)))"
    "heap_ok key (length (snd (heap_Pop key h))) (snd (heap_Pop key h))"
proof -
  let ?n = "length h - 1" and ?s = "swap_elems 0 (length h - 1) h"
  let ?d = "heap_down key 0 ?n ?s"
  have n: "?n < length h" "0 < length h" using assms(2) by auto
  have ms: "mset ?s = mset h" using n by (intro mset_swap_elems) simp_all
  have last: "?s ! ?n = h ! 0" using n by (simp add: swap_elems_nth)
  have "down_ok key 0 ?n ?s"
    unfolding down_ok_def
  proof (intro allI impI)
    fix k
    assume k: "k < ?n" "0 < k"
    then have "parent k < ?n" using parent_less [of k] by simp
    with k n assms(1) show "(parent k \<noteq> 0 \<longrightarrow> key (?s ! parent k) \<le> key (?s ! k)) \<and>
        (parent k = 0 \<and> (0::nat) < 0 \<longrightarrow> key (?s ! parent 0) \<le> key (?s ! k))"
      by (auto simp: swap_elems_nth heap_ok_def)
  qed
  then have down: "heap_ok key ?n ?d \<and> mset ?d = mset h \<and> ?d ! ?n = h ! 0"
  proof (cases "?n = 0")
    case True
    then have "?d = ?s" by (subst heap_down.simps) (simp add: Let_def)
    with True ms last show ?thesis by (simp add: heap_ok_def)
  next
    case False
    with \<open>down_ok key 0 ?n ?s\<close> heap_down_ok [of key 0 ?n ?s] heap_down_elems [of ?n ?s 0 key] ms last n show ?thesis by simp
  qed
  then have len: "length ?d = length h" using mset_eq_length by blast
  show "fst (heap_Pop key h) = h ! 0" using down by (simp add: heap_Pop_def Let_def)
  have "?d = take ?n ?d @ [?d ! ?n]" using take_Suc_conv_app_nth [of ?n ?d] len n by simp
  then have "mset ?d = mset (take ?n ?d @ [?d ! ?n])" by (rule arg_cong)
  also have "\<dots> = add_mset (h ! 0) (mset (take ?n ?d))" using down by simp
  finally have "mset h = add_mset (h ! 0) (mset (take ?n ?d))" using down by simp
  then show "mset h = add_mset (h ! 0) (mset (snd (heap_Pop key h)))" by (simp only: heap_Pop_def Let_def snd_conv)
  have "parent k < ?n" if "k < ?n" "0 < k" for k using that parent_less [of k] by simp
  then show "heap_ok key (length (snd (heap_Pop key h))) (snd (heap_Pop key h))"
    using down len by (simp add: heap_Pop_def Let_def heap_ok_def)
qed

interpretation link_state_heap: dial_queue key "\<lambda>h. heap_ok key (length h) h" mset "\<lambda>h. h ! 0" "heap_Push key" "heap_Pop key" for key
  by unfold_locales (auto simp: heap_Push_ok heap_Pop_ok in_set_conv_nth intro: heap_top)

end
