(* ===== verification/Link_Registry.thy ===== *)
theory Link_Registry
  imports Complex_Main Dial_Queue
begin

text \<open>
  The link registry of a router (\<open>router/link/link_registry.go\<close>, \<open>link_state.go\<close>,
  \<open>link_events.go\<close>): which links should exist to which routers, dialing them with back-off,
  resolving duplicates, and telling the controllers about new and faulted links.

  Links, link states and destinations are heap objects, since the maps, the dial queue, queued
  events and running dials share them. The registry's loop handles one event or tick at a time;
  dials and notifications run in pools and are jobs of the state. What a link does on \<open>Close\<close>,
  and the messages sent, are effects. Every reading of the clock, random number, generated id,
  map order and pool answer is an oracle of the environment, indexed by a counter that each use
  advances.

  The channel of events holds 16. A goroutine that has changed the registry's maps, dialed or
  notified the controllers queues its event in a step of its own, as soon as there is room, and
  goes on after that; in between the loop and other goroutines run. \<open>applyLink\<close> decides in one
  step and enters the link in the maps in another. The loop runs a handler, a scan or a check of
  the dial queue in one step. The shutdown of the router is not modelled.
\<close>

section \<open>Data\<close>

datatype linkStatus =
    StatusPending | StatusDialing | StatusQueueFailed | StatusDialFailed | StatusLinkFailed
  | StatusDestRemoved | StatusEstablished

type_synonym xlink_ref = nat
type_synonym state_ref = nat
type_synonym dest_ref = nat

text \<open>What the registry asks of a link, an interface with several implementations.\<close>

record Xlink =
  x_key :: string
  x_id :: string
  x_dest :: string
  x_protocol :: string
  x_dialAddress :: string
  x_iteration :: "32 word"
  x_dialed :: bool
  x_closed :: bool
  x_duplicatesRejected :: "32 word"

record Listener =
  ls_address :: string
  ls_protocol :: string
  ls_localBinding :: string
  ls_groups :: "string list"

text \<open>Go's \<open>float64\<close> as far as its comparisons go; the sign of an infinity is a flag.\<close>

datatype go_float = Finite rat | Infinite bool | NaN

record BackoffConfig =
  bo_minRetryInterval :: int
  bo_maxRetryInterval :: int
  bo_retryBackoffFactor :: go_float

record Dialer =
  dr_binding :: string
  dr_groups :: "string list"
  dr_healthyBackoff :: BackoffConfig
  dr_unhealthyBackoff :: BackoffConfig

record linkFault =
  lf_linkId :: string
  lf_iteration :: "32 word"

record linkState =
  st_linkKey :: string
  st_linkId :: string
  st_status :: linkStatus
  st_dialAttempts :: "64 word"
  st_connectedCount :: "64 word"
  st_retryDelay :: int
  st_nextDial :: int
  st_dest :: dest_ref
  st_listener :: Listener
  st_dialer :: Dialer
  st_allowedDials :: int
  st_ctrlsNotified :: bool
  st_linkFaults :: "linkFault list"
  st_dialActive :: bool
  st_link :: "xlink_ref option"

record linkDest =
  ld_id :: string
  ld_version :: string
  ld_healthy :: bool
  ld_unhealthyAt :: int
  ld_linkMap :: "(string \<times> state_ref) list"

datatype event =
    RemoveLinkDest string
  | LinkDestUpdate string string bool "Listener list"
  | UpdateLinkStatusForLink xlink_ref linkStatus
  | AddLinkFaultForReplacedLink xlink_ref
  | UpdateLinkStatusToDialFailed state_ref bool
  | MarkNewLinksNotified "(state_ref \<times> xlink_ref) list"
  | MarkFaultedLinksNotified "(state_ref \<times> linkFault list) list"

text \<open>
  A goroutine other than the loop: a dial that is queued, one that waits for the connection, a
  notification with what it still has to send, an \<open>applyLink\<close> about to enter its link in the maps, a
  call of \<open>queueEvent\<close> waiting for room in the channel, and a dial about to clear its flag. The second
  argument of the two calls is what their goroutine does afterwards.
\<close>

datatype job_next = Return | ClearDial state_ref | NotifyRest "(state_ref \<times> linkFault list) list"

datatype reg_job =
    DialJob state_ref
  | DialingJob state_ref
  | NotifyJob "(state_ref \<times> xlink_ref) list" "(state_ref \<times> linkFault list) list"
  | RegisterJob xlink_ref job_next
  | SendJob event job_next
  | DialDoneJob state_ref

fun after_call :: "job_next \<Rightarrow> reg_job list" where
  "after_call Return = []"
| "after_call (ClearDial k) = [DialDoneJob k]"
| "after_call (NotifyRest faults) = [NotifyJob [] faults]"

datatype reg_effect =
    CloseLink xlink_ref
  | CloseLinkAfter xlink_ref int
  | ReportDuplicate string "32 word" bool

record linkRegistry =
  linkMap :: "(string \<times> xlink_ref) list"
  linkByIdMap :: "string \<rightharpoonup> xlink_ref"
  xlinks :: "xlink_ref \<Rightarrow> Xlink"
  next_xlink :: xlink_ref
  link_dests :: "(string \<times> dest_ref) list"
  dest_objs :: "dest_ref \<Rightarrow> linkDest"
  next_dest :: dest_ref
  state_objs :: "state_ref \<Rightarrow> linkState"
  next_state :: state_ref
  linkStateQueue :: "state_ref list"
  reg_events :: "event list"
  triggerNotifyC :: bool
  notifyInProgress :: bool
  reg_jobs :: "reg_job list"
  reg_effects :: "reg_effect list"
  reg_ticks :: nat

record reg_env =
  le_clock :: "nat \<Rightarrow> int"
  le_pool :: "nat \<Rightarrow> bool"
  le_scale :: "nat \<Rightarrow> BackoffConfig \<Rightarrow> int \<Rightarrow> int"
  le_rand :: "nat \<Rightarrow> nat"
  le_uuid :: "nat \<Rightarrow> string"
  le_ord :: "nat \<Rightarrow> string list \<Rightarrow> string list"
  le_dialers :: "Dialer list"
  le_containsAny :: "string list \<Rightarrow> string list \<Rightarrow> bool"
  le_legacyCtrl :: bool

definition go_second :: int where "go_second = 1000000000"
definition zero_time :: int where "zero_time = - 62135596800 * go_second"

definition tick :: "linkRegistry \<Rightarrow> linkRegistry" where
  "tick s = s\<lparr>reg_ticks := reg_ticks s + 1\<rparr>"

definition set_state :: "state_ref \<Rightarrow> (linkState \<Rightarrow> linkState) \<Rightarrow> linkRegistry \<Rightarrow> linkRegistry" where
  "set_state k f s = s\<lparr>state_objs := (state_objs s)(k := f (state_objs s k))\<rparr>"

definition set_dest :: "dest_ref \<Rightarrow> (linkDest \<Rightarrow> linkDest) \<Rightarrow> linkRegistry \<Rightarrow> linkRegistry" where
  "set_dest d f s = s\<lparr>dest_objs := (dest_objs s)(d := f (dest_objs s d))\<rparr>"

definition queueEvent :: "event \<Rightarrow> linkRegistry \<Rightarrow> linkRegistry" where
  "queueEvent e s = s\<lparr>reg_events := reg_events s @ [e]\<rparr>"

text \<open>A goroutine goes from one point to the next, or starts others.\<close>

definition swap_job :: "reg_job \<Rightarrow> reg_job list \<Rightarrow> linkRegistry \<Rightarrow> linkRegistry" where
  "swap_job j js s = s\<lparr>reg_jobs := remove1 j (reg_jobs s) @ js\<rparr>"

definition add_jobs :: "reg_job list \<Rightarrow> linkRegistry \<Rightarrow> linkRegistry" where
  "add_jobs js s = s\<lparr>reg_jobs := reg_jobs s @ js\<rparr>"

text \<open>A waiting call of \<open>queueEvent\<close> gets its event into the channel.\<close>

definition event_capacity :: nat where "event_capacity = 16"

definition send_event :: "event \<Rightarrow> job_next \<Rightarrow> linkRegistry \<Rightarrow> linkRegistry" where
  "send_event e next s = swap_job (SendJob e next) (after_call next) (queueEvent e s)"

definition reg_emit :: "reg_effect \<Rightarrow> linkRegistry \<Rightarrow> linkRegistry" where
  "reg_emit e s = s\<lparr>reg_effects := reg_effects s @ [e]\<rparr>"

section \<open>Back-off configuration\<close>

text \<open>
  Loading of a dialer's back-off settings (\<open>router/xlink_transport/config.go\<close>). A value of the
  parsed YAML map is a string, a number or something else; \<open>parse\<close> stands for
  \<open>time.ParseDuration\<close>, durations are in nanoseconds.
\<close>

datatype yaml_value = YString string | YInt int | YFloat go_float | YOther

datatype load_error = InvalidValue string | TooLow string | TooHigh string | MinAboveMax | InvalidSubmap string

definition MinRetryInterval :: int where "MinRetryInterval = 10 * 1000000"
definition MaxRetryInterval :: int where "MaxRetryInterval = 24 * 3600 * go_second"

fun float_below :: "go_float \<Rightarrow> rat \<Rightarrow> bool" where
  "float_below (Finite x) c = (x < c)"
| "float_below (Infinite positive) c = (\<not> positive)"
| "float_below NaN c = False"

fun float_above :: "go_float \<Rightarrow> rat \<Rightarrow> bool" where
  "float_above (Finite x) c = (x > c)"
| "float_above (Infinite positive) c = positive"
| "float_above NaN c = False"

definition check_factor :: "go_float \<Rightarrow> load_error + go_float" where
  "check_factor f =
     (if float_below f 1 then Inl (TooLow ''retryBackoffFactor'')
      else if float_above f 100 then Inl (TooHigh ''retryBackoffFactor'') else Inr f)"

definition load_factor :: "(string \<rightharpoonup> yaml_value) \<Rightarrow> go_float \<Rightarrow> load_error + go_float" where
  "load_factor data old =
     (case data ''retryBackoffFactor'' of
        None \<Rightarrow> Inr old
      | Some (YFloat f) \<Rightarrow> check_factor f
      | Some (YInt i) \<Rightarrow> check_factor (Finite (of_int i))
      | Some _ \<Rightarrow> Inl (InvalidValue ''retryBackoffFactor''))"

definition load_interval ::
  "(string \<Rightarrow> int option) \<Rightarrow> string \<Rightarrow> (string \<rightharpoonup> yaml_value) \<Rightarrow> int \<Rightarrow> load_error + int" where
  "load_interval parse key data old =
     (case data key of
        None \<Rightarrow> Inr old
      | Some (YString v) \<Rightarrow>
          (case parse v of
             None \<Rightarrow> Inl (InvalidValue key)
           | Some d \<Rightarrow> if d < MinRetryInterval then Inl (TooLow key)
                       else if d > MaxRetryInterval then Inl (TooHigh key) else Inr d)
      | Some _ \<Rightarrow> Inl (InvalidValue key))"

definition load_backoff ::
  "(string \<Rightarrow> int option) \<Rightarrow> (string \<rightharpoonup> yaml_value) \<Rightarrow> BackoffConfig \<Rightarrow> load_error + BackoffConfig" where
  "load_backoff parse data cfg =
     (case load_factor data (bo_retryBackoffFactor cfg) of
        Inl e \<Rightarrow> Inl e
      | Inr f \<Rightarrow>
          (case load_interval parse ''minRetryInterval'' data (bo_minRetryInterval cfg) of
             Inl e \<Rightarrow> Inl e
           | Inr lo \<Rightarrow>
               (case load_interval parse ''maxRetryInterval'' data (bo_maxRetryInterval cfg) of
                  Inl e \<Rightarrow> Inl e
                | Inr hi \<Rightarrow>
                    if lo > hi then Inl MinAboveMax
                    else Inr \<lparr>bo_minRetryInterval = lo, bo_maxRetryInterval = hi, bo_retryBackoffFactor = f\<rparr>)))"

definition default_healthy :: BackoffConfig where
  "default_healthy = \<lparr>bo_minRetryInterval = 5 * go_second, bo_maxRetryInterval = 5 * 60 * go_second,
     bo_retryBackoffFactor = Finite (3 / 2)\<rparr>"

definition default_unhealthy :: BackoffConfig where
  "default_unhealthy = \<lparr>bo_minRetryInterval = 60 * go_second, bo_maxRetryInterval = 3600 * go_second,
     bo_retryBackoffFactor = Finite 10\<rparr>"

text \<open>
  A section of the dialer's map: absent, present but not a map, or a map. The error for a section
  that is not a map names \<open>healthyDialBackoff\<close> in both cases.
\<close>

fun load_section ::
  "(string \<Rightarrow> int option) \<Rightarrow> string \<Rightarrow> (string \<rightharpoonup> yaml_value) option option \<Rightarrow> BackoffConfig \<Rightarrow>
   load_error + BackoffConfig" where
  "load_section parse name None cfg = Inr cfg"
| "load_section parse name (Some None) cfg = Inl (InvalidSubmap name)"
| "load_section parse name (Some (Some data)) cfg = load_backoff parse data cfg"

definition load_dial_backoffs ::
  "(string \<Rightarrow> int option) \<Rightarrow> (string \<rightharpoonup> yaml_value) option option \<Rightarrow> (string \<rightharpoonup> yaml_value) option option \<Rightarrow>
   load_error + BackoffConfig \<times> BackoffConfig" where
  "load_dial_backoffs parse healthy unhealthy =
     (case load_section parse ''healthyDialBackoff'' healthy default_healthy of
        Inl e \<Rightarrow> Inl e
      | Inr h \<Rightarrow>
          (case load_section parse ''healthyDialBackoff'' unhealthy default_unhealthy of
             Inl e \<Rightarrow> Inl e
           | Inr u \<Rightarrow> Inr (h, u)))"

section \<open>Link states\<close>

definition updateStatus :: "linkStatus \<Rightarrow> linkState \<Rightarrow> linkState" where
  "updateStatus status st =
     (if st_status st \<noteq> status then
        (let st1 = st\<lparr>st_status := status\<rparr>
         in if st_status st1 \<noteq> StatusEstablished then st1\<lparr>st_link := None\<rparr> else st1)
      else st)"

fun add_fault :: "string \<Rightarrow> 32 word \<Rightarrow> linkFault list \<Rightarrow> linkFault list" where
  "add_fault i n [] = [\<lparr>lf_linkId = i, lf_iteration = n\<rparr>]"
| "add_fault i n (f # fs) =
     (if lf_linkId f = i then (if lf_iteration f < n then f\<lparr>lf_iteration := n\<rparr> # fs else f # fs)
      else f # add_fault i n fs)"

definition addPendingLinkFault :: "string \<Rightarrow> 32 word \<Rightarrow> linkState \<Rightarrow> linkState" where
  "addPendingLinkFault i n st = st\<lparr>st_linkFaults := add_fault i n (st_linkFaults st)\<rparr>"

definition clearFaultsForLinkId :: "string \<Rightarrow> linkState \<Rightarrow> linkState" where
  "clearFaultsForLinkId i st = st\<lparr>st_linkFaults := filter (\<lambda>f. lf_linkId f \<noteq> i) (st_linkFaults st)\<rparr>"

definition clearFault :: "linkFault \<Rightarrow> linkState \<Rightarrow> linkState" where
  "clearFault toClear st =
     st\<lparr>st_linkFaults :=
          filter (\<lambda>f. lf_linkId f \<noteq> lf_linkId toClear \<or> lf_iteration f > lf_iteration toClear) (st_linkFaults st)\<rparr>"

text \<open>
  \<open>le_scale\<close> is the float product of the delay with the randomised back-off factor; the result is
  brought into the configured interval.
\<close>

definition retry_delay :: "reg_env \<Rightarrow> nat \<Rightarrow> BackoffConfig \<Rightarrow> int \<Rightarrow> int" where
  "retry_delay env t cfg delay =
     (let d = le_scale env t cfg delay;
          d = (if d < bo_minRetryInterval cfg then bo_minRetryInterval cfg else d)
      in if d > bo_maxRetryInterval cfg then bo_maxRetryInterval cfg else d)"

abbreviation dial_key :: "linkRegistry \<Rightarrow> state_ref \<Rightarrow> int" where
  "dial_key s \<equiv> \<lambda>k. st_nextDial (state_objs s k)"

definition state_dialFailed :: "reg_env \<Rightarrow> bool \<Rightarrow> state_ref \<Rightarrow> linkRegistry \<Rightarrow> linkRegistry" where
  "state_dialFailed env applyFailed k s0 =
     (let s = set_state k (\<lambda>st. if st_allowedDials st > 0 then st\<lparr>st_allowedDials := st_allowedDials st - 1\<rparr> else st) s0;
          st = state_objs s k
      in if st_allowedDials st = 0
         then set_dest (st_dest st) (\<lambda>d. d\<lparr>ld_linkMap := AList.delete (st_linkKey st) (ld_linkMap d)\<rparr>) s
         else
           (let cfg = (if \<not> ld_healthy (dest_objs s (st_dest st)) then dr_unhealthyBackoff (st_dialer st)
                       else dr_healthyBackoff (st_dialer st));
                delay = retry_delay env (reg_ticks s) cfg (st_retryDelay st);
                nextDial = le_clock env (reg_ticks s) + delay;
                nextDial = (if applyFailed then nextDial + (int (le_rand env (reg_ticks s) mod 4) + 1) * go_second
                            else nextDial);
                s1 = tick (set_state k (\<lambda>st. st\<lparr>st_retryDelay := delay, st_nextDial := nextDial\<rparr>) s)
            in s1\<lparr>linkStateQueue := heap_Push (dial_key s1) k (linkStateQueue s1)\<rparr>))"

text \<open>
  \<open>evaluateLinkState\<close> claims the dial by compare-and-swap and queues it in the dialer pool; when
  the pool refuses, the state waits for a retry.
\<close>

definition evaluateLinkState :: "reg_env \<Rightarrow> state_ref \<Rightarrow> linkRegistry \<Rightarrow> linkRegistry" where
  "evaluateLinkState env k s0 =
     (let s = tick s0; st = state_objs s k;
          couldDial = (st_status st \<noteq> StatusEstablished \<and> st_status st \<noteq> StatusDialing \<and>
                       st_nextDial st < le_clock env (reg_ticks s0))
      in if couldDial \<and> \<not> st_dialActive st then
           (let s1 = set_state k (\<lambda>st. (updateStatus StatusDialing (st\<lparr>st_dialActive := True\<rparr>))
                                         \<lparr>st_dialAttempts := st_dialAttempts st + 1\<rparr>) s
            in if le_pool env (reg_ticks s0) then s1\<lparr>reg_jobs := reg_jobs s1 @ [DialJob k]\<rparr>
               else state_dialFailed env False k
                      (set_state k (\<lambda>st. updateStatus StatusQueueFailed (st\<lparr>st_dialActive := False\<rparr>)) s1))
         else s)"

section \<open>Links\<close>

definition GetLink :: "linkRegistry \<Rightarrow> string \<Rightarrow> xlink_ref option" where
  "GetLink s linkKey = map_of (linkMap s) linkKey"

definition GetLinkById :: "linkRegistry \<Rightarrow> string \<Rightarrow> xlink_ref option" where
  "GetLinkById s linkId = linkByIdMap s linkId"

definition DebugForgetLink :: "string \<Rightarrow> linkRegistry \<Rightarrow> bool \<times> linkRegistry" where
  "DebugForgetLink linkId s =
     (case linkByIdMap s linkId of
        Some l \<Rightarrow>
          (True, s\<lparr>linkByIdMap := (linkByIdMap s)(linkId := None),
                   linkMap := AList.delete (x_key (xlinks s l)) (linkMap s)\<rparr>)
      | None \<Rightarrow> (False, s))"

text \<open>
  \<open>applyLink\<close> answers with the existing link that was preferred, if any, and whether the new one
  is in place, or will be once its goroutine has entered it in the maps; the list is what the
  goroutine does next.
\<close>

definition applyLink ::
  "reg_env \<Rightarrow> xlink_ref \<Rightarrow> job_next \<Rightarrow> linkRegistry \<Rightarrow> (xlink_ref option \<times> bool) \<times> reg_job list \<times> linkRegistry" where
  "applyLink env l next s =
     (let x = xlinks s l
      in if x_closed x then ((None, False), after_call next, s)
         else
           (case GetLink s (x_key x) of
              Some e \<Rightarrow>
                if e = l then ((None, True), after_call next, s)
                else if x_id (xlinks s e) < x_id x \<and> x_duplicatesRejected (xlinks s e) \<le> 5 then
                  ((Some e, False), after_call next,
                   reg_emit (if x_dialed x then CloseLink l else CloseLinkAfter l (30 * go_second)) s)
                else
                  (let ex = xlinks s e;
                       s1 = reg_emit (ReportDuplicate (x_id ex) (x_iteration ex) (le_legacyCtrl env)) s;
                       s2 = reg_emit (CloseLinkAfter e (if x_dialed ex then 60 * go_second else 75 * go_second)) s1
                   in ((None, True), [RegisterJob l next], s2))
            | None \<Rightarrow> ((None, True), [RegisterJob l next], s)))"

definition register_link :: "xlink_ref \<Rightarrow> job_next \<Rightarrow> linkRegistry \<Rightarrow> linkRegistry" where
  "register_link l next s =
     swap_job (RegisterJob l next) [SendJob (UpdateLinkStatusForLink l StatusEstablished) next]
       (s\<lparr>linkMap := AList.update (x_key (xlinks s l)) l (linkMap s),
          linkByIdMap := (linkByIdMap s)(x_id (xlinks s l) \<mapsto> l)\<rparr>)"

definition LinkClosed :: "xlink_ref \<Rightarrow> linkRegistry \<Rightarrow> linkRegistry" where
  "LinkClosed l s =
     (let x = xlinks s l;
          markLinkStateClosed = (map_of (linkMap s) (x_key x) = Some l);
          s1 = (if markLinkStateClosed then s\<lparr>linkMap := AList.delete (x_key x) (linkMap s)\<rparr> else s);
          s2 = (if linkByIdMap s1 (x_id x) = Some l then s1\<lparr>linkByIdMap := (linkByIdMap s1)(x_id x := None)\<rparr> else s1)
      in if markLinkStateClosed then add_jobs [SendJob (UpdateLinkStatusForLink l StatusLinkFailed) Return] s2
         else add_jobs [SendJob (AddLinkFaultForReplacedLink l) Return] s2)"

section \<open>Event handlers\<close>

text \<open>The states of a destination, in the order of an iteration over its map.\<close>

definition dest_states :: "reg_env \<Rightarrow> nat \<Rightarrow> linkDest \<Rightarrow> state_ref list" where
  "dest_states env t d =
     map (\<lambda>key. the (map_of (ld_linkMap d) key)) (go_range (le_ord env t) (map fst (ld_linkMap d)))"

text \<open>\<open>removeLinkDest\<close> looks the links up by link id in the map by link key.\<close>

definition remove_state :: "state_ref \<Rightarrow> linkRegistry \<Rightarrow> linkRegistry" where
  "remove_state k s =
     (let s1 = set_state k (updateStatus StatusDestRemoved) s
      in case GetLink s1 (st_linkId (state_objs s1 k)) of
           Some l \<Rightarrow> reg_emit (CloseLink l) s1
         | None \<Rightarrow> s1)"

definition handle_removeLinkDest :: "reg_env \<Rightarrow> string \<Rightarrow> linkRegistry \<Rightarrow> linkRegistry" where
  "handle_removeLinkDest env i s =
     (let s1 = tick (s\<lparr>link_dests := AList.delete i (link_dests s)\<rparr>)
      in case map_of (link_dests s) i of
           None \<Rightarrow> s1
         | Some d \<Rightarrow> fold remove_state (dest_states env (reg_ticks s) (dest_objs s d)) s1)"

definition newLinkDest :: "string \<Rightarrow> linkDest" where
  "newLinkDest destId = \<lparr>ld_id = destId, ld_version = '''', ld_healthy = True, ld_unhealthyAt = zero_time, ld_linkMap = []\<rparr>"

definition dest_update :: "string \<Rightarrow> bool \<Rightarrow> int \<Rightarrow> linkDest \<Rightarrow> linkDest" where
  "dest_update version healthy now d =
     (let d1 = (if ld_healthy d \<and> \<not> healthy then d\<lparr>ld_unhealthyAt := now\<rparr> else d);
          d2 = d1\<lparr>ld_healthy := healthy\<rparr>
      in if healthy then d2\<lparr>ld_version := version\<rparr> else d2)"

definition GetLinkKey :: "reg_env \<Rightarrow> string \<Rightarrow> string \<Rightarrow> string \<Rightarrow> string \<Rightarrow> string" where
  "GetLinkKey env dialerBinding protocol dest listenerBinding =
     (let dialerBinding = (if dialerBinding = '''' \<or> le_legacyCtrl env then ''default'' else dialerBinding);
          listenerBinding = (if listenerBinding = '''' \<or> le_legacyCtrl env then ''default'' else listenerBinding)
      in dialerBinding @ ''->'' @ protocol @ '':'' @ dest @ ''->'' @ listenerBinding)"

definition new_link_state :: "string \<Rightarrow> string \<Rightarrow> dest_ref \<Rightarrow> Listener \<Rightarrow> Dialer \<Rightarrow> linkState" where
  "new_link_state linkKey linkId d listener dialer =
     \<lparr>st_linkKey = linkKey, st_linkId = linkId, st_status = StatusPending, st_dialAttempts = 0, st_connectedCount = 0,
      st_retryDelay = 0, st_nextDial = zero_time, st_dest = d, st_listener = listener, st_dialer = dialer,
      st_allowedDials = -1, st_ctrlsNotified = False, st_linkFaults = [], st_dialActive = False, st_link = None\<rparr>"

definition add_link_state :: "reg_env \<Rightarrow> dest_ref \<Rightarrow> string \<Rightarrow> Listener \<Rightarrow> Dialer \<Rightarrow> linkRegistry \<Rightarrow> linkRegistry" where
  "add_link_state env d linkKey listener dialer s =
     (let k = next_state s;
          s1 = tick (s\<lparr>state_objs := (state_objs s)(k := new_link_state linkKey (le_uuid env (reg_ticks s)) d listener dialer),
                       next_state := k + 1\<rparr>);
          s2 = set_dest d (\<lambda>x. x\<lparr>ld_linkMap := AList.update linkKey k (ld_linkMap x)\<rparr>) s1
      in evaluateLinkState env k s2)"

definition refresh_link_state :: "reg_env \<Rightarrow> state_ref \<Rightarrow> Listener \<Rightarrow> bool \<Rightarrow> linkRegistry \<Rightarrow> linkRegistry" where
  "refresh_link_state env k listener becameHealthy s =
     (let st = state_objs s k;
          s1 = (if ls_address (st_listener st) \<noteq> ls_address listener then
                  (case st_link st of Some l \<Rightarrow> reg_emit (CloseLink l) s | None \<Rightarrow> s)
                else s);
          s2 = set_state k (\<lambda>st. st\<lparr>st_listener := listener\<rparr>) s1
      in if becameHealthy \<and> st_status (state_objs s2 k) \<noteq> StatusEstablished
         then evaluateLinkState env k
                (tick (set_state k (\<lambda>st. st\<lparr>st_retryDelay := 0, st_nextDial := le_clock env (reg_ticks s2)\<rparr>) s2))
         else s2)"

definition apply_listener ::
  "reg_env \<Rightarrow> dest_ref \<Rightarrow> string \<Rightarrow> bool \<Rightarrow> Listener \<times> Dialer \<Rightarrow> string list \<times> linkRegistry \<Rightarrow> string list \<times> linkRegistry" where
  "apply_listener env d routerId becameHealthy = (\<lambda>(listener, dialer) (currentLinkKeys, s).
     if le_containsAny env (ls_groups listener) (dr_groups dialer) then
       (let linkKey = GetLinkKey env (dr_binding dialer) (ls_protocol listener) routerId (ls_localBinding listener);
            keys = removeAll linkKey currentLinkKeys
        in case map_of (ld_linkMap (dest_objs s d)) linkKey of
             None \<Rightarrow> (keys, add_link_state env d linkKey listener dialer s)
           | Some k \<Rightarrow> (keys, refresh_link_state env k listener becameHealthy s))
     else (currentLinkKeys, s))"

definition remove_orphan :: "dest_ref \<Rightarrow> string \<Rightarrow> linkRegistry \<Rightarrow> linkRegistry" where
  "remove_orphan d linkKey s =
     (case map_of (ld_linkMap (dest_objs s d)) linkKey of
        Some k \<Rightarrow>
          (let s1 = set_dest d (\<lambda>x. x\<lparr>ld_linkMap := AList.delete linkKey (ld_linkMap x)\<rparr>) s
           in case st_link (state_objs s1 k) of Some l \<Rightarrow> reg_emit (CloseLink l) s1 | None \<Rightarrow> s1)
      | None \<Rightarrow> s)"

definition ApplyListenerChanges ::
  "reg_env \<Rightarrow> dest_ref \<Rightarrow> string \<Rightarrow> bool \<Rightarrow> Listener list \<Rightarrow> linkRegistry \<Rightarrow> linkRegistry" where
  "ApplyListenerChanges env d routerId becameHealthy listeners s =
     (let (orphans, s1) =
            fold (apply_listener env d routerId becameHealthy)
              (concat (map (\<lambda>listener. map (Pair listener) (le_dialers env)) listeners))
              (map fst (ld_linkMap (dest_objs s d)), s)
      in fold (remove_orphan d) (go_range (le_ord env (reg_ticks s1)) orphans) (tick s1))"

definition handle_linkDestUpdate ::
  "reg_env \<Rightarrow> string \<Rightarrow> string \<Rightarrow> bool \<Rightarrow> Listener list \<Rightarrow> linkRegistry \<Rightarrow> linkRegistry" where
  "handle_linkDestUpdate env i version healthy listeners s =
     (let (d, becameHealthy, s1) =
            (case map_of (link_dests s) i of
               None \<Rightarrow>
                 (next_dest s, False,
                  s\<lparr>dest_objs := (dest_objs s)(next_dest s := newLinkDest i), next_dest := next_dest s + 1,
                    link_dests := AList.update i (next_dest s) (link_dests s)\<rparr>)
             | Some d \<Rightarrow> (d, \<not> ld_healthy (dest_objs s d) \<and> healthy, s));
          s2 = tick (set_dest d (dest_update version healthy (le_clock env (reg_ticks s1))) s1)
      in if healthy then ApplyListenerChanges env d i becameHealthy listeners s2 else s2)"

text \<open>The state a link belongs to: that of its key at its destination.\<close>

definition state_of_link :: "linkRegistry \<Rightarrow> xlink_ref \<Rightarrow> state_ref option" where
  "state_of_link s l =
     (case map_of (link_dests s) (x_dest (xlinks s l)) of
        None \<Rightarrow> None
      | Some d \<Rightarrow> map_of (ld_linkMap (dest_objs s d)) (x_key (xlinks s l)))"

definition triggerNotify :: "linkRegistry \<Rightarrow> linkRegistry" where
  "triggerNotify s = s\<lparr>triggerNotifyC := True\<rparr>"

definition mark_established :: "xlink_ref \<Rightarrow> state_ref \<Rightarrow> linkRegistry \<Rightarrow> linkRegistry" where
  "mark_established l k s =
     triggerNotify (set_state k (\<lambda>st. st\<lparr>st_connectedCount := st_connectedCount st + 1, st_retryDelay := 0,
                                          st_ctrlsNotified := False, st_link := Some l\<rparr>) s)"

definition mark_failed :: "reg_env \<Rightarrow> xlink_ref \<Rightarrow> state_ref \<Rightarrow> linkRegistry \<Rightarrow> linkRegistry" where
  "mark_failed env l k s =
     (let s1 = tick (set_state k (\<lambda>st. st\<lparr>st_retryDelay := 0, st_nextDial := le_clock env (reg_ticks s)\<rparr>) s);
          s2 = evaluateLinkState env k s1
      in set_state k (\<lambda>st. (addPendingLinkFault (x_id (xlinks s l)) (x_iteration (xlinks s l)) st)\<lparr>st_link := None\<rparr>) s2)"

definition handle_updateLinkStatusForLink :: "reg_env \<Rightarrow> xlink_ref \<Rightarrow> linkStatus \<Rightarrow> linkRegistry \<Rightarrow> linkRegistry" where
  "handle_updateLinkStatusForLink env l status s =
     (case state_of_link s l of
        None \<Rightarrow> s
      | Some k \<Rightarrow>
          if st_status (state_objs s k) = StatusDestRemoved then s
          else
            (let s1 = set_state k (updateStatus status) s;
                 s2 = (if st_status (state_objs s1 k) = StatusEstablished then mark_established l k s1 else s1)
             in if st_status (state_objs s2 k) = StatusLinkFailed then mark_failed env l k s2 else s2))"

definition handle_addLinkFaultForReplacedLink :: "xlink_ref \<Rightarrow> linkRegistry \<Rightarrow> linkRegistry" where
  "handle_addLinkFaultForReplacedLink l s =
     (case state_of_link s l of
        None \<Rightarrow> s
      | Some k \<Rightarrow> set_state k (addPendingLinkFault (x_id (xlinks s l)) (x_iteration (xlinks s l))) s)"

definition handle_dialFailed :: "reg_env \<Rightarrow> state_ref \<Rightarrow> bool \<Rightarrow> linkRegistry \<Rightarrow> linkRegistry" where
  "handle_dialFailed env k applyFailed s =
     (if st_status (state_objs s k) = StatusDialing
      then state_dialFailed env applyFailed k (set_state k (updateStatus StatusDialFailed) s)
      else s)"

definition handle_markNewLinksNotified :: "(state_ref \<times> xlink_ref) list \<Rightarrow> linkRegistry \<Rightarrow> linkRegistry" where
  "handle_markNewLinksNotified pairs s =
     fold (\<lambda>(k, l) s.
       if st_status (state_objs s k) = StatusEstablished \<and> st_link (state_objs s k) = Some l
       then set_state k (\<lambda>st. st\<lparr>st_ctrlsNotified := True\<rparr>) s else s) pairs s"

definition handle_markFaultedLinksNotified :: "(state_ref \<times> linkFault list) list \<Rightarrow> linkRegistry \<Rightarrow> linkRegistry" where
  "handle_markFaultedLinksNotified pairs s =
     fold (\<lambda>(k, faults) s. fold (\<lambda>f s. set_state k (clearFault f) s) faults s) pairs s"

fun handle_event :: "reg_env \<Rightarrow> event \<Rightarrow> linkRegistry \<Rightarrow> linkRegistry" where
  "handle_event env (RemoveLinkDest i) = handle_removeLinkDest env i"
| "handle_event env (LinkDestUpdate i v h ls) = handle_linkDestUpdate env i v h ls"
| "handle_event env (UpdateLinkStatusForLink l st) = handle_updateLinkStatusForLink env l st"
| "handle_event env (AddLinkFaultForReplacedLink l) = handle_addLinkFaultForReplacedLink l"
| "handle_event env (UpdateLinkStatusToDialFailed k a) = handle_dialFailed env k a"
| "handle_event env (MarkNewLinksNotified ps) = handle_markNewLinksNotified ps"
| "handle_event env (MarkFaultedLinksNotified ps) = handle_markFaultedLinksNotified ps"

section \<open>The periodic scans\<close>

partial_function (option) evaluate_queue :: "reg_env \<Rightarrow> int \<Rightarrow> linkRegistry \<Rightarrow> linkRegistry option" where
  "evaluate_queue env now s =
     (if linkStateQueue s = [] then Some s
      else if now < dial_key s (linkStateQueue s ! 0) then Some s
      else
        (let (k, q) = heap_Pop (dial_key s) (linkStateQueue s)
         in evaluate_queue env now (evaluateLinkState env k (s\<lparr>linkStateQueue := q\<rparr>))))"

definition evaluateLinkStateQueue :: "reg_env \<Rightarrow> linkRegistry \<Rightarrow> linkRegistry option" where
  "evaluateLinkStateQueue env s = evaluate_queue env (le_clock env (reg_ticks s)) (tick s)"

text \<open>A state marked established whose link is gone may be dialed again.\<close>

definition verify_state :: "reg_env \<Rightarrow> state_ref \<Rightarrow> bool \<times> linkRegistry \<Rightarrow> bool \<times> linkRegistry" where
  "verify_state env k = (\<lambda>(hasEstablishedLinks, s).
     let st = state_objs s k;
         (has, s1) =
           (if st_status st = StatusEstablished then
              (case GetLink s (st_linkKey st) of
                 Some l \<Rightarrow>
                   if x_closed (xlinks s l) then
                     (hasEstablishedLinks, tick (set_state k (\<lambda>st. updateStatus StatusLinkFailed
                        (st\<lparr>st_retryDelay := 0, st_nextDial := le_clock env (reg_ticks s)\<rparr>)) s))
                   else (True, s)
               | None \<Rightarrow>
                   (hasEstablishedLinks, tick (set_state k (\<lambda>st. updateStatus StatusLinkFailed
                      (st\<lparr>st_retryDelay := 0, st_nextDial := le_clock env (reg_ticks s)\<rparr>)) s)))
            else (hasEstablishedLinks, s))
     in (has, evaluateLinkState env k s1))"

definition hour :: int where "hour = 3600 * go_second"

definition evaluate_dest :: "reg_env \<Rightarrow> string \<Rightarrow> linkRegistry \<Rightarrow> linkRegistry" where
  "evaluate_dest env destId s =
     (case map_of (link_dests s) destId of
        None \<Rightarrow> s
      | Some d \<Rightarrow>
          (let (hasEstablishedLinks, s1) =
                 fold (verify_state env) (dest_states env (reg_ticks s) (dest_objs s d)) (False, tick s);
               dest = dest_objs s1 d; s2 = tick s1
           in if ld_linkMap dest = [] \<or>
                 (\<not> ld_healthy dest \<and> \<not> hasEstablishedLinks \<and>
                  le_clock env (reg_ticks s1) - ld_unhealthyAt dest > 48 * hour)
              then s2\<lparr>link_dests := AList.delete destId (link_dests s2)\<rparr> else s2))"

definition evaluateDestinations :: "reg_env \<Rightarrow> linkRegistry \<Rightarrow> linkRegistry" where
  "evaluateDestinations env s =
     fold (evaluate_dest env) (go_range (le_ord env (reg_ticks s)) (map fst (link_dests s))) (tick s)"

section \<open>Telling the controllers\<close>

definition notify_state ::
  "reg_env \<Rightarrow> state_ref \<Rightarrow> (state_ref \<times> xlink_ref) list \<times> (state_ref \<times> linkFault list) list \<times> linkRegistry \<Rightarrow>
   (state_ref \<times> xlink_ref) list \<times> (state_ref \<times> linkFault list) list \<times> linkRegistry" where
  "notify_state env k = (\<lambda>(ls, faults, s).
     let st = state_objs s k;
         (ls1, s1) =
           (if \<not> st_ctrlsNotified st \<and> st_status st = StatusEstablished then
              (case GetLink s (st_linkKey st) of
                 None \<Rightarrow> (ls, state_dialFailed env False k (set_state k (updateStatus StatusDialFailed) s))
               | Some l \<Rightarrow>
                   (if x_dialed (xlinks s l) then ls @ [(k, l)] else ls,
                    set_state k (clearFaultsForLinkId (x_id (xlinks s l))) s))
            else (ls, s));
         pending = st_linkFaults (state_objs s1 k)
     in (ls1, if pending \<noteq> [] then faults @ [(k, pending)] else faults, s1))"

definition notify_dest ::
  "reg_env \<Rightarrow> string \<Rightarrow> (state_ref \<times> xlink_ref) list \<times> (state_ref \<times> linkFault list) list \<times> linkRegistry \<Rightarrow>
   (state_ref \<times> xlink_ref) list \<times> (state_ref \<times> linkFault list) list \<times> linkRegistry" where
  "notify_dest env destId = (\<lambda>(ls, faults, s).
     case map_of (link_dests s) destId of
       None \<Rightarrow> (ls, faults, s)
     | Some d \<Rightarrow> fold (notify_state env) (dest_states env (reg_ticks s) (dest_objs s d)) (ls, faults, tick s))"

definition notifyControllersOfLinks :: "reg_env \<Rightarrow> linkRegistry \<Rightarrow> linkRegistry" where
  "notifyControllersOfLinks env s =
     (if notifyInProgress s then s
      else
        (let (ls, faults, s1) =
               fold (notify_dest env) (go_range (le_ord env (reg_ticks s)) (map fst (link_dests s))) ([], [], tick s);
             s2 = tick s1
         in if ls = [] \<and> faults = [] then s2
            else if le_pool env (reg_ticks s1)
            then s2\<lparr>notifyInProgress := True, reg_jobs := reg_jobs s2 @ [NotifyJob ls faults]\<rparr>
            else s2\<lparr>notifyInProgress := False\<rparr>))"

text \<open>A controller as the sender sees it: connected, whether a message gets on the wire, last contact.\<close>

record ctrl_view =
  cv_id :: string
  cv_connected :: bool
  cv_sent :: bool
  cv_sinceContact :: int

definition sendNewLinks ::
  "ctrl_view list \<Rightarrow> (state_ref \<times> xlink_ref) list \<Rightarrow> (state_ref \<times> linkFault list) list \<Rightarrow> reg_job list" where
  "sendNewLinks ctrls ls faults =
     (let allSent = (\<forall>c \<in> set ctrls. cv_connected c \<longrightarrow> cv_sent c)
      in if allSent then [SendJob (MarkNewLinksNotified ls) (NotifyRest faults)] else after_call (NotifyRest faults))"

definition fault_sent :: "ctrl_view list \<Rightarrow> bool" where
  "fault_sent ctrls =
     (\<forall>c \<in> set ctrls. if cv_connected c then cv_sent c else \<not> cv_sinceContact c < 120 * go_second)"

definition sendLinkFaults ::
  "(linkFault \<Rightarrow> ctrl_view list) \<Rightarrow> (state_ref \<times> linkFault list) list \<Rightarrow> reg_job list" where
  "sendLinkFaults ctrls items =
     (let successfullySent =
            filter (\<lambda>(k, sent). sent \<noteq> []) (map (\<lambda>(k, faults). (k, filter (\<lambda>f. fault_sent (ctrls f)) faults)) items)
      in if successfullySent \<noteq> [] then [SendJob (MarkFaultedLinksNotified successfullySent) (NotifyRest [])]
         else after_call (NotifyRest []))"

text \<open>The notification runs to its next call of \<open>queueEvent\<close>: the new links, the faults, then its end.\<close>

definition run_notify ::
  "ctrl_view list \<Rightarrow> (linkFault \<Rightarrow> ctrl_view list) \<Rightarrow> (state_ref \<times> xlink_ref) list \<Rightarrow> (state_ref \<times> linkFault list) list \<Rightarrow>
   linkRegistry \<Rightarrow> linkRegistry" where
  "run_notify ctrls fctrls ls faults s =
     (if ls \<noteq> [] then swap_job (NotifyJob ls faults) (sendNewLinks ctrls ls faults) s
      else if faults \<noteq> [] then swap_job (NotifyJob ls faults) (sendLinkFaults fctrls faults) s
      else swap_job (NotifyJob ls faults) [] (s\<lparr>notifyInProgress := False\<rparr>))"

section \<open>Dialing\<close>

text \<open>\<open>dialFailed\<close> of the registry: the event it queues does not carry the flag.\<close>

definition registry_dialFailed :: "state_ref \<Rightarrow> bool \<Rightarrow> job_next \<Rightarrow> reg_job list" where
  "registry_dialFailed k applyFailed next = [SendJob (UpdateLinkStatusToDialFailed k False) next]"

definition alloc_xlink :: "Xlink \<Rightarrow> linkRegistry \<Rightarrow> xlink_ref \<times> linkRegistry" where
  "alloc_xlink x s = (next_xlink s, s\<lparr>xlinks := (xlinks s)(next_xlink s := x), next_xlink := next_xlink s + 1\<rparr>)"

definition end_dial :: "state_ref \<Rightarrow> linkRegistry \<Rightarrow> linkRegistry" where
  "end_dial k s = set_state k (\<lambda>st. st\<lparr>st_dialActive := False\<rparr>) (swap_job (DialDoneJob k) [] s)"

definition dial_begin :: "state_ref \<Rightarrow> linkRegistry \<Rightarrow> linkRegistry" where
  "dial_begin k s =
     (case GetLink s (st_linkKey (state_objs s k)) of
        Some l \<Rightarrow> swap_job (DialJob k) [SendJob (UpdateLinkStatusForLink l StatusEstablished) (ClearDial k)] s
      | None \<Rightarrow> swap_job (DialJob k) [DialingJob k] s)"

definition dial_end :: "reg_env \<Rightarrow> state_ref \<Rightarrow> Xlink option \<Rightarrow> linkRegistry \<Rightarrow> linkRegistry" where
  "dial_end env k res s =
     (case res of
        None \<Rightarrow> swap_job (DialingJob k) (registry_dialFailed k False (ClearDial k)) s
      | Some x \<Rightarrow>
          (let (l, s1) = alloc_xlink x s; ((existing, success), js, s2) = applyLink env l (ClearDial k) s1
           in swap_job (DialingJob k)
                (if \<not> success \<and> existing = None then registry_dialFailed k True (ClearDial k) else js) s2))"

definition LinkAccepted :: "reg_env \<Rightarrow> Xlink \<Rightarrow> linkRegistry \<Rightarrow> linkRegistry" where
  "LinkAccepted env x s =
     (let (l, s1) = alloc_xlink x s; (answer, js, s2) = applyLink env l Return s1 in add_jobs js s2)"

definition close_xlink :: "xlink_ref \<Rightarrow> linkRegistry \<Rightarrow> linkRegistry" where
  "close_xlink l s = s\<lparr>xlinks := (xlinks s)(l := (xlinks s l)\<lparr>x_closed := True\<rparr>)\<rparr>"

section \<open>The registry's loop and its surroundings\<close>

inductive reg_step :: "reg_env \<Rightarrow> linkRegistry \<Rightarrow> linkRegistry \<Rightarrow> bool" for env where
  update_dest: "length (reg_events s) < event_capacity \<Longrightarrow> reg_step env s (queueEvent (LinkDestUpdate i v h ls) s)"
| remove_dest: "length (reg_events s) < event_capacity \<Longrightarrow> reg_step env s (queueEvent (RemoveLinkDest i) s)"
| send: "SendJob e next \<in> set (reg_jobs s) \<Longrightarrow> length (reg_events s) < event_capacity \<Longrightarrow> reg_step env s (send_event e next s)"
| register: "RegisterJob l next \<in> set (reg_jobs s) \<Longrightarrow> reg_step env s (register_link l next s)"
| accept_link: "reg_step env s (LinkAccepted env x s)"
| link_closes: "l < next_xlink s \<Longrightarrow> reg_step env s (close_xlink l s)"
| link_closed: "l < next_xlink s \<Longrightarrow> x_closed (xlinks s l) \<Longrightarrow> reg_step env s (LinkClosed l s)"
| forget_link: "reg_step env s (snd (DebugForgetLink i s))"
| handle: "reg_events s = e # es \<Longrightarrow> reg_step env s (handle_event env e (s\<lparr>reg_events := es\<rparr>))"
| notify: "triggerNotifyC s \<Longrightarrow> reg_step env s (notifyControllersOfLinks env (s\<lparr>triggerNotifyC := False\<rparr>))"
| queue_check: "evaluateLinkStateQueue env s = Some t \<Longrightarrow> reg_step env s (notifyControllersOfLinks env t)"
| full_scan: "reg_step env s (evaluateDestinations env s)"
| dial_begins: "DialJob k \<in> set (reg_jobs s) \<Longrightarrow> reg_step env s (dial_begin k s)"
| dial_ends: "DialingJob k \<in> set (reg_jobs s) \<Longrightarrow> reg_step env s (dial_end env k res s)"
| dial_done: "DialDoneJob k \<in> set (reg_jobs s) \<Longrightarrow> reg_step env s (end_dial k s)"
| notified: "NotifyJob ls faults \<in> set (reg_jobs s) \<Longrightarrow> reg_step env s (run_notify ctrls fctrls ls faults s)"

definition no_backoff :: BackoffConfig where
  "no_backoff = \<lparr>bo_minRetryInterval = 0, bo_maxRetryInterval = 0, bo_retryBackoffFactor = Finite 0\<rparr>"

definition NewLinkRegistry :: linkRegistry where
  "NewLinkRegistry = \<lparr>linkMap = [], linkByIdMap = Map.empty, xlinks = (\<lambda>_. \<lparr>x_key = '''', x_id = '''', x_dest = '''',
     x_protocol = '''', x_dialAddress = '''', x_iteration = 0, x_dialed = False, x_closed = False, x_duplicatesRejected = 0\<rparr>),
     next_xlink = 0, link_dests = [], dest_objs = (\<lambda>_. newLinkDest ''''), next_dest = 0,
     state_objs = (\<lambda>_. new_link_state '''' '''' 0 \<lparr>ls_address = '''', ls_protocol = '''', ls_localBinding = '''', ls_groups = []\<rparr>
       \<lparr>dr_binding = '''', dr_groups = [], dr_healthyBackoff = no_backoff,
        dr_unhealthyBackoff = no_backoff\<rparr>),
     next_state = 0, linkStateQueue = [], reg_events = [], triggerNotifyC = False, notifyInProgress = False, reg_jobs = [],
     reg_effects = [], reg_ticks = 0\<rparr>"

inductive reg_reachable :: "reg_env \<Rightarrow> linkRegistry \<Rightarrow> bool" for env where
  reg_new: "reg_reachable env NewLinkRegistry"
| reg_next: "reg_reachable env s \<Longrightarrow> reg_step env s t \<Longrightarrow> reg_reachable env t"

end
