(* ===== verification/Registry_Invariant.thy ===== *)
theory Registry_Invariant
  imports Link_Registry
begin

text \<open>
  The invariant of the link registry, kept by every event, tick, dial and notification in any
  order.
\<close>

section \<open>The invariant\<close>

definition st_ok :: "linkRegistry \<Rightarrow> state_ref \<Rightarrow> bool" where
  "st_ok s k \<longleftrightarrow> (st_link (state_objs s k) = None \<longleftrightarrow> st_status (state_objs s k) \<noteq> StatusEstablished) \<and>
     distinct (map lf_linkId (st_linkFaults (state_objs s k))) \<and>
     (\<forall>l. st_link (state_objs s k) = Some l \<longrightarrow> l < next_xlink s \<and> x_key (xlinks s l) = st_linkKey (state_objs s k))"

text \<open>The states whose dial a goroutine carries on, and the event it will queue.\<close>

fun next_states :: "job_next \<Rightarrow> state_ref list" where
  "next_states (ClearDial k) = [k]"
| "next_states _ = []"

fun job_states :: "reg_job \<Rightarrow> state_ref list" where
  "job_states (DialJob k) = [k]"
| "job_states (DialingJob k) = [k]"
| "job_states (NotifyJob ls fs) = []"
| "job_states (RegisterJob l next) = next_states next"
| "job_states (SendJob e next) = next_states next"
| "job_states (DialDoneJob k) = [k]"

fun job_events :: "reg_job \<Rightarrow> event list" where
  "job_events (RegisterJob l next) = [UpdateLinkStatusForLink l StatusEstablished]"
| "job_events (SendJob e next) = [e]"
| "job_events _ = []"

definition pending_events :: "linkRegistry \<Rightarrow> event list" where
  "pending_events s = reg_events s @ concat (map job_events (reg_jobs s))"

definition dialing :: "linkRegistry \<Rightarrow> state_ref list" where
  "dialing s = concat (map job_states (reg_jobs s))"

definition dial_ok :: "linkRegistry \<Rightarrow> bool" where
  "dial_ok s \<longleftrightarrow> distinct (dialing s) \<and> (\<forall>k. st_dialActive (state_objs s k) \<longleftrightarrow> k \<in> set (dialing s)) \<and>
     (\<forall>k \<in> set (dialing s). k < next_state s) \<and> (\<forall>k \<in> set (linkStateQueue s). k < next_state s)"

definition dest_ok :: "linkRegistry \<Rightarrow> bool" where
  "dest_ok s \<longleftrightarrow> (\<forall>i d. map_of (link_dests s) i = Some d \<longrightarrow> d < next_dest s \<and> ld_id (dest_objs s d) = i) \<and>
     (\<forall>d key k. map_of (ld_linkMap (dest_objs s d)) key = Some k \<longrightarrow>
        k < next_state s \<and> st_linkKey (state_objs s k) = key \<and> st_dest (state_objs s k) = d)"

definition maps_ok :: "linkRegistry \<Rightarrow> bool" where
  "maps_ok s \<longleftrightarrow> (\<forall>key l. map_of (linkMap s) key = Some l \<longrightarrow> l < next_xlink s \<and> x_key (xlinks s l) = key) \<and>
     (\<forall>i l. linkByIdMap s i = Some l \<longrightarrow> l < next_xlink s \<and> x_id (xlinks s l) = i)"

fun event_ok :: "linkRegistry \<Rightarrow> event \<Rightarrow> bool" where
  "event_ok s (UpdateLinkStatusForLink l st) = (l < next_xlink s)"
| "event_ok s (AddLinkFaultForReplacedLink l) = (l < next_xlink s)"
| "event_ok s (UpdateLinkStatusToDialFailed k a) = (k < next_state s)"
| "event_ok s e = True"

definition reg_inv :: "linkRegistry \<Rightarrow> bool" where
  "reg_inv s \<longleftrightarrow> (\<forall>k. st_ok s k) \<and> dial_ok s \<and> dest_ok s \<and> maps_ok s \<and> (\<forall>e \<in> set (pending_events s). event_ok s e)"

lemmas reg_inv_defs = reg_inv_def st_ok_def dial_ok_def dest_ok_def maps_ok_def
lemmas job_views = dialing_def pending_events_def

section \<open>Primitive updates\<close>

lemma set_state_simps [simp]:
  "state_objs (set_state k f s) = (state_objs s)(k := f (state_objs s k))" "linkMap (set_state k f s) = linkMap s"
  "linkByIdMap (set_state k f s) = linkByIdMap s" "xlinks (set_state k f s) = xlinks s"
  "next_xlink (set_state k f s) = next_xlink s" "link_dests (set_state k f s) = link_dests s"
  "dest_objs (set_state k f s) = dest_objs s" "next_dest (set_state k f s) = next_dest s"
  "next_state (set_state k f s) = next_state s" "linkStateQueue (set_state k f s) = linkStateQueue s"
  "reg_events (set_state k f s) = reg_events s" "reg_jobs (set_state k f s) = reg_jobs s"
  "reg_ticks (set_state k f s) = reg_ticks s" "notifyInProgress (set_state k f s) = notifyInProgress s"
  by (simp_all add: set_state_def)

lemma tick_simps [simp]:
  "state_objs (tick s) = state_objs s" "linkMap (tick s) = linkMap s" "linkByIdMap (tick s) = linkByIdMap s"
  "xlinks (tick s) = xlinks s" "next_xlink (tick s) = next_xlink s" "link_dests (tick s) = link_dests s"
  "dest_objs (tick s) = dest_objs s" "next_dest (tick s) = next_dest s" "next_state (tick s) = next_state s"
  "linkStateQueue (tick s) = linkStateQueue s" "reg_events (tick s) = reg_events s" "reg_jobs (tick s) = reg_jobs s"
  by (simp_all add: tick_def)

lemma set_dest_simps [simp]:
  "state_objs (set_dest d f s) = state_objs s" "linkMap (set_dest d f s) = linkMap s"
  "linkByIdMap (set_dest d f s) = linkByIdMap s" "xlinks (set_dest d f s) = xlinks s"
  "next_xlink (set_dest d f s) = next_xlink s" "link_dests (set_dest d f s) = link_dests s"
  "dest_objs (set_dest d f s) = (dest_objs s)(d := f (dest_objs s d))" "next_dest (set_dest d f s) = next_dest s"
  "next_state (set_dest d f s) = next_state s" "linkStateQueue (set_dest d f s) = linkStateQueue s"
  "reg_events (set_dest d f s) = reg_events s" "reg_jobs (set_dest d f s) = reg_jobs s"
  by (simp_all add: set_dest_def)

text \<open>The views the invariant depends on; an operation that keeps them keeps it.\<close>

definition same_core :: "linkRegistry \<Rightarrow> linkRegistry \<Rightarrow> bool" where
  "same_core s t \<longleftrightarrow> state_objs t = state_objs s \<and> linkMap t = linkMap s \<and> linkByIdMap t = linkByIdMap s \<and> xlinks t = xlinks s \<and>
     next_xlink t = next_xlink s \<and> link_dests t = link_dests s \<and> dest_objs t = dest_objs s \<and> next_dest t = next_dest s \<and>
     next_state t = next_state s \<and> linkStateQueue t = linkStateQueue s \<and> pending_events t = pending_events s \<and> dialing t = dialing s"

lemma event_ok_mono: "event_ok s e \<Longrightarrow> next_xlink s \<le> next_xlink t \<Longrightarrow> next_state s \<le> next_state t \<Longrightarrow> event_ok t e"
  by (cases e) auto

lemma reg_inv_core: "reg_inv s \<Longrightarrow> same_core s t \<Longrightarrow> reg_inv t"
  using event_ok_mono [of s _ t] unfolding reg_inv_defs same_core_def by simp

lemma reg_inv_tick [simp]: "reg_inv (tick s) = reg_inv s"
proof -
  have "same_core s (tick s)" "same_core (tick s) s" by (simp_all add: same_core_def job_views)
  then show ?thesis using reg_inv_core by blast
qed

lemma reg_inv_emit [simp]: "reg_inv (reg_emit e s) = reg_inv s"
proof -
  have "same_core s (reg_emit e s)" "same_core (reg_emit e s) s" by (simp_all add: same_core_def reg_emit_def job_views)
  then show ?thesis using reg_inv_core by blast
qed

lemma reg_inv_event [simp]: "reg_inv (queueEvent e s) \<longleftrightarrow> reg_inv s \<and> event_ok s e"
proof -
  have "event_ok (queueEvent e s) e' = event_ok s e'" for e' by (cases e') (simp_all add: queueEvent_def)
  then show ?thesis unfolding reg_inv_defs by (auto simp: queueEvent_def job_views)
qed

text \<open>A change of one link state that keeps its identity and its dial flag.\<close>

definition benign :: "(linkState \<Rightarrow> linkState) \<Rightarrow> linkState \<Rightarrow> bool" where
  "benign f st \<longleftrightarrow> st_linkKey (f st) = st_linkKey st \<and> st_dest (f st) = st_dest st \<and> st_dialActive (f st) = st_dialActive st"

lemma reg_inv_state:
  assumes "reg_inv s" "benign f (state_objs s k)" "st_ok (set_state k f s) k"
  shows "reg_inv (set_state k f s)"
proof -
  let ?t = "set_state k f s"
  have "event_ok ?t e = event_ok s e" for e by (cases e) simp_all
  moreover have "st_ok ?t j" for j using assms(1,3) by (cases "j = k") (simp_all add: reg_inv_def st_ok_def)
  moreover have "dialing ?t = dialing s" "pending_events ?t = pending_events s" by (simp_all add: job_views)
  ultimately show ?thesis using assms(1,2)
    by (simp add: reg_inv_def dial_ok_def dest_ok_def maps_ok_def benign_def)
qed

lemma st_ok_state:
  "st_ok (set_state k f s) k \<longleftrightarrow> (st_link (f (state_objs s k)) = None \<longleftrightarrow> st_status (f (state_objs s k)) \<noteq> StatusEstablished) \<and>
     distinct (map lf_linkId (st_linkFaults (f (state_objs s k)))) \<and>
     (\<forall>l. st_link (f (state_objs s k)) = Some l \<longrightarrow> l < next_xlink s \<and> x_key (xlinks s l) = st_linkKey (f (state_objs s k)))"
  by (simp add: st_ok_def)

lemma reg_inv_st_ok: "reg_inv s \<Longrightarrow> st_ok s k"
  by (simp add: reg_inv_def)

lemma updateStatus_fields [simp]:
  "st_linkKey (updateStatus v st) = st_linkKey st" "st_dest (updateStatus v st) = st_dest st"
  "st_dialActive (updateStatus v st) = st_dialActive st" "st_status (updateStatus v st) = v"
  "st_linkFaults (updateStatus v st) = st_linkFaults st" "st_nextDial (updateStatus v st) = st_nextDial st"
  "st_connectedCount (updateStatus v st) = st_connectedCount st"
  by (simp_all add: updateStatus_def Let_def)

lemma updateStatus_link:
  "v \<noteq> StatusEstablished \<Longrightarrow> st_link st = None \<longleftrightarrow> st_status st \<noteq> StatusEstablished \<Longrightarrow> st_link (updateStatus v st) = None"
  by (auto simp: updateStatus_def Let_def)

lemma reg_inv_status:
  assumes "reg_inv s" "v \<noteq> StatusEstablished"
  shows "reg_inv (set_state k (updateStatus v) s)"
  using reg_inv_st_ok [OF assms(1), of k] assms(2)
  by (intro reg_inv_state [OF assms(1)]) (auto simp: benign_def st_ok_state updateStatus_link st_ok_def)

lemma reg_inv_retry:
  assumes "reg_inv s"
  shows "reg_inv (set_state k (\<lambda>st. st\<lparr>st_retryDelay := a, st_nextDial := b\<rparr>) s)"
  using reg_inv_st_ok [OF assms, of k] by (intro reg_inv_state [OF assms]) (simp_all add: benign_def st_ok_state st_ok_def)

lemma add_fault_ids: "distinct (map lf_linkId fs) \<Longrightarrow> distinct (map lf_linkId (add_fault i n fs))"
proof (induction fs)
  case (Cons f fs)
  have "set (map lf_linkId (add_fault i n fs)) \<subseteq> insert i (set (map lf_linkId fs))"
    by (induction fs) auto
  with Cons show ?case by auto
qed simp

lemma heap_push_set: "set (heap_Push key k h) = insert k (set h)"
proof -
  have "mset (heap_Push key k h) = add_mset k (mset h)"
    unfolding heap_Push_def by (subst mset_heap_up) simp_all
  then have "set_mset (mset (heap_Push key k h)) = set_mset (add_mset k (mset h))" by (rule arg_cong)
  then show ?thesis by simp
qed

section \<open>Dial attempts\<close>

lemma if_keeps: "P a \<Longrightarrow> P b \<Longrightarrow> P (if c then a else b)"
  by simp

lemma set_state_comp: "set_state k g (set_state k f s) = set_state k (\<lambda>st. g (f st)) s"
  by (simp add: set_state_def)

lemma reg_inv_push:
  assumes "reg_inv s" "k < next_state s"
  shows "reg_inv (s\<lparr>linkStateQueue := heap_Push key k (linkStateQueue s)\<rparr>)"
proof -
  let ?t = "s\<lparr>linkStateQueue := heap_Push key k (linkStateQueue s)\<rparr>"
  have "event_ok ?t e = event_ok s e" for e by (cases e) simp_all
  moreover have "dialing ?t = dialing s" "pending_events ?t = pending_events s" by (simp_all add: job_views)
  ultimately show ?thesis using assms by (simp add: reg_inv_defs heap_push_set)
qed

lemma reg_inv_drop_state:
  assumes "reg_inv s"
  shows "reg_inv (set_dest d (\<lambda>x. x\<lparr>ld_linkMap := AList.delete key (ld_linkMap x)\<rparr>) s)"
proof -
  let ?t = "set_dest d (\<lambda>x. x\<lparr>ld_linkMap := AList.delete key (ld_linkMap x)\<rparr>) s"
  have "event_ok ?t e = event_ok s e" for e by (cases e) simp_all
  moreover have "dialing ?t = dialing s" "pending_events ?t = pending_events s" by (simp_all add: job_views)
  ultimately show ?thesis using assms by (auto simp: reg_inv_defs split: if_splits)
qed

lemma reg_inv_dialFailed:
  assumes "reg_inv s" "k < next_state s"
  shows "reg_inv (state_dialFailed env a k s)"
proof -
  let ?f = "\<lambda>st. if st_allowedDials st > 0 then st\<lparr>st_allowedDials := st_allowedDials st - 1\<rparr> else st"
  let ?s = "set_state k ?f s"
  have s1: "reg_inv ?s" using reg_inv_st_ok [OF assms(1), of k]
    by (intro reg_inv_state [OF assms(1)]) (simp_all add: benign_def st_ok_state st_ok_def)
  show ?thesis unfolding state_dialFailed_def Let_def
  proof (rule if_keeps [where P = reg_inv], rule reg_inv_drop_state [OF s1], rule reg_inv_push)
    show "reg_inv (tick (set_state k (\<lambda>st. st\<lparr>st_retryDelay := x, st_nextDial := y\<rparr>) ?s))" for x y
      using reg_inv_retry [OF s1] by simp
  qed (simp add: assms(2))
qed

lemma dialFailed_status: "st_status (state_objs (state_dialFailed env a k s) j) = st_status (state_objs s j)"
  by (simp add: state_dialFailed_def Let_def)

lemma reg_inv_claim:
  assumes "reg_inv s" "k < next_state s" "\<not> st_dialActive (state_objs s k)"
  shows "reg_inv ((set_state k (\<lambda>st. (updateStatus StatusDialing (st\<lparr>st_dialActive := True\<rparr>))\<lparr>st_dialAttempts := st_dialAttempts st + 1\<rparr>) s)
    \<lparr>reg_jobs := reg_jobs s @ [DialJob k]\<rparr>)" (is "reg_inv ?t")
proof -
  have "k \<notin> set (dialing s)" using assms(1,3) by (simp add: reg_inv_def dial_ok_def)
  moreover have "dialing ?t = dialing s @ [k]" "pending_events ?t = pending_events s" by (simp_all add: job_views)
  moreover have "event_ok ?t e = event_ok s e" for e by (cases e) simp_all
  moreover have "st_ok ?t j" for j
    using reg_inv_st_ok [OF assms(1), of j] by (cases "j = k") (auto simp: st_ok_def updateStatus_link)
  ultimately show ?thesis using assms(1,2)
    by (auto simp: reg_inv_def dial_ok_def dest_ok_def maps_ok_def)
qed

lemma reg_inv_evaluate:
  assumes "reg_inv s" "k < next_state s"
  shows "reg_inv (evaluateLinkState env k s)"
proof -
  let ?st = "state_objs s k"
  let ?f = "\<lambda>st. (updateStatus StatusDialing (st\<lparr>st_dialActive := True\<rparr>))\<lparr>st_dialAttempts := st_dialAttempts st + 1\<rparr>"
  let ?g = "\<lambda>st. updateStatus StatusQueueFailed (st\<lparr>st_dialActive := False\<rparr>)"
  show ?thesis
  proof (cases "st_status ?st \<noteq> StatusEstablished \<and> st_status ?st \<noteq> StatusDialing \<and> st_nextDial ?st < le_clock env (reg_ticks s) \<and>
      \<not> st_dialActive ?st")
    case False
    then have "evaluateLinkState env k s = tick s" by (auto simp: evaluateLinkState_def Let_def)
    with assms show ?thesis by simp
  next
    case True
    show ?thesis
    proof (cases "le_pool env (reg_ticks s)")
      case pool: True
      have "evaluateLinkState env k s = (set_state k ?f (tick s))\<lparr>reg_jobs := reg_jobs (tick s) @ [DialJob k]\<rparr>"
        using True pool by (simp add: evaluateLinkState_def Let_def)
      with reg_inv_claim [of "tick s" k] assms True show ?thesis by simp
    next
      case False
      let ?h = "\<lambda>st. ?g (?f st)"
      have "evaluateLinkState env k s = state_dialFailed env False k (set_state k ?h (tick s))"
        using True False by (simp add: evaluateLinkState_def Let_def set_state_comp del: set_state_simps(1))
      moreover have "reg_inv (set_state k ?h (tick s))"
        using assms(1) reg_inv_st_ok [OF assms(1), of k] True
        by (intro reg_inv_state) (auto simp: benign_def st_ok_state updateStatus_link st_ok_def)
      ultimately show ?thesis using assms(2) by (simp add: reg_inv_dialFailed)
    qed
  qed
qed

lemma dialFailed_frame [simp]:
  "next_state (state_dialFailed env a k s) = next_state s" "next_xlink (state_dialFailed env a k s) = next_xlink s"
  "xlinks (state_dialFailed env a k s) = xlinks s" "linkMap (state_dialFailed env a k s) = linkMap s"
  "link_dests (state_dialFailed env a k s) = link_dests s" "next_dest (state_dialFailed env a k s) = next_dest s"
  "reg_events (state_dialFailed env a k s) = reg_events s" "reg_jobs (state_dialFailed env a k s) = reg_jobs s"
  by (simp_all add: state_dialFailed_def Let_def)

lemma evaluate_frame [simp]:
  "next_state (evaluateLinkState env k s) = next_state s" "next_xlink (evaluateLinkState env k s) = next_xlink s"
  "xlinks (evaluateLinkState env k s) = xlinks s" "linkMap (evaluateLinkState env k s) = linkMap s"
  "link_dests (evaluateLinkState env k s) = link_dests s" "next_dest (evaluateLinkState env k s) = next_dest s"
  "reg_events (evaluateLinkState env k s) = reg_events s"
  by (simp_all add: evaluateLinkState_def Let_def)

lemma evaluate_not_established:
  "st_status (state_objs s j) \<noteq> StatusEstablished \<Longrightarrow> st_status (state_objs (evaluateLinkState env k s) j) \<noteq> StatusEstablished"
  by (simp add: evaluateLinkState_def Let_def dialFailed_status)

lemma dest_states_valid:
  assumes "reg_inv s" "k \<in> set (dest_states env t (dest_objs s d))"
  shows "k < next_state s"
proof -
  from assms(2) obtain key where "key \<in> fst ` set (ld_linkMap (dest_objs s d))" "k = the (map_of (ld_linkMap (dest_objs s d)) key)"
    by (auto simp: dest_states_def)
  then have "map_of (ld_linkMap (dest_objs s d)) key = Some k"
    by (cases "map_of (ld_linkMap (dest_objs s d)) key") (auto simp: map_of_eq_None_iff)
  with assms(1) show ?thesis unfolding reg_inv_def dest_ok_def by blast
qed

section \<open>Events\<close>

text \<open>Loops keep the invariant together with the number of allocated objects.\<close>

definition reg_at :: "linkRegistry \<Rightarrow> linkRegistry \<Rightarrow> bool" where
  "reg_at s t \<longleftrightarrow> reg_inv t \<and> next_state s \<le> next_state t"

lemma emit_frame [simp]: "next_state (reg_emit e s) = next_state s" "next_state (queueEvent ev s) = next_state s"
  "state_objs (reg_emit e s) = state_objs s" "state_objs (queueEvent ev s) = state_objs s"
  "dest_objs (reg_emit e s) = dest_objs s" "next_xlink (reg_emit e s) = next_xlink s" "xlinks (reg_emit e s) = xlinks s"
  "linkMap (reg_emit e s) = linkMap s" "linkByIdMap (reg_emit e s) = linkByIdMap s" "reg_jobs (reg_emit e s) = reg_jobs s"
  by (simp_all add: reg_emit_def queueEvent_def)

lemma reg_inv_remove_state: "reg_inv s \<Longrightarrow> reg_inv (remove_state k s)"
  by (simp add: remove_state_def Let_def reg_inv_status del: set_state_simps(1) split: option.split)

lemma reg_inv_link_dests:
  assumes "reg_inv s"
  shows "reg_inv (s\<lparr>link_dests := AList.delete i (link_dests s)\<rparr>)"
proof -
  let ?t = "s\<lparr>link_dests := AList.delete i (link_dests s)\<rparr>"
  have "event_ok ?t e = event_ok s e" for e by (cases e) simp_all
  moreover have "dialing ?t = dialing s" "pending_events ?t = pending_events s" by (simp_all add: job_views)
  ultimately show ?thesis using assms by (auto simp: reg_inv_defs split: if_splits)
qed

lemma reg_inv_removeLinkDest: "reg_inv s \<Longrightarrow> reg_inv (handle_removeLinkDest env i s)"
  by (auto simp: handle_removeLinkDest_def Let_def reg_inv_link_dests split: option.split
      intro!: fold_keeps [where P = reg_inv] reg_inv_remove_state)

lemma reg_inv_dest:
  assumes "reg_inv s" "ld_linkMap (f (dest_objs s d)) = ld_linkMap (dest_objs s d)" "ld_id (f (dest_objs s d)) = ld_id (dest_objs s d)"
  shows "reg_inv (set_dest d f s)"
proof -
  have "event_ok (set_dest d f s) e = event_ok s e" for e by (cases e) simp_all
  moreover have "dialing (set_dest d f s) = dialing s" "pending_events (set_dest d f s) = pending_events s" by (simp_all add: job_views)
  ultimately show ?thesis using assms by (auto simp: reg_inv_defs)
qed

lemma reg_inv_new_dest:
  assumes "reg_inv s"
  shows "reg_inv (s\<lparr>dest_objs := (dest_objs s)(next_dest s := newLinkDest i), next_dest := next_dest s + 1,
    link_dests := AList.update i (next_dest s) (link_dests s)\<rparr>)" (is "reg_inv ?t")
proof -
  have "event_ok ?t e = event_ok s e" for e by (cases e) simp_all
  moreover have "dialing ?t = dialing s" "pending_events ?t = pending_events s" by (simp_all add: job_views)
  moreover have "dest_ok ?t"
    unfolding dest_ok_def
  proof (intro conjI allI impI)
    fix j d
    assume "map_of (link_dests ?t) j = Some d"
    then have "j = i \<and> d = next_dest s \<or> map_of (link_dests s) j = Some d" by (auto split: if_splits)
    then have "j = i \<and> d = next_dest s \<or> d < next_dest s \<and> ld_id (dest_objs s d) = j"
      using assms unfolding reg_inv_def dest_ok_def by blast
    then show "d < next_dest ?t" "ld_id (dest_objs ?t d) = j" by (auto simp: newLinkDest_def)
  next
    fix d key k
    assume "map_of (ld_linkMap (dest_objs ?t d)) key = Some k"
    then have "map_of (ld_linkMap (dest_objs s d)) key = Some k" by (auto simp: newLinkDest_def split: if_splits)
    then show "k < next_state ?t" "st_linkKey (state_objs ?t k) = key" "st_dest (state_objs ?t k) = d"
      using assms by (simp_all add: reg_inv_def dest_ok_def)
  qed
  ultimately show ?thesis using assms by (simp add: reg_inv_def st_ok_def dial_ok_def maps_ok_def)
qed

lemma reg_inv_new_state:
  assumes "reg_inv s"
  shows "reg_inv (set_dest d (\<lambda>x. x\<lparr>ld_linkMap := AList.update key (next_state s) (ld_linkMap x)\<rparr>)
    (tick (s\<lparr>state_objs := (state_objs s)(next_state s := new_link_state key i d ls dr), next_state := next_state s + 1\<rparr>)))"
    (is "reg_inv ?t")
proof -
  have ev: "event_ok ?t e" if "event_ok s e" for e using that by (cases e) simp_all
  have "st_ok ?t k" for k
    using reg_inv_st_ok [OF assms, of k] by (simp add: st_ok_def new_link_state_def)
  moreover have "next_state s \<notin> set (dialing s)" using assms by (auto simp: reg_inv_def dial_ok_def)
  then have "dial_ok ?t" using assms
    by (auto simp: reg_inv_def dial_ok_def dialing_def new_link_state_def intro: less_SucI)
  moreover have "dest_ok ?t"
    unfolding dest_ok_def
  proof (intro conjI allI impI)
    fix j d'
    assume "map_of (link_dests ?t) j = Some d'"
    then show "d' < next_dest ?t" "ld_id (dest_objs ?t d') = j" using assms by (auto simp: reg_inv_def dest_ok_def)
  next
    fix d' key' k
    assume "map_of (ld_linkMap (dest_objs ?t d')) key' = Some k"
    then have "k = next_state s \<and> key' = key \<and> d' = d \<or> map_of (ld_linkMap (dest_objs s d')) key' = Some k"
      by (auto split: if_splits)
    then have "k = next_state s \<and> key' = key \<and> d' = d \<or>
        k < next_state s \<and> st_linkKey (state_objs s k) = key' \<and> st_dest (state_objs s k) = d'"
      using assms unfolding reg_inv_def dest_ok_def by blast
    then show "k < next_state ?t" "st_linkKey (state_objs ?t k) = key'" "st_dest (state_objs ?t k) = d'"
      by (auto simp: new_link_state_def)
  qed
  moreover have "pending_events ?t = pending_events s" by (simp add: pending_events_def)
  ultimately show ?thesis using assms ev by (simp add: reg_inv_def maps_ok_def)
qed

lemma add_link_state_at: "reg_inv s \<Longrightarrow> reg_at s (add_link_state env d key ls dr s)"
  unfolding reg_at_def add_link_state_def Let_def
  by (intro conjI reg_inv_evaluate reg_inv_new_state) simp_all

lemma reg_inv_listener:
  assumes "reg_inv s"
  shows "reg_inv (set_state k (\<lambda>st. st\<lparr>st_listener := ls\<rparr>) s)"
  using reg_inv_st_ok [OF assms, of k] by (intro reg_inv_state [OF assms]) (simp_all add: benign_def st_ok_state st_ok_def)

lemma refresh_link_state_at:
  assumes "reg_inv s" "k < next_state s"
  shows "reg_at s (refresh_link_state env k ls b s)"
proof -
  let ?s1 = "if ls_address (st_listener (state_objs s k)) \<noteq> ls_address ls then
      (case st_link (state_objs s k) of Some l \<Rightarrow> reg_emit (CloseLink l) s | None \<Rightarrow> s) else s"
  have s1: "reg_inv ?s1" "next_state ?s1 = next_state s" using assms(1) by (auto split: option.split)
  then have s2: "reg_inv (set_state k (\<lambda>st. st\<lparr>st_listener := ls\<rparr>) ?s1)" by (simp add: reg_inv_listener)
  show ?thesis unfolding reg_at_def refresh_link_state_def Let_def
    using s1(2) s2 reg_inv_retry [OF s2] assms(2)
    by (auto intro!: reg_inv_evaluate simp del: set_state_simps(1))
qed

lemma reg_inv_orphan: "reg_inv s \<Longrightarrow> reg_inv (remove_orphan d key s)"
  by (auto simp: remove_orphan_def Let_def reg_inv_drop_state split: option.split)

lemma apply_listener_inv:
  assumes "reg_inv (snd p)"
  shows "reg_inv (snd (apply_listener env d i b x p))"
proof -
  obtain ls dr keys s where xp: "x = (ls, dr)" "p = (keys, s)" by (metis surj_pair)
  have "k < next_state s" if "map_of (ld_linkMap (dest_objs s d)) key = Some k" for key k
    using that assms xp(2) unfolding reg_inv_def dest_ok_def by auto
  then show ?thesis using assms add_link_state_at [of s env d _ ls dr] refresh_link_state_at [of s _ env ls b] xp
    by (auto simp: apply_listener_def Let_def reg_at_def split: option.split)
qed

lemma reg_inv_listeners:
  assumes "reg_inv s"
  shows "reg_inv (ApplyListenerChanges env d i b ls s)"
proof -
  let ?p = "fold (apply_listener env d i b) (concat (map (\<lambda>l. map (Pair l) (le_dialers env)) ls))
      (map fst (ld_linkMap (dest_objs s d)), s)"
  have "reg_inv (snd ?p)" by (rule fold_keeps [where P = "\<lambda>p. reg_inv (snd p)"]) (simp_all add: apply_listener_inv assms)
  then show ?thesis unfolding ApplyListenerChanges_def
    by (auto simp: case_prod_beta Let_def intro!: fold_keeps [where P = reg_inv] reg_inv_orphan)
qed

lemma reg_inv_linkDestUpdate: 
  assumes "reg_inv s"
  shows "reg_inv (handle_linkDestUpdate env i v h ls s)"
proof -
  have upd: "reg_inv (tick (set_dest d (dest_update v h now) t))" if "reg_inv t" for d now t
    using that by (simp add: reg_inv_dest dest_update_def Let_def)
  show ?thesis
    using upd reg_inv_new_dest [OF assms, of i] assms
    by (auto simp: handle_linkDestUpdate_def Let_def intro!: reg_inv_listeners split: option.split)
qed

lemma state_of_link_valid:
  assumes "reg_inv s" "state_of_link s l = Some k"
  shows "k < next_state s" "st_linkKey (state_objs s k) = x_key (xlinks s l)"
proof -
  from assms(2) obtain d where "map_of (ld_linkMap (dest_objs s d)) (x_key (xlinks s l)) = Some k"
    by (auto simp: state_of_link_def split: option.splits)
  with assms(1) show "k < next_state s" "st_linkKey (state_objs s k) = x_key (xlinks s l)"
    unfolding reg_inv_def dest_ok_def by blast+
qed

lemma reg_inv_trigger [simp]: "reg_inv (s\<lparr>triggerNotifyC := b\<rparr>) = reg_inv s"
proof -
  have "same_core s (s\<lparr>triggerNotifyC := b\<rparr>)" "same_core (s\<lparr>triggerNotifyC := b\<rparr>) s" by (simp_all add: same_core_def job_views)
  then show ?thesis using reg_inv_core by blast
qed

lemma reg_inv_fault:
  assumes "reg_inv s"
  shows "reg_inv (set_state k (addPendingLinkFault i n) s)"
  using reg_inv_st_ok [OF assms, of k]
  by (intro reg_inv_state [OF assms]) (simp_all add: benign_def st_ok_state st_ok_def addPendingLinkFault_def add_fault_ids)

lemma reg_inv_mark_failed:
  assumes "reg_inv s" "k < next_state s" "st_status (state_objs s k) \<noteq> StatusEstablished"
  shows "reg_inv (mark_failed env l k s)"
proof -
  let ?s1 = "tick (set_state k (\<lambda>st. st\<lparr>st_retryDelay := 0, st_nextDial := le_clock env (reg_ticks s)\<rparr>) s)"
  let ?s2 = "evaluateLinkState env k ?s1"
  have "reg_inv ?s1" using reg_inv_retry [OF assms(1)] by simp
  then have s2: "reg_inv ?s2" using assms(2) by (simp add: reg_inv_evaluate)
  have ne: "st_status (state_objs ?s2 k) \<noteq> StatusEstablished" by (rule evaluate_not_established) (simp add: assms(3))
  show ?thesis unfolding mark_failed_def Let_def
    using reg_inv_st_ok [OF s2, of k] ne
    by (intro reg_inv_state [OF s2]) (simp_all add: benign_def st_ok_state st_ok_def addPendingLinkFault_def add_fault_ids)
qed

lemma mark_established_eq:
  "mark_established l k (set_state k (updateStatus StatusEstablished) s) =
     (set_state k (\<lambda>st. (updateStatus StatusEstablished st)\<lparr>st_connectedCount := st_connectedCount st + 1, st_retryDelay := 0,
        st_ctrlsNotified := False, st_link := Some l\<rparr>) s)\<lparr>triggerNotifyC := True\<rparr>"
  by (simp add: mark_established_def triggerNotify_def set_state_comp del: set_state_simps(1))

lemma reg_inv_link_status:
  assumes "reg_inv s" "l < next_xlink s"
  shows "reg_inv (handle_updateLinkStatusForLink env l v s)"
proof (cases "state_of_link s l")
  case None
  with assms show ?thesis by (simp add: handle_updateLinkStatusForLink_def)
next
  case (Some k)
  note k = state_of_link_valid [OF assms(1) Some]
  show ?thesis
  proof (cases "v = StatusEstablished")
    case True
    have "reg_inv (mark_established l k (set_state k (updateStatus StatusEstablished) s))"
      unfolding mark_established_eq using reg_inv_st_ok [OF assms(1), of k] k(2) assms(2)
      by (simp del: set_state_simps(1), intro reg_inv_state [OF assms(1)]) (simp_all add: benign_def st_ok_state st_ok_def)
    with True Some assms(1) show ?thesis
      by (simp add: handle_updateLinkStatusForLink_def Let_def mark_established_eq)
  next
    case False
    have s1: "reg_inv (set_state k (updateStatus v) s)" by (rule reg_inv_status [OF assms(1) False])
    with reg_inv_mark_failed [OF s1, of k env l] k(1) Some False assms(1) show ?thesis
      by (simp add: handle_updateLinkStatusForLink_def Let_def del: set_state_simps(1)) (simp add: set_state_simps(1))
  qed
qed

lemma reg_inv_benign_fold:
  assumes "reg_inv s" "\<And>x t. reg_inv t \<Longrightarrow> reg_inv (f x t)"
  shows "reg_inv (fold f xs s)"
  using assms by (intro fold_keeps [where P = reg_inv]) simp_all

lemma reg_inv_notified:
  assumes "reg_inv s"
  shows "reg_inv (set_state k (\<lambda>st. st\<lparr>st_ctrlsNotified := b\<rparr>) s)"
  using reg_inv_st_ok [OF assms, of k] by (intro reg_inv_state [OF assms]) (simp_all add: benign_def st_ok_state st_ok_def)

lemma distinct_filter_ids: "distinct (map g xs) \<Longrightarrow> distinct (map g (filter P xs))"
  by (simp add: distinct_map_filter)

lemma reg_inv_clear:
  assumes "reg_inv s"
  shows "reg_inv (set_state k (clearFault f) s)" "reg_inv (set_state k (clearFaultsForLinkId i) s)"
  using reg_inv_st_ok [OF assms, of k]
  by (auto intro!: reg_inv_state [OF assms] distinct_filter_ids
      simp: benign_def st_ok_state st_ok_def clearFault_def clearFaultsForLinkId_def)

lemma reg_inv_handle:
  assumes "reg_inv s" "event_ok s e"
  shows "reg_inv (handle_event env e s)"
proof (cases e)
  case (AddLinkFaultForReplacedLink l)
  with assms show ?thesis by (auto simp: handle_addLinkFaultForReplacedLink_def reg_inv_fault split: option.split)
next
  case (UpdateLinkStatusToDialFailed k a)
  with assms show ?thesis
    by (auto simp: handle_dialFailed_def reg_inv_status simp del: set_state_simps(1) intro!: reg_inv_dialFailed)
next
  case (MarkNewLinksNotified ps)
  with assms show ?thesis
    by (auto simp: handle_markNewLinksNotified_def reg_inv_notified simp del: set_state_simps(1) intro!: reg_inv_benign_fold)
next
  case (MarkFaultedLinksNotified ps)
  with assms show ?thesis
    by (auto simp: handle_markFaultedLinksNotified_def reg_inv_clear simp del: set_state_simps(1) intro!: reg_inv_benign_fold)
qed (use assms in \<open>simp_all add: reg_inv_removeLinkDest reg_inv_linkDestUpdate reg_inv_link_status\<close>)

section \<open>Scans, notifications and dials\<close>

text \<open>For loops that carry other results beside the registry.\<close>

lemma heap_pop_set:
  assumes "h \<noteq> []" "heap_Pop key h = (k, q)"
  shows "mset h = add_mset k (mset q)"
proof -
  let ?n = "length h - 1" and ?s = "swap_elems 0 (length h - 1) h"
  let ?d = "heap_down key 0 ?n ?s"
  have ms: "mset ?s = mset h" using assms(1) by (intro mset_swap_elems) auto
  have "mset ?d = mset h"
  proof (cases "?n = 0")
    case True
    then show ?thesis using ms by (simp add: heap_down_stop)
  next
    case False
    then show ?thesis using heap_down_elems [of ?n ?s 0 key] ms by simp
  qed
  moreover have "length ?d = length h" using calculation mset_eq_length by blast
  then have "?d = take ?n ?d @ [?d ! ?n]" using take_Suc_conv_app_nth [of ?n ?d] assms(1) by simp
  then have "mset ?d = mset (take ?n ?d @ [?d ! ?n])" by (rule arg_cong)
  ultimately show ?thesis using assms(2) by (simp add: heap_Pop_def Let_def)
qed

lemma reg_inv_pop:
  assumes "reg_inv s" "set q \<subseteq> set (linkStateQueue s)"
  shows "reg_inv (s\<lparr>linkStateQueue := q\<rparr>)"
proof -
  have "event_ok (s\<lparr>linkStateQueue := q\<rparr>) e = event_ok s e" for e by (cases e) simp_all
  moreover have "dialing (s\<lparr>linkStateQueue := q\<rparr>) = dialing s" "pending_events (s\<lparr>linkStateQueue := q\<rparr>) = pending_events s" by (simp_all add: job_views)
  ultimately show ?thesis using assms by (auto simp: reg_inv_defs)
qed

lemma pop_valid:
  assumes "reg_inv s" "linkStateQueue s \<noteq> []" "heap_Pop key (linkStateQueue s) = (k, q)"
  shows "k < next_state s" "reg_inv (s\<lparr>linkStateQueue := q\<rparr>)"
proof -
  have "mset (linkStateQueue s) = add_mset k (mset q)" by (rule heap_pop_set [OF assms(2,3)])
  then have "set_mset (mset (linkStateQueue s)) = insert k (set q)" by simp
  then have q: "set (linkStateQueue s) = insert k (set q)" by simp
  then show "k < next_state s" using assms(1) by (simp add: reg_inv_def dial_ok_def)
  show "reg_inv (s\<lparr>linkStateQueue := q\<rparr>)" using q by (intro reg_inv_pop [OF assms(1)]) auto
qed

lemma reg_inv_queue_loop:
  assumes "evaluate_queue env now s = Some t" "reg_inv s"
  shows "reg_inv t"
proof -
  have "reg_inv s \<longrightarrow> reg_inv t"
  proof (rule evaluate_queue.raw_induct [where P = "\<lambda>env now s t. reg_inv s \<longrightarrow> reg_inv t", OF _ assms(1)], intro impI)
    fix rec env now s t
    assume ih: "\<And>env now s t. rec env now s = Some t \<Longrightarrow> reg_inv s \<longrightarrow> reg_inv t" and inv: "reg_inv s"
      and run: "(if linkStateQueue s = [] then Some s else if now < dial_key s (linkStateQueue s ! 0) then Some s
        else let (k, q) = heap_Pop (dial_key s) (linkStateQueue s)
          in rec env now (evaluateLinkState env k (s\<lparr>linkStateQueue := q\<rparr>))) = Some t"
    obtain k q where pop: "heap_Pop (dial_key s) (linkStateQueue s) = (k, q)" by fastforce
    show "reg_inv t"
    proof (cases "linkStateQueue s = [] \<or> now < dial_key s (linkStateQueue s ! 0)")
      case True
      with run inv show ?thesis by (auto split: if_splits)
    next
      case False
      then have ne: "linkStateQueue s \<noteq> []" by simp
      note v = pop_valid [OF inv ne pop]
      have "reg_inv (evaluateLinkState env k (s\<lparr>linkStateQueue := q\<rparr>))" using v by (intro reg_inv_evaluate) simp_all
      moreover have "rec env now (evaluateLinkState env k (s\<lparr>linkStateQueue := q\<rparr>)) = Some t" using run False pop by simp
      ultimately show ?thesis using ih by blast
    qed
  qed
  with assms(2) show ?thesis by blast
qed

lemma verify_state_inv:
  assumes "reg_inv (snd p)" "k < next_state (snd p)"
  shows "reg_inv (snd (verify_state env k p))" "next_state (snd (verify_state env k p)) = next_state (snd p)"
proof -
  obtain b s where p: "p = (b, s)" by fastforce
  let ?f = "\<lambda>st. updateStatus StatusLinkFailed (st\<lparr>st_retryDelay := 0, st_nextDial := le_clock env (reg_ticks s)\<rparr>)"
  have "reg_inv (tick (set_state k ?f s))"
    using reg_inv_status [OF reg_inv_retry [where s = s and k = k and a = 0 and b = "le_clock env (reg_ticks s)"], of StatusLinkFailed k] assms p
    by (simp add: set_state_comp del: set_state_simps(1))
  then have failed: "reg_inv (evaluateLinkState env k (tick (set_state k ?f s)))" using assms p by (intro reg_inv_evaluate) simp_all
  have kept: "reg_inv (evaluateLinkState env k s)" using assms p by (intro reg_inv_evaluate) simp_all
  show "reg_inv (snd (verify_state env k p))" "next_state (snd (verify_state env k p)) = next_state (snd p)"
    unfolding p verify_state_def using failed kept
    by (auto simp: Let_def simp del: set_state_simps(1) split: option.split)
qed

lemma verify_fold_inv:
  assumes "reg_inv (snd p)" "\<forall>k \<in> set ks. k < next_state (snd p)"
  shows "reg_inv (snd (fold (verify_state env) ks p)) \<and> next_state (snd (fold (verify_state env) ks p)) = next_state (snd p)"
  using assms by (induction ks arbitrary: p) (simp_all add: verify_state_inv)

lemma reg_inv_evaluate_dest:
  assumes "reg_inv s"
  shows "reg_inv (evaluate_dest env i s)"
proof (cases "map_of (link_dests s) i")
  case None
  with assms show ?thesis by (simp add: evaluate_dest_def)
next
  case (Some d)
  let ?p = "fold (verify_state env) (dest_states env (reg_ticks s) (dest_objs s d)) (False, tick s)"
  have "reg_inv (snd ?p)" using verify_fold_inv [of "(False, tick s)"] assms dest_states_valid [OF assms] by simp
  moreover have "reg_inv ((tick t)\<lparr>link_dests := AList.delete i (link_dests (tick t))\<rparr>)" if "reg_inv t" for t
    using that reg_inv_link_dests [of "tick t" i] by simp
  ultimately show ?thesis using Some by (auto simp: evaluate_dest_def case_prod_beta Let_def)
qed

lemma reg_inv_scan: "reg_inv s \<Longrightarrow> reg_inv (evaluateDestinations env s)"
  by (simp add: evaluateDestinations_def reg_inv_benign_fold reg_inv_evaluate_dest)

abbreviation reg_of :: "'a \<times> 'b \<times> linkRegistry \<Rightarrow> linkRegistry" where
  "reg_of p \<equiv> snd (snd p)"

lemma notify_state_inv:
  assumes "reg_inv (reg_of p)" "k < next_state (reg_of p)"
  shows "reg_inv (reg_of (notify_state env k p))" "next_state (reg_of (notify_state env k p)) = next_state (reg_of p)"
proof -
  obtain ls fs s where p: "p = (ls, fs, s)" by (metis surj_pair)
  have "reg_inv (state_dialFailed env False k (set_state k (updateStatus StatusDialFailed) s))"
    using assms p by (intro reg_inv_dialFailed reg_inv_status) simp_all
  then show "reg_inv (reg_of (notify_state env k p))" "next_state (reg_of (notify_state env k p)) = next_state (reg_of p)"
    unfolding p notify_state_def using assms p reg_inv_clear(2)
    by (auto simp: Let_def simp del: set_state_simps(1) split: option.split)
qed

lemma notify_fold_inv:
  assumes "reg_inv (reg_of p)" "\<forall>k \<in> set ks. k < next_state (reg_of p)"
  shows "reg_inv (reg_of (fold (notify_state env) ks p))"
  using assms by (induction ks arbitrary: p) (simp_all add: notify_state_inv)

lemma notify_dest_inv:
  assumes "reg_inv (reg_of p)"
  shows "reg_inv (reg_of (notify_dest env i p))"
proof -
  obtain ls fs s where p: "p = (ls, fs, s)" by (metis surj_pair)
  show ?thesis
  proof (cases "map_of (link_dests s) i")
    case None
    with assms p show ?thesis by (simp add: notify_dest_def)
  next
    case (Some d)
    with notify_fold_inv [of "(ls, fs, tick s)" "dest_states env (reg_ticks s) (dest_objs s d)" env]
      assms p dest_states_valid [of s _ env "reg_ticks s" d] show ?thesis by (simp add: notify_dest_def)
  qed
qed

lemma reg_inv_progress [simp]: "reg_inv (s\<lparr>notifyInProgress := b\<rparr>) = reg_inv s"
proof -
  have "same_core s (s\<lparr>notifyInProgress := b\<rparr>)" "same_core (s\<lparr>notifyInProgress := b\<rparr>) s" by (simp_all add: same_core_def job_views)
  then show ?thesis using reg_inv_core by blast
qed

text \<open>A change of the goroutines that keeps the dials they carry on.\<close>

lemma reg_inv_jobs:
  assumes "reg_inv s" "mset (concat (map job_states js)) = mset (dialing s)"
    and "\<And>e. e \<in> set (concat (map job_events js)) \<Longrightarrow> e \<in> set (pending_events s) \<or> event_ok s e"
  shows "reg_inv (s\<lparr>reg_jobs := js\<rparr>)"
proof -
  let ?t = "s\<lparr>reg_jobs := js\<rparr>"
  have "event_ok ?t e = event_ok s e" for e by (cases e) simp_all
  moreover have "distinct (dialing ?t) = distinct (dialing s)" "set (dialing ?t) = set (dialing s)"
    using mset_eq_imp_distinct_iff [OF assms(2)] mset_eq_setD [OF assms(2)] by (simp_all only: dialing_def) simp_all
  moreover have "\<forall>e \<in> set (pending_events s). event_ok s e" using assms(1) by (simp add: reg_inv_def)
  then have "event_ok s e" if "e \<in> set (pending_events ?t)" for e
    using that assms(3) [of e] by (cases "e \<in> set (concat (map job_events js))") (auto simp: pending_events_def)
  ultimately show ?thesis using assms(1) by (auto simp: reg_inv_defs)
qed

lemma mset_job_states_remove1:
  "j \<in> set js \<Longrightarrow> mset (concat (map job_states js)) = mset (job_states j) + mset (concat (map job_states (remove1 j js)))"
  by (induction js) auto

lemma reg_inv_swap:
  assumes "reg_inv s" "j \<in> set (reg_jobs s)" "mset (concat (map job_states js)) = mset (job_states j)"
    and "\<forall>e \<in> set (concat (map job_events js)). event_ok s e"
  shows "reg_inv (swap_job j js s)"
  unfolding swap_job_def
proof (rule reg_inv_jobs [OF assms(1)])
  show "mset (concat (map job_states (remove1 j (reg_jobs s) @ js))) = mset (dialing s)"
    using mset_job_states_remove1 [OF assms(2)] assms(3) by (simp add: dialing_def)
  show "e \<in> set (pending_events s) \<or> event_ok s e" if "e \<in> set (concat (map job_events (remove1 j (reg_jobs s) @ js)))" for e
    using that assms(4) set_remove1_subset [of j "reg_jobs s"] by (auto simp: pending_events_def)
qed

lemma reg_inv_add_jobs:
  assumes "reg_inv s" "concat (map job_states js) = []" "\<forall>e \<in> set (concat (map job_events js)). event_ok s e"
  shows "reg_inv (add_jobs js s)"
  unfolding add_jobs_def using assms by (intro reg_inv_jobs [OF assms(1)]) (auto simp: job_views)

lemma reg_inv_notify_job:
  assumes "reg_inv s"
  shows "reg_inv (s\<lparr>notifyInProgress := b, reg_jobs := reg_jobs s @ [NotifyJob ls fs]\<rparr>)"
proof -
  have "reg_inv (s\<lparr>notifyInProgress := b\<rparr>)" using assms by simp
  from reg_inv_add_jobs [OF this, of "[NotifyJob ls fs]"] show ?thesis by (simp add: add_jobs_def)
qed

lemma reg_inv_pending: "reg_inv s \<Longrightarrow> j \<in> set (reg_jobs s) \<Longrightarrow> e \<in> set (job_events j) \<Longrightarrow> event_ok s e"
  unfolding reg_inv_def pending_events_def by auto

lemma reg_inv_job_state: "reg_inv s \<Longrightarrow> j \<in> set (reg_jobs s) \<Longrightarrow> k \<in> set (job_states j) \<Longrightarrow> k < next_state s"
  unfolding reg_inv_def dial_ok_def dialing_def by auto

lemma after_call_events: "j \<in> set (after_call next) \<Longrightarrow> job_events j = []"
  by (cases "next") auto

lemma after_call_jobs [simp]: "concat (map job_states (after_call next)) = next_states next" "concat (map job_events (after_call next)) = []"
  by (cases "next"; simp)+

lemma reg_inv_notify:
  assumes "reg_inv s"
  shows "reg_inv (notifyControllersOfLinks env s)"
proof -
  let ?p = "fold (notify_dest env) (go_range (le_ord env (reg_ticks s)) (map fst (link_dests s))) ([], [], tick s)"
  have "reg_inv (reg_of ?p)"
    by (rule fold_keeps [where P = "\<lambda>p. reg_inv (reg_of p)"]) (simp_all add: notify_dest_inv assms)
  then have s2: "reg_inv (tick (reg_of ?p))" by simp
  show ?thesis
    using assms s2 reg_inv_notify_job [OF s2] by (simp add: notifyControllersOfLinks_def case_prod_beta Let_def del: tick_simps)
qed

lemma reg_inv_alloc:
  assumes "reg_inv s"
  shows "reg_inv (snd (alloc_xlink x s))" (is "reg_inv ?t")
proof -
  have ev: "event_ok ?t e" if "event_ok s e" for e using that by (cases e) (simp_all add: alloc_xlink_def)
  have "st_ok ?t k" for k
    using reg_inv_st_ok [OF assms, of k] by (auto simp: st_ok_def alloc_xlink_def)
  moreover have "maps_ok ?t"
    unfolding maps_ok_def
  proof (intro conjI allI impI)
    fix key l
    assume "map_of (linkMap ?t) key = Some l"
    then have "l < next_xlink s \<and> x_key (xlinks s l) = key" using assms by (simp add: alloc_xlink_def reg_inv_def maps_ok_def)
    then show "l < next_xlink ?t" "x_key (xlinks ?t l) = key" by (auto simp: alloc_xlink_def)
  next
    fix i l
    assume "linkByIdMap ?t i = Some l"
    then have "l < next_xlink s \<and> x_id (xlinks s l) = i" using assms by (simp add: alloc_xlink_def reg_inv_def maps_ok_def)
    then show "l < next_xlink ?t" "x_id (xlinks ?t l) = i" by (auto simp: alloc_xlink_def)
  qed
  moreover have "dial_ok ?t" "dest_ok ?t" using assms by (simp_all add: reg_inv_def dial_ok_def dest_ok_def alloc_xlink_def dialing_def)
  moreover have "pending_events ?t = pending_events s" by (simp add: alloc_xlink_def pending_events_def)
  ultimately show ?thesis using assms ev by (simp add: reg_inv_def)
qed

text \<open>Updates of the two link maps that only forget entries, or enter a link under its own key and id.\<close>

lemma reg_inv_maps:
  assumes "reg_inv s" "maps_ok (s\<lparr>linkMap := m, linkByIdMap := b\<rparr>)"
  shows "reg_inv (s\<lparr>linkMap := m, linkByIdMap := b\<rparr>)"
proof -
  have "event_ok (s\<lparr>linkMap := m, linkByIdMap := b\<rparr>) e = event_ok s e" for e by (cases e) simp_all
  moreover have "dialing (s\<lparr>linkMap := m, linkByIdMap := b\<rparr>) = dialing s"
    "pending_events (s\<lparr>linkMap := m, linkByIdMap := b\<rparr>) = pending_events s" by (simp_all add: job_views)
  ultimately show ?thesis using assms by (simp add: reg_inv_def st_ok_def dial_ok_def dest_ok_def)
qed

lemma reg_inv_register:
  assumes "reg_inv s" "RegisterJob l next \<in> set (reg_jobs s)"
  shows "reg_inv (register_link l next s)"
proof -
  let ?s = "s\<lparr>linkMap := AList.update (x_key (xlinks s l)) l (linkMap s), linkByIdMap := (linkByIdMap s)(x_id (xlinks s l) \<mapsto> l)\<rparr>"
  have l: "l < next_xlink s" using reg_inv_pending [OF assms, of "UpdateLinkStatusForLink l StatusEstablished"] by simp
  have "reg_inv ?s"
    using assms(1) l by (intro reg_inv_maps) (auto simp: reg_inv_def maps_ok_def split: if_splits)
  then show ?thesis unfolding register_link_def using assms(2) l by (intro reg_inv_swap) auto
qed

lemma reg_inv_apply:
  assumes "reg_inv s" "l < next_xlink s" "applyLink env l next s = (answer, js, t)"
  shows "reg_inv t" "reg_jobs t = reg_jobs s" "next_state t = next_state s" "concat (map job_states js) = next_states next"
    "\<forall>e \<in> set (concat (map job_events js)). event_ok t e"
  using assms by (auto simp: applyLink_def Let_def after_call_events split: option.splits if_splits)

lemma reg_inv_accept: "reg_inv s \<Longrightarrow> reg_inv (LinkAccepted env x s)"
proof -
  assume inv: "reg_inv s"
  obtain answer js t where a: "applyLink env (next_xlink s) Return (snd (alloc_xlink x s)) = (answer, js, t)" by (metis prod_cases3)
  have "next_xlink s < next_xlink (snd (alloc_xlink x s))" by (simp add: alloc_xlink_def)
  note r = reg_inv_apply [OF reg_inv_alloc [OF inv] this a]
  have "reg_inv (add_jobs js t)" by (rule reg_inv_add_jobs [OF r(1)]) (use r(4,5) in simp_all)
  with a show ?thesis by (simp add: LinkAccepted_def alloc_xlink_def)
qed

lemma reg_inv_forget_key:
  assumes "reg_inv s"
  shows "reg_inv (s\<lparr>linkMap := AList.delete key (linkMap s)\<rparr>)"
  using reg_inv_maps [OF assms, where m = "AList.delete key (linkMap s)" and b = "linkByIdMap s"] assms
  by (simp add: reg_inv_def maps_ok_def)

lemma reg_inv_forget_id:
  assumes "reg_inv s"
  shows "reg_inv (s\<lparr>linkByIdMap := (linkByIdMap s)(i := None)\<rparr>)"
  using reg_inv_maps [OF assms, where m = "linkMap s" and b = "(linkByIdMap s)(i := None)"] assms
  by (simp add: reg_inv_def maps_ok_def)

lemma reg_inv_closed:
  assumes "reg_inv s" "l < next_xlink s"
  shows "reg_inv (LinkClosed l s)"
proof -
  let ?x = "xlinks s l"
  define s1 where "s1 = (if map_of (linkMap s) (x_key ?x) = Some l then s\<lparr>linkMap := AList.delete (x_key ?x) (linkMap s)\<rparr> else s)"
  define s2 where "s2 = (if linkByIdMap s1 (x_id ?x) = Some l then s1\<lparr>linkByIdMap := (linkByIdMap s1)(x_id ?x := None)\<rparr> else s1)"
  have "reg_inv s1" unfolding s1_def by (rule if_keeps [where P = reg_inv]) (use assms(1) in \<open>simp_all add: reg_inv_forget_key\<close>)
  then have "reg_inv s2" unfolding s2_def by (intro if_keeps [where P = reg_inv]) (simp_all add: reg_inv_forget_id)
  moreover have "next_xlink s2 = next_xlink s" by (simp add: s2_def s1_def)
  ultimately show ?thesis using assms(2) unfolding LinkClosed_def Let_def s1_def [symmetric] s2_def [symmetric]
    by (simp add: reg_inv_add_jobs)
qed

lemma reg_inv_forget: 
  assumes "reg_inv s"
  shows "reg_inv (snd (DebugForgetLink i s))"
proof (cases "linkByIdMap s i")
  case (Some l)
  have "reg_inv (s\<lparr>linkMap := AList.delete (x_key (xlinks s l)) (linkMap s), linkByIdMap := (linkByIdMap s)(i := None)\<rparr>)"
    using assms by (intro reg_inv_maps) (auto simp: reg_inv_def maps_ok_def split: if_splits)
  moreover have "snd (DebugForgetLink i s) =
      s\<lparr>linkMap := AList.delete (x_key (xlinks s l)) (linkMap s), linkByIdMap := (linkByIdMap s)(i := None)\<rparr>"
    using Some by (cases s) (simp add: DebugForgetLink_def)
  ultimately show ?thesis by (simp only:)
qed (simp add: DebugForgetLink_def assms)

lemma reg_inv_close:
  assumes "reg_inv s"
  shows "reg_inv (close_xlink l s)"
proof -
  have "event_ok (close_xlink l s) e = event_ok s e" for e by (cases e) (simp_all add: close_xlink_def)
  then show ?thesis using assms
    by (simp add: reg_inv_defs close_xlink_def job_views)
qed

lemma reg_inv_send:
  assumes "reg_inv s" "SendJob e next \<in> set (reg_jobs s)"
  shows "reg_inv (send_event e next s)"
proof -
  have "reg_inv (queueEvent e s)" using assms(1) reg_inv_pending [OF assms, of e] by simp
  then show ?thesis unfolding send_event_def using assms(2) by (intro reg_inv_swap) (simp_all add: queueEvent_def)
qed

lemma reg_inv_end_dial:
  assumes "reg_inv s" "DialDoneJob k \<in> set (reg_jobs s)"
  shows "reg_inv (end_dial k s)" (is "reg_inv ?t")
proof -
  let ?js = "remove1 (DialDoneJob k) (reg_jobs s)"
  have dt: "dialing ?t = concat (map job_states ?js)" by (simp add: dialing_def end_dial_def swap_job_def)
  have m: "mset (dialing s) = mset (k # dialing ?t)"
    using mset_job_states_remove1 [OF assms(2)] by (simp only: dt) (simp add: dialing_def)
  have "distinct (dialing s)" using assms(1) by (simp add: reg_inv_def dial_ok_def)
  then have d: "distinct (dialing ?t)" "k \<notin> set (dialing ?t)" "set (dialing s) = insert k (set (dialing ?t))"
    using mset_eq_imp_distinct_iff [OF m] mset_eq_setD [OF m] by simp_all
  have "event_ok ?t e = event_ok s e" for e by (cases e) (simp_all add: end_dial_def swap_job_def)
  moreover have "st_ok ?t i" for i using reg_inv_st_ok [OF assms(1), of i] by (auto simp: st_ok_def end_dial_def swap_job_def)
  moreover have "dial_ok ?t"
    using assms(1) d unfolding dial_ok_def by (auto simp: reg_inv_def dial_ok_def end_dial_def swap_job_def)
  moreover have "set (pending_events ?t) \<subseteq> set (pending_events s)"
    using set_remove1_subset [of "DialDoneJob k" "reg_jobs s"] by (auto simp: pending_events_def end_dial_def swap_job_def)
  ultimately show ?thesis using assms(1) by (auto simp: reg_inv_def dest_ok_def maps_ok_def end_dial_def swap_job_def)
qed

lemma reg_inv_dial_begin:
  assumes "reg_inv s" "DialJob k \<in> set (reg_jobs s)"
  shows "reg_inv (dial_begin k s)"
proof (cases "GetLink s (st_linkKey (state_objs s k))")
  case None
  with assms show ?thesis by (simp add: dial_begin_def reg_inv_swap)
next
  case (Some l)
  then have "l < next_xlink s" using assms(1) by (simp add: GetLink_def reg_inv_def maps_ok_def)
  with Some assms show ?thesis by (simp add: dial_begin_def reg_inv_swap)
qed

lemma reg_inv_dial_end:
  assumes "reg_inv s" "DialingJob k \<in> set (reg_jobs s)"
  shows "reg_inv (dial_end env k res s)"
proof (cases res)
  case None
  with reg_inv_swap [OF assms, of "registry_dialFailed k False (ClearDial k)"] reg_inv_job_state [OF assms, of k]
  show ?thesis by (simp add: dial_end_def registry_dialFailed_def)
next
  case (Some x)
  obtain l s1 where a: "alloc_xlink x s = (l, s1)" by fastforce
  have s1: "reg_inv s1" "l < next_xlink s1" "reg_jobs s1 = reg_jobs s" "next_state s1 = next_state s"
    using reg_inv_alloc [OF assms(1), of x] a by (auto simp: alloc_xlink_def)
  obtain existing success js s2 where b: "applyLink env l (ClearDial k) s1 = ((existing, success), js, s2)" by (metis prod_cases3 surj_pair)
  note r = reg_inv_apply [OF s1(1,2) b]
  have "DialingJob k \<in> set (reg_jobs s2)" using r(2) s1(3) assms(2) by simp
  from reg_inv_swap [OF r(1) this] r s1(4) reg_inv_job_state [OF assms, of k]
  have "reg_inv (swap_job (DialingJob k) js s2)" "reg_inv (swap_job (DialingJob k) (registry_dialFailed k True (ClearDial k)) s2)"
    by (simp_all add: registry_dialFailed_def)
  with a b Some show ?thesis by (simp add: dial_end_def)
qed

lemma reg_inv_run_notify:
  assumes "reg_inv s" "NotifyJob ls fs \<in> set (reg_jobs s)"
  shows "reg_inv (run_notify ctrls fctrls ls fs s)"
proof -
  have "reg_inv (swap_job (NotifyJob ls fs) (sendNewLinks ctrls ls fs) s)"
    "reg_inv (swap_job (NotifyJob ls fs) (sendLinkFaults fctrls fs) s)"
    using assms by (auto simp: sendNewLinks_def sendLinkFaults_def Let_def intro!: reg_inv_swap)
  moreover have "reg_inv (swap_job (NotifyJob ls fs) [] (s\<lparr>notifyInProgress := False\<rparr>))"
    using assms by (intro reg_inv_swap) simp_all
  ultimately show ?thesis by (cases "ls = []"; cases "fs = []") (simp_all add: run_notify_def)
qed

lemma reg_inv_step:
  assumes "reg_step env s t" "reg_inv s"
  shows "reg_inv t"
  using assms(1)
proof (cases rule: reg_step.cases)
  case (handle e es)
  have "event_ok (s\<lparr>reg_events := es\<rparr>) e' = event_ok s e'" for e' by (cases e') simp_all
  then have "reg_inv (s\<lparr>reg_events := es\<rparr>)" "event_ok (s\<lparr>reg_events := es\<rparr>) e"
    using assms(2) handle(2) by (simp_all add: reg_inv_defs job_views)
  with handle(1) show ?thesis by (simp add: reg_inv_handle)
next
  case (queue_check t')
  from queue_check(2) have "reg_inv t'"
    unfolding evaluateLinkStateQueue_def by (rule reg_inv_queue_loop) (simp add: assms(2))
  with queue_check(1) show ?thesis by (simp add: reg_inv_notify)
qed (use assms(2) in \<open>simp_all add: reg_inv_accept reg_inv_close reg_inv_closed reg_inv_forget reg_inv_notify reg_inv_scan
    reg_inv_dial_begin reg_inv_dial_end reg_inv_run_notify reg_inv_send reg_inv_register reg_inv_end_dial\<close>)

lemma reg_inv_new: "reg_inv NewLinkRegistry"
  by (simp add: reg_inv_defs NewLinkRegistry_def new_link_state_def newLinkDest_def job_views)

lemma reg_inv_reachable: "reg_reachable env s \<Longrightarrow> reg_inv s"
  by (induction rule: reg_reachable.induct) (auto intro: reg_inv_new reg_inv_step)

text \<open>
  C6. In every state of the link registry that any interleaving of updates, accepted and closed
  links, dials, scans and notifications leads to: a link state holds a link exactly while it is
  established, and that link has the state's key; a state is marked as dialing exactly while one
  dial of it, and only one, is queued or running; a fault is pending at most once for each link; and
  the maps by key and by id lead to the link with that key or id, the destinations' maps to the
  state with that key.
\<close>

theorem registry_consistent:
  assumes "reg_reachable env s"
  shows "(st_link (state_objs s k) \<noteq> None \<longleftrightarrow> st_status (state_objs s k) = StatusEstablished) \<and>
    (st_link (state_objs s k) = Some l \<longrightarrow> x_key (xlinks s l) = st_linkKey (state_objs s k)) \<and>
    (st_dialActive (state_objs s k) \<longleftrightarrow> k \<in> set (dialing s)) \<and> distinct (dialing s) \<and>
    distinct (map lf_linkId (st_linkFaults (state_objs s k))) \<and>
    (GetLink s key = Some l \<longrightarrow> x_key (xlinks s l) = key) \<and> (GetLinkById s i = Some l \<longrightarrow> x_id (xlinks s l) = i) \<and>
    (map_of (ld_linkMap (dest_objs s d)) key = Some k \<longrightarrow> st_linkKey (state_objs s k) = key \<and> st_dest (state_objs s k) = d)"
  using reg_inv_reachable [OF assms] by (simp add: reg_inv_defs GetLink_def GetLinkById_def)

definition accepted_env :: reg_env where
  "accepted_env = \<lparr>le_clock = int, le_pool = (\<lambda>n. True), le_scale = (\<lambda>n cfg d. 2 * d), le_rand = (\<lambda>n. 0), le_uuid = (\<lambda>n. ''id''),
     le_ord = (\<lambda>n ks. ks), le_dialers = [], le_containsAny = (\<lambda>as bs. True), le_legacyCtrl = False\<rparr>"

definition accepted_link :: Xlink where
  "accepted_link = \<lparr>x_key = ''k'', x_id = ''l1'', x_dest = ''r1'', x_protocol = ''tls'', x_dialAddress = ''a'', x_iteration = 1,
     x_dialed = False, x_closed = False, x_duplicatesRejected = 0\<rparr>"

definition accepted :: linkRegistry where
  "accepted = register_link 0 Return (LinkAccepted accepted_env accepted_link NewLinkRegistry)"

theorem registry_consistent_witness:
  "GetLink accepted ''k'' = Some 0 \<and> x_key (xlinks accepted 0) = ''k'' \<and> GetLinkById accepted ''l1'' = Some 0 \<and> distinct (dialing accepted)"
proof -
  let ?s = "LinkAccepted accepted_env accepted_link NewLinkRegistry"
  have jobs: "reg_jobs ?s = [RegisterJob 0 Return]"
    by (simp add: LinkAccepted_def alloc_xlink_def applyLink_def add_jobs_def GetLink_def NewLinkRegistry_def accepted_link_def Let_def)
  have "reg_reachable accepted_env ?s" by (rule reg_reachable.reg_next [OF reg_reachable.reg_new reg_step.accept_link])
  then have "reg_reachable accepted_env accepted"
    unfolding accepted_def by (rule reg_reachable.reg_next [OF _ reg_step.register]) (simp add: jobs)
  moreover have "GetLink accepted ''k'' = Some 0" "GetLinkById accepted ''l1'' = Some 0"
    by (simp_all add: accepted_def LinkAccepted_def alloc_xlink_def applyLink_def register_link_def add_jobs_def swap_job_def GetLink_def
        GetLinkById_def NewLinkRegistry_def accepted_link_def Let_def)
  ultimately show ?thesis using registry_consistent [of accepted_env accepted 0 0 "''k''" "''l1''"] by simp
qed

end
