(* ===== verification/Registry_Scan.thy ===== *)
theory Registry_Scan
  imports Registry_Invariant
begin

text \<open>
  The scan of the dial queue (\<open>evaluateLinkStateQueue\<close> of \<open>router/link/link_registry.go\<close>): it ends,
  since a state put back gets a time after the scan's start, and it tries every state that is due.
  The dialers' back-off settings are those the configuration loader accepts.
\<close>

section \<open>Accepted back-off settings\<close>

definition backoff_ok :: "BackoffConfig \<Rightarrow> bool" where
  "backoff_ok c \<longleftrightarrow> MinRetryInterval \<le> bo_minRetryInterval c \<and> bo_minRetryInterval c \<le> bo_maxRetryInterval c \<and>
     bo_maxRetryInterval c \<le> MaxRetryInterval"

lemma load_interval_bounds:
  "load_interval parse key data old = Inr d \<Longrightarrow> MinRetryInterval \<le> old \<Longrightarrow> old \<le> MaxRetryInterval \<Longrightarrow>
     MinRetryInterval \<le> d \<and> d \<le> MaxRetryInterval"
  by (auto simp: load_interval_def split: option.splits yaml_value.splits if_splits)

lemma load_backoff_ok:
  assumes "backoff_ok c" "load_backoff parse data c = Inr c'"
  shows "backoff_ok c'"
proof -
  from assms(2) obtain lo hi where r: "load_interval parse ''minRetryInterval'' data (bo_minRetryInterval c) = Inr lo"
      "load_interval parse ''maxRetryInterval'' data (bo_maxRetryInterval c) = Inr hi" "lo \<le> hi"
      "bo_minRetryInterval c' = lo" "bo_maxRetryInterval c' = hi"
    by (auto simp: load_backoff_def split: sum.splits if_splits)
  from load_interval_bounds [OF r(1)] load_interval_bounds [OF r(2)] assms(1) r(3-5) show ?thesis
    by (simp add: backoff_ok_def)
qed

lemma load_section_ok: "backoff_ok c \<Longrightarrow> load_section parse name section c = Inr c' \<Longrightarrow> backoff_ok c'"
  by (cases "(parse, name, section, c)" rule: load_section.cases) (auto intro: load_backoff_ok)

lemma default_backoffs_ok: "backoff_ok default_healthy" "backoff_ok default_unhealthy"
  by (simp_all add: backoff_ok_def default_healthy_def default_unhealthy_def MinRetryInterval_def MaxRetryInterval_def go_second_def)

lemma load_dial_backoffs_ok:
  "load_dial_backoffs parse healthy unhealthy = Inr (h, u) \<Longrightarrow> backoff_ok h \<and> backoff_ok u"
  by (auto simp: load_dial_backoffs_def split: sum.splits
      dest!: load_section_ok [OF default_backoffs_ok(1)] load_section_ok [OF default_backoffs_ok(2)])

text \<open>A dialer whose settings the loader produced.\<close>

definition loaded_dialer :: "(string \<Rightarrow> int option) \<Rightarrow> Dialer \<Rightarrow> bool" where
  "loaded_dialer parse d \<longleftrightarrow>
     (\<exists>healthy unhealthy. load_dial_backoffs parse healthy unhealthy = Inr (dr_healthyBackoff d, dr_unhealthyBackoff d))"

lemma retry_delay_positive:
  assumes "backoff_ok cfg"
  shows "0 < retry_delay env t cfg delay"
  using assms by (auto simp: retry_delay_def Let_def backoff_ok_def MinRetryInterval_def)

section \<open>One evaluation\<close>

lemma heap_Pop_elems:
  assumes "h \<noteq> []"
  shows "fst (heap_Pop key h) = h ! 0" "mset h = add_mset (h ! 0) (mset (snd (heap_Pop key h)))"
proof -
  let ?n = "length h - 1" and ?s = "swap_elems 0 (length h - 1) h"
  let ?d = "heap_down key 0 ?n ?s"
  have n: "?n < length h" "0 < length h" using assms by auto
  have s: "mset ?s = mset h" "?s ! ?n = h ! 0" using n by (auto simp: swap_elems_nth intro!: mset_swap_elems)
  have down: "mset ?d = mset h \<and> ?d ! ?n = h ! 0"
  proof (cases "?n = 0")
    case True
    with s show ?thesis using heap_down_stop [of ?n 0 key ?s] by simp
  next
    case False
    with heap_down_elems [of ?n ?s 0 key] s n show ?thesis by simp
  qed
  then have "length ?d = length h" using mset_eq_length by blast
  then have "?d = take ?n ?d @ [?d ! ?n]" using take_Suc_conv_app_nth [of ?n ?d] n by simp
  then have "mset ?d = mset (take ?n ?d @ [?d ! ?n])" by (rule arg_cong)
  also have "\<dots> = add_mset (h ! 0) (mset (take ?n ?d))" using down by simp
  finally have "mset h = add_mset (h ! 0) (mset (take ?n ?d))" using down by simp
  then show "mset h = add_mset (h ! 0) (mset (snd (heap_Pop key h)))" by (simp only: heap_Pop_def Let_def snd_conv)
  show "fst (heap_Pop key h) = h ! 0" using down by (simp add: heap_Pop_def Let_def)
qed

lemma mset_heap_Push: "mset (heap_Push key x h) = add_mset x (mset h)"
  using mset_heap_up [of "length h" "h @ [x]" key] by (simp add: heap_Push_def)

definition idle :: "linkRegistry \<Rightarrow> state_ref \<Rightarrow> bool" where
  "idle s k \<longleftrightarrow> st_status (state_objs s k) \<noteq> StatusEstablished \<and> st_status (state_objs s k) \<noteq> StatusDialing \<and>
     \<not> st_dialActive (state_objs s k)"

text \<open>
  A state has been tried: one more attempt is counted, and its dial is queued, or the pool refused
  it and the state has no dial.
\<close>

definition tried :: "linkRegistry \<Rightarrow> linkRegistry \<Rightarrow> state_ref \<Rightarrow> bool" where
  "tried s t k \<longleftrightarrow> st_dialAttempts (state_objs t k) = st_dialAttempts (state_objs s k) + 1 \<and>
     (st_status (state_objs t k) = StatusDialing \<and> st_dialActive (state_objs t k) \<and> DialJob k \<in> set (reg_jobs t) \<or>
      st_status (state_objs t k) = StatusQueueFailed \<and> \<not> st_dialActive (state_objs t k))"

lemma updateStatus_now [simp]:
  "st_status (updateStatus v st) = v" "st_dialActive (updateStatus v st) = st_dialActive st"
  by (simp_all add: updateStatus_def Let_def)

lemma updateStatus_dial [simp]:
  "st_dialer (updateStatus v st) = st_dialer st" "st_dialAttempts (updateStatus v st) = st_dialAttempts st"
  by (simp_all add: updateStatus_def Let_def)

lemma dialFailed_cases:
  fixes s :: linkRegistry and k :: state_ref and env :: reg_env
  defines "s1 \<equiv> set_state k (\<lambda>st. if st_allowedDials st > 0 then st\<lparr>st_allowedDials := st_allowedDials st - 1\<rparr> else st) s"
  obtains (dropped) d f where "state_dialFailed env a k s = set_dest d f s1"
  | (requeued) cfg delay later s2 where
      "cfg = dr_healthyBackoff (st_dialer (state_objs s k)) \<or> cfg = dr_unhealthyBackoff (st_dialer (state_objs s k))"
      "0 \<le> later"
      "s2 = tick (set_state k (\<lambda>st. st\<lparr>st_retryDelay := retry_delay env (reg_ticks s) cfg delay,
         st_nextDial := le_clock env (reg_ticks s) + retry_delay env (reg_ticks s) cfg delay + later\<rparr>) s1)"
      "state_dialFailed env a k s = s2\<lparr>linkStateQueue := heap_Push (dial_key s2) k (linkStateQueue s2)\<rparr>"
proof (cases "st_allowedDials (state_objs s1 k) = 0")
  case True
  then show ?thesis by (intro dropped) (simp add: state_dialFailed_def Let_def s1_def)
next
  case False
  let ?cfg = "if \<not> ld_healthy (dest_objs s1 (st_dest (state_objs s1 k))) then dr_unhealthyBackoff (st_dialer (state_objs s1 k))
              else dr_healthyBackoff (st_dialer (state_objs s1 k))"
  have cfg: "?cfg = dr_healthyBackoff (st_dialer (state_objs s k)) \<or> ?cfg = dr_unhealthyBackoff (st_dialer (state_objs s k))"
    by (simp add: s1_def)
  have t: "reg_ticks s = reg_ticks s1" by (simp add: s1_def)
  let ?later = "if a then (int (le_rand env (reg_ticks s) mod 4) + 1) * go_second else 0"
  have l: "0 \<le> ?later" by (simp add: go_second_def)
  have "state_dialFailed env a k s = (let s2 = tick (set_state k (\<lambda>st. st\<lparr>st_retryDelay := retry_delay env (reg_ticks s) ?cfg
           (st_retryDelay (state_objs s1 k)), st_nextDial := le_clock env (reg_ticks s) + retry_delay env (reg_ticks s) ?cfg
           (st_retryDelay (state_objs s1 k)) + ?later\<rparr>) s1) in s2\<lparr>linkStateQueue := heap_Push (dial_key s2) k (linkStateQueue s2)\<rparr>)"
    unfolding state_dialFailed_def Let_def s1_def [symmetric] t using False by (cases a) simp_all
  then show ?thesis unfolding Let_def by (rule requeued [OF cfg l refl])
qed

text \<open>What an evaluation of one state does to the queue: nothing, or the state is put back for later.\<close>

definition put_back :: "int \<Rightarrow> state_ref \<Rightarrow> linkRegistry \<Rightarrow> linkRegistry \<Rightarrow> bool" where
  "put_back now k s t \<longleftrightarrow> reg_ticks s \<le> reg_ticks t \<and> (\<forall>j. j \<noteq> k \<longrightarrow> state_objs t j = state_objs s j) \<and>
     st_dialer (state_objs t k) = st_dialer (state_objs s k) \<and>
     (linkStateQueue t = linkStateQueue s \<and> dial_key t k = dial_key s k \<or>
      linkStateQueue t = heap_Push (dial_key t) k (linkStateQueue s) \<and> now < dial_key t k)"

definition backoffs_ok :: "linkRegistry \<Rightarrow> state_ref \<Rightarrow> bool" where
  "backoffs_ok s k \<longleftrightarrow> backoff_ok (dr_healthyBackoff (st_dialer (state_objs s k))) \<and>
     backoff_ok (dr_unhealthyBackoff (st_dialer (state_objs s k)))"

lemma dialFailed_put_back:
  assumes "\<forall>n \<ge> reg_ticks s. now \<le> le_clock env n" "backoffs_ok s k"
  shows "put_back now k s (state_dialFailed env a k s) \<and>
    st_dialAttempts (state_objs (state_dialFailed env a k s) k) = st_dialAttempts (state_objs s k) \<and>
    st_dialActive (state_objs (state_dialFailed env a k s) k) = st_dialActive (state_objs s k) \<and>
    reg_jobs (state_dialFailed env a k s) = reg_jobs s"
proof (cases rule: dialFailed_cases [of env a k s])
  case (dropped d f)
  then show ?thesis by (simp add: put_back_def set_dest_def)
next
  case (requeued cfg delay later s2)
  have "0 < retry_delay env (reg_ticks s) cfg delay" "now \<le> le_clock env (reg_ticks s)"
    using requeued(1) assms by (auto simp: backoffs_ok_def retry_delay_positive)
  with requeued(2) have "now < le_clock env (reg_ticks s) + retry_delay env (reg_ticks s) cfg delay + later" by linarith
  with requeued(3,4) show ?thesis by (simp add: put_back_def tick_def)
qed

lemma put_back_trans:
  assumes "put_back now k s' t" "reg_ticks s \<le> reg_ticks s'" "\<forall>j. j \<noteq> k \<longrightarrow> state_objs s' j = state_objs s j"
    "st_dialer (state_objs s' k) = st_dialer (state_objs s k)" "dial_key s' k = dial_key s k" "linkStateQueue s' = linkStateQueue s"
  shows "put_back now k s t"
  using assms by (auto simp: put_back_def)

text \<open>An evaluation touches nothing, or it tries the state, which was idle.\<close>

definition evaluated :: "int \<Rightarrow> state_ref \<Rightarrow> linkRegistry \<Rightarrow> linkRegistry \<Rightarrow> bool" where
  "evaluated now k s t \<longleftrightarrow> put_back now k s t \<and> (idle s k \<and> dial_key s k < now \<longrightarrow> tried s t k) \<and>
     (state_objs t k = state_objs s k \<or> idle s k \<and> tried s t k) \<and>
     (reg_jobs t = reg_jobs s \<or> idle s k \<and> reg_jobs t = reg_jobs s @ [DialJob k])"

lemma evaluate_put_back:
  assumes "\<forall>n \<ge> reg_ticks s. now \<le> le_clock env n" "backoffs_ok s k"
  shows "evaluated now k s (evaluateLinkState env k s)"
proof -
  define go where "go \<longleftrightarrow> (st_status (state_objs (tick s) k) \<noteq> StatusEstablished \<and> st_status (state_objs (tick s) k) \<noteq> StatusDialing \<and>
      dial_key (tick s) k < le_clock env (reg_ticks s)) \<and> \<not> st_dialActive (state_objs (tick s) k)"
  define s1 where "s1 = set_state k (\<lambda>st. (updateStatus StatusDialing (st\<lparr>st_dialActive := True\<rparr>))
    \<lparr>st_dialAttempts := st_dialAttempts st + 1\<rparr>) (tick s)"
  define s2 where "s2 = set_state k (\<lambda>st. updateStatus StatusQueueFailed (st\<lparr>st_dialActive := False\<rparr>)) s1"
  have e: "evaluateLinkState env k s = (if go then if le_pool env (reg_ticks s) then s1\<lparr>reg_jobs := reg_jobs s1 @ [DialJob k]\<rparr>
      else state_dialFailed env False k s2 else tick s)"
    unfolding evaluateLinkState_def Let_def go_def s1_def s2_def by (rule refl)
  have s2: "reg_ticks s \<le> reg_ticks s2" "\<forall>j. j \<noteq> k \<longrightarrow> state_objs s2 j = state_objs s j"
    "st_dialer (state_objs s2 k) = st_dialer (state_objs s k)" "dial_key s2 k = dial_key s k" "linkStateQueue s2 = linkStateQueue s"
    "st_dialAttempts (state_objs s2 k) = st_dialAttempts (state_objs s k) + 1" "reg_jobs s2 = reg_jobs s"
    "st_status (state_objs s2 k) = StatusQueueFailed" "\<not> st_dialActive (state_objs s2 k)"
    by (simp_all add: s1_def s2_def tick_def)
  have "\<forall>n \<ge> reg_ticks s2. now \<le> le_clock env n" "backoffs_ok s2 k"
    using assms s2(1,3) by (simp_all add: backoffs_ok_def)
  note d = dialFailed_put_back [OF this, of False]
  have go: "go \<Longrightarrow> idle s k" "idle s k \<and> dial_key s k < now \<Longrightarrow> go"
    using assms(1) [rule_format, of "reg_ticks s"] by (auto simp: go_def idle_def)
  have "put_back now k s (state_dialFailed env False k s2)" by (rule put_back_trans [OF conjunct1 [OF d] s2(1-5)])
  moreover have "tried s (state_dialFailed env False k s2) k"
    using d s2(6-9) by (simp add: tried_def dialFailed_status)
  ultimately have "go \<Longrightarrow> evaluated now k s (state_dialFailed env False k s2)" using go(1) d s2(7) by (simp add: evaluated_def)
  moreover have "go \<Longrightarrow> evaluated now k s (s1\<lparr>reg_jobs := reg_jobs s1 @ [DialJob k]\<rparr>)" using go(1)
    by (simp add: evaluated_def put_back_def tried_def s1_def tick_def)
  moreover have "\<not> go \<Longrightarrow> evaluated now k s (tick s)" using go(2) by (auto simp: evaluated_def put_back_def tick_def)
  ultimately show ?thesis unfolding e by simp
qed

section \<open>The scan\<close>

definition queue_ok :: "linkRegistry \<Rightarrow> bool" where
  "queue_ok s \<longleftrightarrow> distinct (linkStateQueue s) \<and> heap_ok (dial_key s) (length (linkStateQueue s)) (linkStateQueue s)"

definition due :: "int \<Rightarrow> linkRegistry \<Rightarrow> state_ref multiset" where
  "due now s = filter_mset (\<lambda>k. dial_key s k \<le> now) (mset (linkStateQueue s))"

lemma put_back_due:
  assumes "put_back now k s t" "dial_key s k \<le> now"
  shows "due now t \<subseteq># due now s" "set (linkStateQueue t) \<subseteq> insert k (set (linkStateQueue s))"
proof -
  have le: "dial_key t j \<le> now \<Longrightarrow> dial_key s j \<le> now" for j using assms by (cases "j = k") (auto simp: put_back_def)
  have "filter_mset (\<lambda>j. dial_key t j \<le> now) M \<subseteq># filter_mset (\<lambda>j. dial_key s j \<le> now) M" for M
    by (rule filter_mset_mono_strong) (use le in auto)
  moreover have "due now t = filter_mset (\<lambda>j. dial_key t j \<le> now) (mset (linkStateQueue s))"
    using assms by (auto simp: put_back_def due_def mset_heap_Push)
  ultimately show "due now t \<subseteq># due now s" by (simp add: due_def)
  show "set (linkStateQueue t) \<subseteq> insert k (set (linkStateQueue s))"
    using assms(1) by (auto simp: put_back_def heap_push_set)
qed

lemma heap_ok_cong: "(\<And>k. k \<in> set h \<Longrightarrow> key k = key' k) \<Longrightarrow> heap_ok key (length h) h = heap_ok key' (length h) h"
proof -
  assume e: "\<And>k. k \<in> set h \<Longrightarrow> key k = key' k"
  have "parent i < length h" if "0 < i" "i < length h" for i using parent_less [OF that(1)] that(2) by simp
  with e show ?thesis by (simp add: heap_ok_def)
qed

lemma put_back_queue_ok:
  assumes "put_back now k s t" "queue_ok s" "k \<notin> set (linkStateQueue s)"
  shows "queue_ok t"
proof -
  have e: "dial_key t j = dial_key s j" if "j \<in> set (linkStateQueue s)" for j
    using assms that by (cases "j = k") (auto simp: put_back_def)
  have "heap_ok (dial_key t) (length (linkStateQueue s)) (linkStateQueue s)"
    using heap_ok_cong [of "linkStateQueue s" "dial_key t" "dial_key s"] e assms(2) by (simp add: queue_ok_def)
  moreover have "distinct (heap_Push (dial_key t) k (linkStateQueue s))"
    using mset_heap_Push [of "dial_key t" k "linkStateQueue s"] assms(2,3)
    by (metis distinct.simps(2) mset.simps(2) mset_eq_imp_distinct_iff queue_ok_def)
  ultimately show ?thesis
    using assms link_state_heap.push_ok [of "dial_key t" "linkStateQueue s" k] by (auto simp: put_back_def queue_ok_def)
qed

lemma front_due_all:
  assumes "queue_ok s" "linkStateQueue s = [] \<or> now < dial_key s (linkStateQueue s ! 0)" "k \<in> set (linkStateQueue s)"
  shows "now < dial_key s k"
proof -
  have "now < dial_key s (linkStateQueue s ! 0)" using assms(2,3) by auto
  also have "\<dots> \<le> dial_key s k"
    using link_state_heap.front_least [of "dial_key s" "linkStateQueue s" k] assms(1,3) by (simp add: queue_ok_def)
  finally show ?thesis .
qed

text \<open>The result of a scan that starts at \<open>now\<close>.\<close>

definition scanned :: "int \<Rightarrow> linkRegistry \<Rightarrow> linkRegistry \<Rightarrow> bool" where
  "scanned now s t \<longleftrightarrow> queue_ok t \<and>
     (\<forall>k. state_objs t k = state_objs s k \<or> k \<in> set (linkStateQueue s) \<and> dial_key s k \<le> now \<and> idle s k \<and> tried s t k) \<and>
     (\<forall>k \<in> set (linkStateQueue s). dial_key s k < now \<and> idle s k \<longrightarrow> tried s t k) \<and>
     (\<forall>k \<in> set (linkStateQueue s). now < dial_key s k \<longrightarrow> k \<in> set (linkStateQueue t)) \<and>
     (\<exists>ks. reg_jobs t = reg_jobs s @ map DialJob ks \<and>
        (\<forall>k \<in> set ks. k \<in> set (linkStateQueue s) \<and> dial_key s k \<le> now \<and> idle s k))"

lemma scanned_jobs: "scanned now s t \<Longrightarrow> set (reg_jobs s) \<subseteq> set (reg_jobs t)"
  by (auto simp: scanned_def)

lemma scanned_step:
  assumes "evaluated now k s1 s'" "s1 = s\<lparr>linkStateQueue := q\<rparr>" "queue_ok s" "mset (linkStateQueue s) = add_mset k (mset q)"
    "dial_key s k \<le> now" "scanned now s' t"
  shows "scanned now s t"
proof -
  have d: "distinct (k # q)" using assms(3,4) by (metis mset.simps(2) mset_eq_imp_distinct_iff queue_ok_def)
  have q: "set (linkStateQueue s) = insert k (set q)" using assms(4) by (metis mset.simps(2) list.simps(15) mset_eq_setD)
  have pb: "\<forall>j. j \<noteq> k \<longrightarrow> state_objs s' j = state_objs s j"
    "set (linkStateQueue s') = set q \<and> dial_key s' k = dial_key s k \<or> set (linkStateQueue s') = insert k (set q) \<and> now < dial_key s' k"
    using assms(1,2) by (auto simp: evaluated_def put_back_def heap_push_set)
  have ev: "idle s k \<and> dial_key s k < now \<longrightarrow> tried s s' k" "state_objs s' k = state_objs s k \<or> idle s k \<and> tried s s' k"
    "reg_jobs s' = reg_jobs s \<or> idle s k \<and> reg_jobs s' = reg_jobs s @ [DialJob k]"
    using assms(1,2) by (simp_all add: evaluated_def idle_def tried_def)
  have k: "state_objs t k = state_objs s' k" using assms(6) pb(2) d by (auto simp: scanned_def)
  have tk: "tried s s' k \<Longrightarrow> tried s t k" using scanned_jobs [OF assms(6)] by (auto simp: tried_def k)
  have j: "j \<in> set (linkStateQueue s') \<longleftrightarrow> j \<in> set (linkStateQueue s)" if "j \<noteq> k" for j using pb(2) q that by auto
  have o: "idle s' j = idle s j" "tried s' t j = tried s t j" "dial_key s' j = dial_key s j" if "j \<noteq> k" for j
    using pb(1) that by (simp_all add: idle_def tried_def)
  obtain ks where ks: "reg_jobs t = reg_jobs s' @ map DialJob ks"
    "\<forall>j \<in> set ks. j \<in> set (linkStateQueue s') \<and> dial_key s' j \<le> now \<and> idle s' j" using assms(6) by (auto simp: scanned_def)
  have "k \<notin> set ks" using ks(2) pb(2) d by auto
  then have ok: "\<forall>j \<in> set ks. j \<in> set (linkStateQueue s) \<and> dial_key s j \<le> now \<and> idle s j" using ks(2) j o by metis
  have sc: "state_objs t i = state_objs s' i \<or> i \<in> set (linkStateQueue s') \<and> dial_key s' i \<le> now \<and> idle s' i \<and> tried s' t i" for i
    using assms(6) by (simp add: scanned_def)
  show ?thesis
    unfolding scanned_def
  proof (intro conjI allI ballI impI)
    show "queue_ok t" using assms(6) by (simp add: scanned_def)
    fix i
    show "state_objs t i = state_objs s i \<or> i \<in> set (linkStateQueue s) \<and> dial_key s i \<le> now \<and> idle s i \<and> tried s t i"
    proof (cases "i = k")
      case True
      then show ?thesis using ev(2) k tk q assms(5) by auto
    next
      case False
      then show ?thesis using sc [of i] j o pb(1) by auto
    qed
    assume iq: "i \<in> set (linkStateQueue s)"
    show "i \<in> set (linkStateQueue t)" if "now < dial_key s i"
      using that iq assms(5,6) j o by (cases "i = k") (auto simp: scanned_def)
    show "tried s t i" if "dial_key s i < now \<and> idle s i"
    proof (cases "i = k")
      case False
      have "i \<in> set (linkStateQueue s') \<longrightarrow> dial_key s' i < now \<and> idle s' i \<longrightarrow> tried s' t i"
        using assms(6) by (simp add: scanned_def)
      with that iq j [OF False] o [OF False] show ?thesis by simp
    qed (use that ev(1) tk in simp)
  next
    show "\<exists>ks. reg_jobs t = reg_jobs s @ map DialJob ks \<and>
        (\<forall>k \<in> set ks. k \<in> set (linkStateQueue s) \<and> dial_key s k \<le> now \<and> idle s k)"
      using ev(3)
    proof
      assume "idle s k \<and> reg_jobs s' = reg_jobs s @ [DialJob k]"
      then show ?thesis using ks(1) ok q assms(5) by (intro exI [of _ "k # ks"]) auto
    qed (use ks(1) ok in auto)
  qed
qed

lemma queue_scan:
  assumes "\<forall>n \<ge> reg_ticks s. now \<le> le_clock env n" "\<forall>k \<in> set (linkStateQueue s). backoffs_ok s k"
  shows "\<exists>t. evaluate_queue env now s = Some t \<and> (linkStateQueue t = [] \<or> now < dial_key t (linkStateQueue t ! 0)) \<and>
    (queue_ok s \<longrightarrow> scanned now s t)"
  using assms
proof (induction "size (due now s)" arbitrary: s rule: less_induct)
  case (less s)
  show ?case
  proof (cases "linkStateQueue s = [] \<or> now < dial_key s (linkStateQueue s ! 0)")
    case True
    then have "evaluate_queue env now s = Some s" by (subst evaluate_queue.simps) auto
    moreover have "queue_ok s \<Longrightarrow> scanned now s s"
      using front_due_all [OF _ True] by (auto simp: scanned_def dest: order.asym intro!: exI [of _ "[]"])
    ultimately show ?thesis using True by blast
  next
    case False
    define k where "k = linkStateQueue s ! 0"
    define q where "q = snd (heap_Pop (dial_key s) (linkStateQueue s))"
    define s1 where "s1 = s\<lparr>linkStateQueue := q\<rparr>"
    define s' where "s' = evaluateLinkState env k s1"
    have pop: "heap_Pop (dial_key s) (linkStateQueue s) = (k, q)" and m: "mset (linkStateQueue s) = add_mset k (mset q)"
      using heap_Pop_elems [of "linkStateQueue s" "dial_key s"] False by (auto simp: k_def q_def prod_eq_iff)
    have set: "set (linkStateQueue s) = insert k (set q)" using m by (metis mset.simps(2) list.simps(15) mset_eq_setD)
    have run: "evaluate_queue env now s = evaluate_queue env now s'"
      using False pop by (subst evaluate_queue.simps) (simp add: s'_def s1_def)
    have kd: "dial_key s k \<le> now" using False by (simp add: k_def)
    have "\<forall>n \<ge> reg_ticks s1. now \<le> le_clock env n" "backoffs_ok s1 k"
      using less.prems set by (simp_all add: s1_def backoffs_ok_def)
    note ev = evaluate_put_back [OF this, folded s'_def]
    have pbk: "put_back now k s1 s'" using ev by (simp add: evaluated_def)
    note pb = put_back_due [OF pbk]
    have kd1: "dial_key s1 k \<le> now" using kd by (simp add: s1_def)
    have "due now s = add_mset k (due now s1)" using kd by (simp add: due_def m s1_def)
    with pb(1) [OF kd1] have "size (due now s') < size (due now s)" by (simp add: size_mset_mono less_Suc_eq_le)
    moreover have "\<forall>n \<ge> reg_ticks s'. now \<le> le_clock env n" using pbk less.prems(1) by (simp add: put_back_def s1_def)
    moreover have d: "st_dialer (state_objs s' j) = st_dialer (state_objs s j)" for j
      using pbk by (cases "j = k") (simp_all add: put_back_def s1_def)
    then have "\<forall>j \<in> set (linkStateQueue s'). backoffs_ok s' j"
      using less.prems(2) pb(2) [OF kd1] set by (auto simp: backoffs_ok_def s1_def)
    ultimately obtain t where t: "evaluate_queue env now s' = Some t"
        "linkStateQueue t = [] \<or> now < dial_key t (linkStateQueue t ! 0)" "queue_ok s' \<longrightarrow> scanned now s' t"
      using less.hyps by blast
    have "scanned now s t" if ok: "queue_ok s"
    proof -
      have "distinct (k # q)" using ok m by (metis mset.simps(2) mset_eq_imp_distinct_iff queue_ok_def)
      moreover have "queue_ok s1"
        using ok False link_state_heap.pop_ok [of "dial_key s" "linkStateQueue s"] \<open>distinct (k # q)\<close>
        by (simp add: queue_ok_def s1_def q_def)
      ultimately have "queue_ok s'" using put_back_queue_ok [OF pbk] by (simp add: s1_def)
      with t(3) show ?thesis by (intro scanned_step [OF ev s1_def ok m kd]) simp
    qed
    with t run show ?thesis by auto
  qed
qed

text \<open>
  C11. A check of the dial queue always ends, whatever the order of the heap and even if the dialer
  pool refuses every dial, as long as the clock does not run backwards and the dialers' back-off
  settings were accepted by the configuration loader. Afterwards the front of the queue is not due.
  If the queue was a proper heap without duplicates, nothing in it is due and what was not due is
  still in it; every idle state whose time had come was tried, once, its dial queued or refused
  by the pool; any other state, one not due as well as one that is established or being dialed, is exactly
  as it was, and no dial was queued for it.
\<close>

theorem dial_queue_scan:
  assumes "\<forall>n \<ge> reg_ticks s. le_clock env (reg_ticks s) \<le> le_clock env n"
    and "\<forall>k \<in> set (linkStateQueue s). loaded_dialer parse (st_dialer (state_objs s k))"
  shows "\<exists>t. evaluateLinkStateQueue env s = Some t \<and>
    (linkStateQueue t = [] \<or> le_clock env (reg_ticks s) < dial_key t (linkStateQueue t ! 0)) \<and>
    (queue_ok s \<longrightarrow>
       (\<forall>k \<in> set (linkStateQueue t). le_clock env (reg_ticks s) < dial_key t k) \<and>
       (\<forall>k \<in> set (linkStateQueue s). le_clock env (reg_ticks s) < dial_key s k \<longrightarrow> k \<in> set (linkStateQueue t)) \<and>
       (\<forall>k \<in> set (linkStateQueue s). dial_key s k < le_clock env (reg_ticks s) \<and> idle s k \<longrightarrow> tried s t k) \<and>
       (\<forall>k. state_objs t k = state_objs s k \<or>
          k \<in> set (linkStateQueue s) \<and> dial_key s k \<le> le_clock env (reg_ticks s) \<and> idle s k \<and> tried s t k) \<and>
       (\<exists>ks. reg_jobs t = reg_jobs s @ map DialJob ks \<and>
          (\<forall>k \<in> set ks. k \<in> set (linkStateQueue s) \<and> dial_key s k \<le> le_clock env (reg_ticks s) \<and> idle s k)))"
proof -
  let ?now = "le_clock env (reg_ticks s)"
  have "\<forall>n \<ge> reg_ticks (tick s). ?now \<le> le_clock env n" using assms(1) by (simp add: tick_def)
  moreover have "\<forall>k \<in> set (linkStateQueue (tick s)). backoffs_ok (tick s) k"
    using assms(2) by (auto simp: backoffs_ok_def loaded_dialer_def dest: load_dial_backoffs_ok)
  ultimately obtain t where t: "evaluateLinkStateQueue env s = Some t"
      "linkStateQueue t = [] \<or> ?now < dial_key t (linkStateQueue t ! 0)" "queue_ok (tick s) \<longrightarrow> scanned ?now (tick s) t"
    using queue_scan [of "tick s" ?now env] by (auto simp: evaluateLinkStateQueue_def)
  have "queue_ok (tick s) = queue_ok s" by (simp add: queue_ok_def)
  with t show ?thesis using front_due_all [of t ?now] by (intro exI [of _ t]) (auto simp: scanned_def idle_def tried_def)
qed

definition waiting_env :: reg_env where
  "waiting_env = \<lparr>le_clock = int, le_pool = (\<lambda>n. False), le_scale = (\<lambda>n cfg d. 2 * d), le_rand = (\<lambda>n. 0), le_uuid = (\<lambda>n. ''id''),
     le_ord = (\<lambda>n ks. ks), le_dialers = [], le_containsAny = (\<lambda>as bs. True), le_legacyCtrl = False\<rparr>"

definition waiting_registry :: linkRegistry where
  "waiting_registry = NewLinkRegistry\<lparr>linkStateQueue := [0], next_state := 1,
     state_objs := (\<lambda>k. new_link_state ''key'' ''id'' 0 \<lparr>ls_address = ''a'', ls_protocol = ''tls'', ls_localBinding = '''', ls_groups = []\<rparr>
       \<lparr>dr_binding = '''', dr_groups = [], dr_healthyBackoff = default_healthy, dr_unhealthyBackoff = default_unhealthy\<rparr>)\<rparr>"

theorem dial_queue_scan_witness:
  "\<exists>t. evaluateLinkStateQueue waiting_env waiting_registry = Some t \<and> tried waiting_registry t 0"
proof -
  have "loaded_dialer (\<lambda>v. None) (st_dialer (state_objs waiting_registry k))" for k
    by (auto simp: loaded_dialer_def load_dial_backoffs_def waiting_registry_def new_link_state_def intro!: exI [of _ None])
  then have a: "\<forall>k \<in> set (linkStateQueue waiting_registry). loaded_dialer (\<lambda>v. None) (st_dialer (state_objs waiting_registry k))" by simp
  have "\<forall>n \<ge> reg_ticks waiting_registry. le_clock waiting_env (reg_ticks waiting_registry) \<le> le_clock waiting_env n"
    by (simp add: waiting_env_def waiting_registry_def NewLinkRegistry_def)
  from dial_queue_scan [OF this a] show ?thesis
    by (auto simp: queue_ok_def heap_ok_def idle_def waiting_registry_def waiting_env_def NewLinkRegistry_def new_link_state_def
        zero_time_def go_second_def)
qed

end
