(* ===== verification/Spec2Isabelle.thy ===== *)
theory Spec2Isabelle
  imports Delivery Circuit_Create Circuit_Reroute Work_Tracker Registry_Scan
begin

text \<open>
  A verification development for the zt overlay network: the controller's links, paths, terminators,
  circuits and rate limiters, and the router's forwarder and link registry. Paths below are relative
  to \<open>src/\<close>.

  \<^bold>\<open>The program.\<close> Routers connect to a controller and to each other by links. The controller keeps
  a table of links from the routers' reports and faults, computes cheapest paths over it, chooses a
  terminator (an exit of a service) with a path for every dial, and sends each router on the path a
  route message. The routers forward payloads by the tables these messages fill. When a link or router is lost the controller reroutes
  or removes the circuits on it. Each router dials the links it should have and reports them. Commands to the
  controller pass rate limiters.

  \<^bold>\<open>Theories, in the order of the data flow.\<close>

  \<^item> \<open>Zt_Prelude\<close>: Go integers (\<open>i64\<close>, \<open>i32\<close>), maps as association lists, iteration in any order
    (\<open>go_range\<close>), sorting, loops that may panic (\<open>ofold\<close>), and their lemmas.
  \<^item> \<open>Links\<close>, \<open>Link_Index\<close>: \<open>controller/model/link_model.go\<close>, \<open>link_manager.go\<close>, \<open>router_manager.go\<close> and
    the handlers of \<open>controller/network\<close> that change links (\<open>NotifyExistingLink\<close>, \<open>LinkFaulted\<close>,
    \<open>ConnectRouter\<close>, \<open>DisconnectRouter\<close>, \<open>AcceptMetricsMsg\<close>, \<open>ScanForDeadLinks\<close>, \<open>clean\<close>). The state \<open>net\<close>
    is two heaps and the tables. A handler is one step; \<open>any_step\<close> interleaves them all, with faults and removals that come
    late for a link object, and \<open>net_step\<close> leaves out those that hit an object replaced by another with the same id and
    iteration. Shown: the link table and both indexes of every router agree, under \<open>net_step\<close> no link
    outside the table stays in use, which \<open>any_step\<close> breaks, a neighbour always has a link, a
    disconnected router is gone, only newer iterations replace a link, and faults of older ones are ignored.
  \<^item> \<open>Shortest_Path\<close>, \<open>Routing\<close>: \<open>controller/network/network_path.go\<close>, \<open>minCost\<close> of \<open>network.go\<close>,
    \<open>controller/model/path.go\<close>. The search loop is Dijkstra's with int64 arithmetic; shown are
    that it returns, never panics, and is optimal while link costs stay in range (\<open>costs_bounded\<close>), that updated paths
    follow it, and that the route messages of a path connect its ends.
  \<^item> \<open>Forwarder\<close>, \<open>Delivery\<close>: \<open>router/forwarder\<close> (tables, forwarder, faulter, scanner) and the handlers of
    \<open>router/handler_link\<close> and \<open>router/handler_xgress/data_plane.go\<close> that feed it. Shown: what an accepted
    and a refused route message installs, where payloads go, that delayed unrouting ends a circuit while other
    goroutines change the forwarder, or stops when it closes, that trace routes are answered, which faults and idle circuits are reported.
  \<^item> \<open>Terminator_Costs\<close>, \<open>Terminators\<close>: \<open>controller/xt\<close>, \<open>controller/xt_common\<close>, the strategies, and
    \<open>Network.selectPath\<close>. The cost visitor with its shared cost objects refines saturating counters;
    a selection is a usable terminator of the best precedence with a shortest path; failures have the cause they name.
  \<^item> \<open>Route_Sender\<close>, \<open>Circuits\<close>, \<open>Circuit_Create\<close>, \<open>Circuit_Reroute\<close>: \<open>controller/network/routesender.go\<close>,
    \<open>circuit_manager.go\<close>, \<open>CreateCircuit\<close>, \<open>RemoveCircuit\<close>, rerouting after faults and smart rerouting.
    The statuses of an attempt and its deadline are a list of arrivals; \<open>timed_arrivals\<close> makes that list from arrival
    times, the deadline and the timers set in each round. Shown: a created circuit was acknowledged by every router of its path, what is cleaned up after failures, that attempts
    end at their deadline, that a reroute leaves no circuit on a lost link or a deleted end point except one that another call is rerouting
    at that moment, and the limits of smart rerouting.
  \<^item> \<open>Rate_Limiter\<close>, \<open>Work_Tracker\<close>: \<open>controller/command/rate_limiter.go\<close> as interleaved calls, workers and
    signals (\<open>dl_step\<close>, \<open>ar_step\<close>, the tracker's steps). The locale \<open>adaptive_window\<close> is the contract both
    adaptive limiters meet.
  \<^item> \<open>Dial_Queue\<close>, \<open>Link_Registry\<close>, \<open>Registry_Invariant\<close>, \<open>Registry_Scan\<close>: \<open>router/link\<close> and the back-off
    settings of \<open>router/xlink_transport/config.go\<close>. The locale \<open>dial_queue\<close> is the contract of the heap of states to dial;
    \<open>reg_step\<close> interleaves the loop with dials, notifications and calls that wait for room in the event channel. Shown: the registry's invariant in
    every reachable state, and that a check of the queue ends, tries what is due and touches nothing else.

  This theory joins the controller's route messages with the routers' forwarders.

  \<^bold>\<open>Conventions.\<close> Objects that Go shares by pointer live in heaps indexed by natural numbers. A lock's critical
  section is one step. Effects on the outside (messages, closing a channel, events) are values of an
  effect type, in order. An outer \<open>None\<close> is a panic or a call that has not returned, and is
  excluded by theorem where the code excludes it. Errors are values. The clock, random numbers, generated ids, map
  orders, float results and answers of pools and sockets are arguments; where a theorem needs something of them (a clock that
  does not run backwards, a deadline that passes) it is a hypothesis. Counters that Go wraps are words or are
  wrapped explicitly.

  \<^bold>\<open>Bounds and fuel.\<close> No definition has fuel. Loops are structural, or \<open>function\<close> with a measure (the unvisited routers of the
  search, the index of a heap operation), or \<open>partial_function (option)\<close> (the walk back of the search, \<open>ForwardControl\<close>, the queue check,
  the retry of a full queue), for which the theorems prove that a result exists. \<open>costs_bounded\<close> says that the cost of every link is
  at least 0 and below 2 to the power of 61, so that a distance, which the search keeps at \<open>math.MaxInt32\<close> or less, plus the cost of a step does not wrap. Paths that cost
  \<open>math.MaxInt32\<close> or more count as no route.

  \<^bold>\<open>Not modelled.\<close> Logging and metrics; encoding of messages and channel I/O, and the third-party
  packages behind them (channel, xgress, bbolt, raft), of which only the results used appear as
  parameters; inspection and validation calls that only read; in the link registry also metric
  collection, \<open>syncRequiredLinkStates\<close>, \<open>NotifyOfReconnect\<close> and shutdown. Generated code, the command line, REST and
  management APIs, the persistent model (of a stored terminator only the conversion from and to the model), clustering, authentication, posture checks, the router data model, tunnelers and the
  xgress implementations are outside the development.
\<close>

section \<open>The controller's routes and the routers' forwarders together\<close>

text \<open>
  C3. The route messages the controller creates for a path make a working circuit. If each router on
  the path knows its links of the path, the first the initiator's endpoint and the last the
  terminator's, and the addresses on the path differ, then every router accepts its message, a
  payload the initiator sends arrives unchanged at the terminator's endpoint, and one the terminator
  sends at the initiator's, over all routers of the path. The sending endpoint may see any number
  of full queues first; the links in between take what they are given.
\<close>

theorem circuit_carries_payloads:
  fixes n :: net and p :: Path and fs :: "Forwarder list" and attempt :: "32 word" and circuitId binding address :: string
    and remaining now :: int and x :: 'p
  defines "msgs \<equiv> CreateRouteMessages n p attempt circuitId binding address remaining"
  assumes "attached n p fs a b" "distinct (path_addrs n p)"
    and "\<forall>d m. \<exists>k. send k d m = None \<and> (\<forall>j < k. \<exists>e. send j d m = Some e \<and> isTimeout e)"
  shows "(\<forall>i \<le> length (Links p). accepts ctrlId now (msgs ! i) (fs ! i)) \<and>
    send_along (\<lambda>l. l_id (links n l)) send isTimeout clock now' circuitId ctrlId (IngressId p) x
      (install_all ctrlId now msgs fs) = Some (b, x, 0) \<and>
    send_along (\<lambda>l. l_id (links n l)) send isTimeout clock now' circuitId ctrlId (EgressId p) x
      (rev (install_all ctrlId now msgs fs)) = Some (a, x, 0)"
  unfolding msgs_def
  by (intro conjI allI impI carried_forth [OF assms(2-4)] carried_back [OF assms(2-4)] installed_hop [OF assms(2,3), THEN conjunct1])

theorem circuit_carries_payloads_witness:
  "send_along (\<lambda>l. l_id (links demo_triangle l)) (\<lambda>k d m. if k < 2 then Some ''timeout'' else None) (\<lambda>e. e = ''timeout'') int 7
     ''c'' ''ctrl'' ''in'' ''data'' (install_all ''ctrl'' 5 (CreateRouteMessages demo_triangle three_path 0 ''c'' ''edge'' ''addr'' 5) three_routers)
   = Some (9, ''data'', 0)"
proof -
  have "\<forall>(d :: destination) (m :: string \<times> int \<times> PayloadType).
      \<exists>k::nat. (if k < 2 then Some ''timeout'' else None) = None \<and> (\<forall>j < k. \<exists>e. (if j < 2 then Some ''timeout'' else None) = Some e \<and> e = ''timeout'')"
    by (intro allI exI [of _ "2::nat"]) simp
  from circuit_carries_payloads [where send = "\<lambda>k d m. if k < 2 then Some ''timeout'' else None" and isTimeout = "\<lambda>e. e = ''timeout''",
      OF three_attached this, of "''ctrl''" 5 0 "''c''" "''edge''" "''addr''" 5 int 7 "''data''"]
  show ?thesis by (simp only: three_path_ingress)
qed

end
